(* ===== verification/Kernel_Prelude.thy ===== *)
theory Kernel_Prelude
  imports Main "HOL-Library.Word"
begin

text \<open>
  The shared vocabulary of the development: the fixed-width integer types of the C code, the
  result type that carries every way the kernel stops (a panic, a failed assertion, an access
  outside an object), counted loops over such results, byte-addressed physical memory with
  little-endian loads and stores, and the constants and macros of \<open>memory/mem.h\<close>.
\<close>

unbundle bit_operations_syntax

named_theorems result_simps \<open>rewriting of the error result type\<close>
named_theorems mem_simps \<open>loads after stores\<close>
named_theorems page_simps \<open>page alignment and page numbers\<close>

type_synonym u8 = "8 word"
type_synonym u16 = "16 word"
type_synonym u32 = "32 word"
type_synonym u64 = "64 word"

lemma unat_u64_less: "unat (x :: u64) < 18446744073709551616"
  using unsigned_less [of x, where ?'a = nat] by simp

lemma unat_u32_less: "unat (x :: u32) < 4294967296"
  using unsigned_less [of x, where ?'a = nat] by simp

lemma unat_u16_less: "unat (x :: u16) < 65536"
  using unsigned_less [of x, where ?'a = nat] by simp

lemma unat_u8_less: "unat (x :: u8) < 256"
  using unsigned_less [of x, where ?'a = nat] by simp

section \<open>Results: how the kernel stops\<close>

text \<open>
  \<open>Panic\<close> is a call of \<open>log(PANIC, ...)\<close>, which halts the machine; \<open>Assert_Failed\<close> a call of
  \<open>assert\<close> whose condition is false (it panics with the text of the condition);
  \<open>Out_Of_Bounds\<close> an access outside the object the code indexes; \<open>Divide_Error\<close> the exception of an integer
  division by zero; \<open>Int_Overflow\<close> a signed counter that runs past its type, which C leaves undefined.
\<close>

datatype kerror = Panic string | Assert_Failed string | Out_Of_Bounds | Divide_Error | Int_Overflow

type_synonym 'a result = "kerror + 'a"

definition rbind :: "'a result \<Rightarrow> ('a \<Rightarrow> 'b result) \<Rightarrow> 'b result" where
  "rbind r f = (case r of Inl e \<Rightarrow> Inl e | Inr x \<Rightarrow> f x)"

lemma rbind_Inl [simp, result_simps]: "rbind (Inl e) f = Inl e"
  by (simp add: rbind_def)

lemma rbind_Inr [simp, result_simps]: "rbind (Inr x) f = f x"
  by (simp add: rbind_def)

lemma rbind_eq_Inr [result_simps]: "rbind r f = Inr y \<longleftrightarrow> (\<exists>x. r = Inr x \<and> f x = Inr y)"
  by (cases r) auto

lemma rbind_eq_Inl [result_simps]:
  "rbind r f = Inl e \<longleftrightarrow> r = Inl e \<or> (\<exists>x. r = Inr x \<and> f x = Inl e)"
  by (cases r) auto

lemma rbind_cong [fundef_cong]:
  "r = r' \<Longrightarrow> (\<And>x. r' = Inr x \<Longrightarrow> f x = f' x) \<Longrightarrow> rbind r f = rbind r' f'"
  by (cases r') auto

text \<open>The same for code that may also run forever (\<open>None\<close>).\<close>

definition obind :: "'a result option \<Rightarrow> ('a \<Rightarrow> 'b result option) \<Rightarrow> 'b result option" where
  "obind r f = (case r of None \<Rightarrow> None | Some (Inl e) \<Rightarrow> Some (Inl e) | Some (Inr x) \<Rightarrow> f x)"

lemma obind_simps [simp, result_simps]:
  "obind None f = None" "obind (Some (Inl e)) f = Some (Inl e)" "obind (Some (Inr x)) f = f x"
  by (simp_all add: obind_def)

text \<open>\<open>assert(condition)\<close> of \<open>libk/testing/assert.c\<close>: panic unless the condition holds.\<close>

definition assert_impl :: "bool \<Rightarrow> string \<Rightarrow> unit result" where
  "assert_impl condition condition_str = (if \<not> condition then Inl (Assert_Failed condition_str) else Inr ())"

lemma assert_impl_eq_Inr [simp, result_simps]: "assert_impl c str = Inr u \<longleftrightarrow> c"
  by (simp add: assert_impl_def)

lemma assert_impl_True [simp]: "assert_impl True str = Inr ()"
  by (simp add: assert_impl_def)

text \<open>A counted loop: the body runs for each index in turn and stops at the first error.\<close>

fun rfold :: "('i \<Rightarrow> 's \<Rightarrow> 's result) \<Rightarrow> 'i list \<Rightarrow> 's \<Rightarrow> 's result" where
  "rfold f [] s = Inr s"
| "rfold f (i # is) s = rbind (f i s) (rfold f is)"

lemma rfold_append: "rfold f (xs @ ys) s = rbind (rfold f xs s) (rfold f ys)"
proof (induction xs arbitrary: s)
  case Nil
  then show ?case by simp
next
  case (Cons x xs)
  then show ?case by (cases "f x s") simp_all
qed

lemma rfold_cong [fundef_cong]:
  "is = is' \<Longrightarrow> s = s' \<Longrightarrow> (\<And>i s. i \<in> set is' \<Longrightarrow> f i s = g i s) \<Longrightarrow> rfold f is s = rfold g is' s'"
proof (induction "is" arbitrary: is' s s')
  case Nil
  then show ?case by auto
next
  case (Cons i "is")
  then show ?case by (auto intro!: rbind_cong)
qed

lemma rfold_invariant:
  assumes "rfold f is s = Inr t" and "P s"
    and "\<And>i s t. i \<in> set is \<Longrightarrow> P s \<Longrightarrow> f i s = Inr t \<Longrightarrow> P t"
  shows "P t"
  using assms
proof (induction "is" arbitrary: s)
  case Nil
  then show ?case by simp
next
  case (Cons i "is")
  then obtain u where "f i s = Inr u" and "rfold f is u = Inr t"
    by (auto simp: rbind_eq_Inr)
  with Cons show ?case by (metis list.set_intros(1,2))
qed

section \<open>Constants and macros of memory/mem.h\<close>

definition HIGHER_HALF_DATA :: u64 where "HIGHER_HALF_DATA = 0xFFFF800000000000"
definition HIGHER_HALF_CODE :: u64 where "HIGHER_HALF_CODE = 0xFFFFFFFF80000000"
definition GiB :: u64 where "GiB = 0x40000000"
definition HEAP_MAX_SIZE :: u64 where "HEAP_MAX_SIZE = 4 * GiB"
definition HEAP_START_ADDR :: u64 where "HEAP_START_ADDR = 0xFFFF900000000000"

abbreviation (input) PAGE_SIZE :: u64 where "PAGE_SIZE \<equiv> 4096"

definition KB_TO_PAGES :: "u64 \<Rightarrow> u64" where "KB_TO_PAGES kb = (kb * 1024) div PAGE_SIZE"
definition ALIGN_DOWN :: "u64 \<Rightarrow> u64 \<Rightarrow> u64" where "ALIGN_DOWN address align = address AND NOT (align - 1)"
definition ALIGN_UP :: "u64 \<Rightarrow> u64 \<Rightarrow> u64" where "ALIGN_UP address align = (address + align - 1) AND NOT (align - 1)"
definition BIT_TO_PAGE :: "u64 \<Rightarrow> u64" where "BIT_TO_PAGE b = b * PAGE_SIZE"
definition PAGE_TO_BIT :: "u64 \<Rightarrow> u64" where "PAGE_TO_BIT page = page div PAGE_SIZE"

definition PHYS_TO_HIGHER_HALF_DATA :: "u64 \<Rightarrow> u64" where
  "PHYS_TO_HIGHER_HALF_DATA address = address + HIGHER_HALF_DATA"
definition PHYS_TO_HIGHER_HALF_CODE :: "u64 \<Rightarrow> u64" where
  "PHYS_TO_HIGHER_HALF_CODE address = address + HIGHER_HALF_CODE"
definition HIGHER_HALF_DATA_TO_PHYS :: "u64 \<Rightarrow> u64" where
  "HIGHER_HALF_DATA_TO_PHYS address = address - HIGHER_HALF_DATA"
definition HIGHER_HALF_CODE_TO_PHYS :: "u64 \<Rightarrow> u64" where
  "HIGHER_HALF_CODE_TO_PHYS address = address - HIGHER_HALF_CODE"

section \<open>Alignment\<close>

lemma word_and_not_mask:
  fixes x :: "'a::len word"
  shows "x AND NOT (mask n) = push_bit n (drop_bit n x)"
  by (rule bit_word_eqI) (auto simp: bit_simps)

lemma unat_and_not_mask:
  fixes x :: "'a::len word"
  assumes "n < LENGTH('a)"
  shows "unat (x AND NOT (mask n)) = unat x div 2 ^ n * 2 ^ n"
proof -
  have "unat (push_bit n (drop_bit n x)) = take_bit LENGTH('a) (push_bit n (drop_bit n (unat x)))"
    by (simp add: unsigned_push_bit_eq unsigned_drop_bit_eq take_bit_nat_eq_self)
  also have "\<dots> = unat x div 2 ^ n * 2 ^ n mod 2 ^ LENGTH('a)"
    by (simp only: take_bit_eq_mod push_bit_eq_mult drop_bit_eq_div)
  also have "\<dots> = unat x div 2 ^ n * 2 ^ n"
    using unsigned_less [of x, where ?'a = nat] div_times_less_eq_dividend [of "unat x" "2 ^ n"]
    by (intro mod_less) linarith
  finally show ?thesis by (simp add: word_and_not_mask)
qed

lemma mask_4095: "(4095 :: u64) = mask 12"
  by (simp add: mask_eq_exp_minus_1)

lemma unat_ALIGN_DOWN [page_simps]: "unat (ALIGN_DOWN x PAGE_SIZE) = unat x div 4096 * 4096"
  using unat_and_not_mask [of 12 x] by (simp add: ALIGN_DOWN_def mask_4095)

lemma unat_ALIGN_UP [page_simps]:
  assumes "unat x + 4095 < 2 ^ 64"
  shows "unat (ALIGN_UP x PAGE_SIZE) = (unat x + 4095) div 4096 * 4096"
proof -
  have "unat (x + 4095) = unat x + 4095"
    using assms by (simp add: unat_word_ariths)
  moreover have "x + PAGE_SIZE - 1 = x + 4095" by simp
  ultimately show ?thesis
    using unat_and_not_mask [of 12 "x + 4095"] by (simp add: ALIGN_UP_def mask_4095 add.commute)
qed

text \<open>Rounding up past the end of the address space gives 0.\<close>

lemma ALIGN_UP_wraps:
  assumes "2 ^ 64 \<le> unat x + 4095"
  shows "ALIGN_UP x PAGE_SIZE = 0"
proof -
  have "unat (x + 4095) = unat x + 4095 - 2 ^ 64"
    using assms unat_u64_less [of x] by (simp add: unat_word_ariths mod_if)
  then have "unat (x + 4095) < 4096" using unat_u64_less [of x] by simp
  then have "unat ((x + 4095) AND NOT (mask 12)) = 0"
    by (simp add: unat_and_not_mask)
  moreover have "x + PAGE_SIZE - 1 = x + 4095" by simp
  ultimately have "unat (ALIGN_UP x PAGE_SIZE) = 0"
    by (simp add: ALIGN_UP_def mask_4095 add.commute)
  then show ?thesis by (simp only: unat_eq_zero)
qed

end
