(* ===== verification/Kernel_Memory.thy ===== *)
theory Kernel_Memory
  imports Kernel_Prelude
begin

text \<open>
  Physical memory as the kernel sees it: a byte at every 64-bit address, with the
  little-endian multi-byte accesses the compiler emits for the fields of the C structures.
  Address arithmetic wraps at \<open>2^64\<close> as it does on the machine.
\<close>

type_synonym memory = "u64 \<Rightarrow> u8"

section \<open>Word arithmetic on addresses\<close>

lemma unat_add_no_wrap:
  fixes a b :: "'a::len word"
  shows "unat a + unat b < 2 ^ LENGTH('a) \<Longrightarrow> unat (a + b) = unat a + unat b"
  by (simp add: unat_word_ariths)

lemma unat_add_of_nat:
  fixes a :: "'a::len word"
  assumes "unat a + n < 2 ^ LENGTH('a)"
  shows "unat (a + of_nat n) = unat a + n"
proof -
  from assms have "unat (of_nat n :: 'a word) = n"
    by (simp add: unat_of_nat)
  with assms show ?thesis by (simp add: unat_word_ariths)
qed

lemma unat_diff_le:
  fixes a b :: "'a::len word"
  shows "a \<le> b \<Longrightarrow> unat (b - a) = unat b - unat a"
  by (simp add: unat_sub word_le_nat_alt)

lemma unat_diff_wrap:
  fixes a b :: "'a::len word"
  assumes "b < a"
  shows "unat (b - a) = 2 ^ LENGTH('a) - (unat a - unat b)"
  using assms unsigned_less [of b] unsigned_less [of a]
  by (simp add: unat_sub_if_size word_size word_less_nat_alt)

lemma unat_add_diff_cancel [simp]: "unat ((a + x) - a) = unat (x :: u64)"
  by simp

section \<open>Loads and stores\<close>

text \<open>
  \<open>store_word k m a w\<close> writes the \<open>k\<close> low bytes of \<open>w\<close> at \<open>a\<close>, least significant first;
  \<open>load_word k m a\<close> reads \<open>k\<close> bytes back. Structure fields are accessed with \<open>k\<close> the size of
  the field.
\<close>

definition store_word :: "nat \<Rightarrow> memory \<Rightarrow> u64 \<Rightarrow> 'a::len word \<Rightarrow> memory" where
  "store_word k m a w =
     (\<lambda>x. if unat (x - a) < k then ucast (drop_bit (8 * unat (x - a)) w) else m x)"

primrec load_word :: "nat \<Rightarrow> memory \<Rightarrow> u64 \<Rightarrow> 'a::len word" where
  "load_word 0 m a = 0"
| "load_word (Suc k) m a = load_word k m a OR push_bit (8 * k) (ucast (m (a + of_nat k)))"

definition load64 :: "memory \<Rightarrow> u64 \<Rightarrow> u64" where "load64 = load_word 8"
definition store64 :: "memory \<Rightarrow> u64 \<Rightarrow> u64 \<Rightarrow> memory" where "store64 = store_word 8"
definition load32 :: "memory \<Rightarrow> u64 \<Rightarrow> u32" where "load32 = load_word 4"
definition store32 :: "memory \<Rightarrow> u64 \<Rightarrow> u32 \<Rightarrow> memory" where "store32 = store_word 4"
definition load16 :: "memory \<Rightarrow> u64 \<Rightarrow> u16" where "load16 = load_word 2"
definition store16 :: "memory \<Rightarrow> u64 \<Rightarrow> u16 \<Rightarrow> memory" where "store16 = store_word 2"

lemmas access_defs = load64_def store64_def load32_def store32_def load16_def store16_def

lemma bit_load_word:
  "bit (load_word k m a :: 'a::len word) n \<longleftrightarrow>
     n < 8 * k \<and> n < LENGTH('a) \<and> bit (m (a + of_nat (n div 8))) (n mod 8)"
proof (induction k)
  case 0
  then show ?case by simp
next
  case (Suc k)
  consider "n < 8 * k" | "8 * k \<le> n" "n < 8 * Suc k" | "8 * Suc k \<le> n"
    by linarith
  then show ?case
  proof cases
    case 1
    with Suc.IH show ?thesis by (simp add: bit_simps)
  next
    case 2
    then have "n div 8 = k" by (auto intro: div_nat_eqI)
    moreover from this have "n mod 8 = n - 8 * k"
      by (metis minus_mult_div_eq_mod)
    ultimately show ?thesis
      using 2 Suc.IH by (auto simp: bit_simps)
  next
    case 3
    then have "\<not> bit (m (a + of_nat k)) (n - 8 * k)"
      using bit_imp_le_length [of "m (a + of_nat k)" "n - 8 * k"] by auto
    with 3 Suc.IH show ?thesis by (auto simp: bit_simps)
  qed
qed

lemma load_word_cong:
  "(\<And>i. i < k \<Longrightarrow> m (a + of_nat i) = m' (a + of_nat i)) \<Longrightarrow> load_word k m a = load_word k m' a"
  by (induction k) auto

lemma load_store_same [mem_simps]:
  assumes "LENGTH('a) = 8 * k" "k \<le> 8"
  shows "load_word k (store_word k m a w) a = (w :: 'a::len word)"
proof (rule bit_word_eqI)
  fix n assume n: "n < LENGTH('a)"
  then have k: "n div 8 < k" using assms by auto
  then have "unat (of_nat (n div 8) :: u64) = n div 8"
    using assms(2) by (simp add: unat_of_nat)
  then have "bit (store_word k m a w (a + of_nat (n div 8))) (n mod 8) \<longleftrightarrow> bit w n"
    using k by (simp add: store_word_def bit_simps)
  then show "bit (load_word k (store_word k m a w) a :: 'a word) n = bit w n"
    using n assms by (simp add: bit_load_word)
qed

text \<open>Two byte ranges that do not meet; both lie inside the address space without wrapping.\<close>

definition separate :: "u64 \<Rightarrow> nat \<Rightarrow> u64 \<Rightarrow> nat \<Rightarrow> bool" where
  "separate a j b k \<longleftrightarrow>
     (unat a + j \<le> unat b \<and> unat b + k \<le> 2 ^ 64) \<or> (unat b + k \<le> unat a \<and> unat a + j \<le> 2 ^ 64)"

lemma separate_sym: "separate a j b k = separate b k a j"
  by (auto simp: separate_def)

lemma separate_byte:
  assumes "separate a j b k" "i < j"
  shows "k \<le> unat (a + of_nat i - b)"
proof -
  have nowrap: "unat (a + of_nat i) = unat a + i"
    using assms unat_u64_less [of b] by (intro unat_add_of_nat) (auto simp: separate_def)
  show ?thesis
  proof (cases "unat b + k \<le> unat a")
    case True
    then have "b \<le> a + of_nat i" by (simp add: word_le_nat_alt nowrap)
    then show ?thesis using True by (simp add: unat_diff_le nowrap)
  next
    case False
    with assms have 1: "unat a + j \<le> unat b" "unat b + k \<le> 2 ^ 64"
      by (auto simp: separate_def)
    then have "a + of_nat i < b"
      using assms(2) by (simp add: word_less_nat_alt nowrap)
    then have "unat (a + of_nat i - b) = 2 ^ 64 - (unat b - (unat a + i))"
      by (simp add: unat_diff_wrap nowrap)
    with 1 assms(2) show ?thesis by simp
  qed
qed

lemma load_store_separate [mem_simps]:
  assumes "separate a j b k"
  shows "load_word j (store_word k m b w) a = load_word j m a"
proof (rule load_word_cong)
  fix i assume "i < j"
  with assms have "k \<le> unat (a + of_nat i - b)" by (rule separate_byte)
  then show "store_word k m b w (a + of_nat i) = m (a + of_nat i)"
    by (simp add: store_word_def)
qed

lemma load64_store64 [simp, mem_simps]: "load64 (store64 m a w) a = w"
  by (simp add: access_defs load_store_same)

lemma load32_store32 [simp, mem_simps]: "load32 (store32 m a w) a = w"
  by (simp add: access_defs load_store_same)

lemma load16_store16 [simp, mem_simps]: "load16 (store16 m a w) a = w"
  by (simp add: access_defs load_store_same)

lemma load64_store64_separate [mem_simps]:
  "separate a 8 b 8 \<Longrightarrow> load64 (store64 m b w) a = load64 m a"
  by (simp add: access_defs load_store_separate)

lemma load64_store16_separate [mem_simps]:
  "separate a 8 b 2 \<Longrightarrow> load64 (store16 m b w) a = load64 m a"
  by (simp add: access_defs load_store_separate)

lemma load16_store64_separate [mem_simps]:
  "separate a 2 b 8 \<Longrightarrow> load16 (store64 m b w) a = load16 m a"
  by (simp add: access_defs load_store_separate)

lemma load16_store16_separate [mem_simps]:
  "separate a 2 b 2 \<Longrightarrow> load16 (store16 m b w) a = load16 m a"
  by (simp add: access_defs load_store_separate)

end
