(* ===== verification/Kernel_String.thy ===== *)
theory Kernel_String
  imports Kernel_Memory
begin

text \<open>
  \<open>libk/string/string.c\<close>: the byte loops \<open>memset\<close>, \<open>memcpy\<close> and \<open>memcmp\<close>, with the closed
  forms the other components reason with.
\<close>

definition memset :: "memory \<Rightarrow> u64 \<Rightarrow> u32 \<Rightarrow> u64 \<Rightarrow> memory" where
  "memset m pointer value sz =
     fold (\<lambda>i m. m(pointer + of_nat i := ucast value)) [0..<unat sz] m"

definition memcpy :: "memory \<Rightarrow> u64 \<Rightarrow> u64 \<Rightarrow> u64 \<Rightarrow> memory" where
  "memcpy m dest src n =
     fold (\<lambda>i m. m(dest + of_nat i := m (src + of_nat i))) [0..<unat n] m"

text \<open>
  \<open>memcmp\<close> reads its two operands only; each comes with the object it points into, so that
  a string literal and a table in physical memory can be compared.
\<close>

primrec memcmp_loop :: "memory \<Rightarrow> u64 \<Rightarrow> memory \<Rightarrow> u64 \<Rightarrow> nat \<Rightarrow> int" where
  "memcmp_loop m1 ptr1 m2 ptr2 0 = 0"
| "memcmp_loop m1 ptr1 m2 ptr2 (Suc n) =
     (if m1 ptr1 \<noteq> m2 ptr2 then uint (m1 ptr1) - uint (m2 ptr2)
      else memcmp_loop m1 (ptr1 + 1) m2 (ptr2 + 1) n)"

definition memcmp :: "memory \<Rightarrow> u64 \<Rightarrow> memory \<Rightarrow> u64 \<Rightarrow> u64 \<Rightarrow> int" where
  "memcmp m1 pointer1 m2 pointer2 n = memcmp_loop m1 pointer1 m2 pointer2 (unat n)"

section \<open>memset\<close>

lemma word_diff_eq_of_nat:
  fixes x p :: u64
  assumes "n < 2 ^ 64"
  shows "x = p + of_nat n \<longleftrightarrow> unat (x - p) = n"
proof
  assume "x = p + of_nat n"
  with assms show "unat (x - p) = n" by (simp add: unat_of_nat)
next
  assume "unat (x - p) = n"
  then have "of_nat n = x - p" by (auto simp del: unat_sub_if_size)
  then show "x = p + of_nat n" by simp
qed

lemma fold_store_closed:
  fixes p :: u64
  assumes "n \<le> 2 ^ 64"
  shows "fold (\<lambda>i m. m(p + of_nat i := v)) [0..<n] m = (\<lambda>x. if unat (x - p) < n then v else m x)"
  using assms
proof (induction n)
  case 0
  then show ?case by simp
next
  case (Suc n)
  then have "x = p + of_nat n \<longleftrightarrow> unat (x - p) = n" for x
    using word_diff_eq_of_nat [of n x p] by simp
  with Suc show ?case by (auto simp: fun_eq_iff less_Suc_eq)
qed

lemma memset_closed:
  "memset m p v n = (\<lambda>x. if unat (x - p) < unat n then ucast v else m x)"
proof -
  have "unat n \<le> 2 ^ 64" using unat_u64_less [of n] by simp
  then show ?thesis unfolding memset_def by (rule fold_store_closed)
qed

lemma memset_outside [mem_simps]:
  assumes "separate a k p (unat n)"
  shows "load_word k (memset m p v n) a = load_word k m a"
proof (rule load_word_cong)
  fix i assume "i < k"
  with assms have "unat n \<le> unat (a + of_nat i - p)" by (rule separate_byte)
  then show "memset m p v n (a + of_nat i) = m (a + of_nat i)"
    by (simp add: memset_closed)
qed

text \<open>Zeroed memory reads as zero.\<close>

lemma load_word_zero: "(\<And>i. i < k \<Longrightarrow> m (a + of_nat i) = 0) \<Longrightarrow> load_word k m a = 0"
  by (induction k) auto

lemma memset_inside_zero [mem_simps]:
  assumes "unat (a - p) + k \<le> unat n"
  shows "load_word k (memset m p 0 n) a = 0"
proof (rule load_word_zero)
  fix i assume "i < k"
  have "a + of_nat i - p = (a - p) + of_nat i" by simp
  moreover have "unat ((a - p) + of_nat i) = unat (a - p) + i"
    using assms \<open>i < k\<close> unat_u64_less [of n] by (intro unat_add_of_nat) auto
  ultimately have "unat (a + of_nat i - p) < unat n"
    using assms \<open>i < k\<close> by (simp only:)
  then show "memset m p 0 n (a + of_nat i) = 0"
    by (simp add: memset_closed)
qed

section \<open>memcpy\<close>

lemma memcpy_closed:
  assumes "separate dest (unat n) src (unat n)"
  shows "memcpy m dest src n = (\<lambda>x. if unat (x - dest) < unat n then m (src + (x - dest)) else m x)"
proof -
  have "fold (\<lambda>i m. m(dest + of_nat i := m (src + of_nat i))) [0..<k] m
        = (\<lambda>x. if unat (x - dest) < k then m (src + (x - dest)) else m x)" if "k \<le> unat n" for k
    using that
  proof (induction k)
    case 0
    then show ?case by simp
  next
    case (Suc k)
    have far: "k \<le> unat (src + of_nat k - dest)"
      using separate_byte [of src "unat n" dest "unat n" k] assms Suc.prems
      by (simp add: separate_sym)
    have lt: "k < 2 ^ 64" using Suc.prems unat_u64_less [of n] by simp
    have "x = dest + of_nat k \<longleftrightarrow> unat (x - dest) = k" for x
      using lt by (rule word_diff_eq_of_nat)
    with Suc far show ?case by (auto simp: fun_eq_iff less_Suc_eq)
  qed
  then show ?thesis by (simp add: memcpy_def)
qed

lemma memcpy_outside:
  assumes "unat n \<le> unat (x - dest)"
  shows "memcpy m dest src n x = m x"
proof -
  have "fold (\<lambda>i m. m(dest + of_nat i := m (src + of_nat i))) [0..<k] m x = m x" if "k \<le> unat n" for k
    using that
  proof (induction k)
    case (Suc k)
    then have "k < 2 ^ 64" using unat_u64_less [of n] by simp
    then have "x \<noteq> dest + of_nat k"
      using assms Suc.prems by (subst word_diff_eq_of_nat) auto
    with Suc show ?case by simp
  qed simp
  then show ?thesis by (simp add: memcpy_def)
qed

section \<open>memcmp\<close>

lemma memcmp_loop_zero_iff:
  "memcmp_loop m1 p1 m2 p2 n = 0 \<longleftrightarrow> (\<forall>i<n. m1 (p1 + of_nat i) = m2 (p2 + of_nat i))"
proof (induction n arbitrary: p1 p2)
  case 0
  then show ?case by simp
next
  case (Suc n)
  have split: "(\<forall>i<Suc n. P i) \<longleftrightarrow> P 0 \<and> (\<forall>i<n. P (Suc i))" for P
    using less_Suc_eq_0_disj by auto
  show ?case
    by (subst split) (auto simp add: Suc.IH add.assoc word_uint_eq_iff)
qed

lemma memcmp_loop_first_difference:
  assumes "i < n" and "\<And>j. j < i \<Longrightarrow> m1 (p1 + of_nat j) = m2 (p2 + of_nat j)"
    and "m1 (p1 + of_nat i) \<noteq> m2 (p2 + of_nat i)"
  shows "memcmp_loop m1 p1 m2 p2 n = uint (m1 (p1 + of_nat i)) - uint (m2 (p2 + of_nat i))"
  using assms
proof (induction n arbitrary: p1 p2 i)
  case 0
  then show ?case by simp
next
  case (Suc n)
  show ?case
  proof (cases i)
    case 0
    with Suc.prems show ?thesis by simp
  next
    case (Suc k)
    have eq: "m1 p1 = m2 p2" using Suc.prems(2) [of 0] Suc by simp
    have "memcmp_loop m1 (p1 + 1) m2 (p2 + 1) n =
        uint (m1 (p1 + 1 + of_nat k)) - uint (m2 (p2 + 1 + of_nat k))"
    proof (rule Suc.IH)
      show "k < n" using Suc.prems(1) Suc by simp
      show "m1 (p1 + 1 + of_nat j) = m2 (p2 + 1 + of_nat j)" if "j < k" for j
        using Suc.prems(2) [of "Suc j"] that Suc by (simp add: add.assoc)
      show "m1 (p1 + 1 + of_nat k) \<noteq> m2 (p2 + 1 + of_nat k)"
        using Suc.prems(3) Suc by (simp add: add.assoc)
    qed
    with eq Suc show ?thesis by (simp add: add.assoc)
  qed
qed

text \<open>The bytes of a region as a list.\<close>

definition bytes_at :: "memory \<Rightarrow> u64 \<Rightarrow> nat \<Rightarrow> u8 list" where
  "bytes_at m p n = map (\<lambda>i. m (p + of_nat i)) [0..<n]"

lemma bytes_at_0 [simp]: "bytes_at m p 0 = []"
  by (simp add: bytes_at_def)

lemma bytes_at_Suc [simp]: "bytes_at m p (Suc n) = m p # bytes_at m (p + 1) n"
  by (simp add: bytes_at_def upt_conv_Cons map_Suc_upt [symmetric] add.assoc del: upt_Suc)

lemma memcmp_loop_lexord:
  "memcmp_loop m1 p1 m2 p2 n < 0 \<longleftrightarrow> (bytes_at m1 p1 n, bytes_at m2 p2 n) \<in> lexord {(x, y). x < y}"
  "memcmp_loop m1 p1 m2 p2 n = 0 \<longleftrightarrow> bytes_at m1 p1 n = bytes_at m2 p2 n"
  by (induction n arbitrary: p1 p2) (auto simp: word_less_def word_uint_eq_iff)

text \<open>C40. \<open>memcmp\<close> is the lexicographic order of byte lists: zero exactly when the two regions have the same
  bytes, negative exactly when the first list is below the second.\<close>

theorem memcmp_lexicographic:
  "(memcmp m1 pointer1 m2 pointer2 n = 0 \<longleftrightarrow> bytes_at m1 pointer1 (unat n) = bytes_at m2 pointer2 (unat n))
   \<and> (memcmp m1 pointer1 m2 pointer2 n < 0 \<longleftrightarrow>
        (bytes_at m1 pointer1 (unat n), bytes_at m2 pointer2 (unat n)) \<in> lexord {(x, y). x < y})"
  unfolding memcmp_def by (intro conjI memcmp_loop_lexord)

end
