(* ===== verification/Bitmap.thy ===== *)
theory Bitmap
  imports Kernel_Prelude
begin

text \<open>
  \<open>libk/data_structs/bitmap.c\<close>: an array of bytes read and written bit by bit. The \<open>map\<close>
  pointer is modelled by the bytes it points to (\<open>bm_map\<close>); an access outside them is an
  error. The \<open>int\<close> argument of the operations is an \<open>int\<close>, so that the conversion its
  callers make from \<open>size_t\<close> stays visible.
\<close>

record bitmap_t =
  bm_map :: "u8 list"
  bm_size :: u64

text \<open>The conversion from \<open>size_t\<close> to \<open>int\<close> at a call: the low 32 bits, read as signed.\<close>

definition c_int :: "u64 \<Rightarrow> int" where
  "c_int x = sint (ucast x :: u32)"

definition bitmap_set_bit :: "bitmap_t \<Rightarrow> int \<Rightarrow> bitmap_t result" where
  "bitmap_set_bit bitmap b =
     (if b < 0 \<or> int (length (bm_map bitmap)) \<le> b div 8 then Inl Out_Of_Bounds
      else let i = nat (b div 8) in
        Inr (bitmap\<lparr>bm_map := (bm_map bitmap)[i := (bm_map bitmap ! i) OR push_bit (nat (b mod 8)) 1]\<rparr>))"

definition bitmap_unset_bit :: "bitmap_t \<Rightarrow> int \<Rightarrow> bitmap_t result" where
  "bitmap_unset_bit bitmap b =
     (if b < 0 \<or> int (length (bm_map bitmap)) \<le> b div 8 then Inl Out_Of_Bounds
      else let i = nat (b div 8) in
        Inr (bitmap\<lparr>bm_map := (bm_map bitmap)[i := (bm_map bitmap ! i) AND NOT (push_bit (nat (b mod 8)) 1)]\<rparr>))"

definition bitmap_check_bit :: "bitmap_t \<Rightarrow> int \<Rightarrow> u8 result" where
  "bitmap_check_bit bitmap b =
     (if b < 0 \<or> int (length (bm_map bitmap)) \<le> b div 8 then Inl Out_Of_Bounds
      else Inr ((bm_map bitmap ! nat (b div 8)) AND push_bit (nat (b mod 8)) 1))"

section \<open>The contract of a bit store\<close>

text \<open>
  What a client of the bitmap relies on: a fixed capacity, a set of one-bits, and the three
  operations as insertion, removal and membership on that set. Every access outside the
  capacity is reported.
\<close>

locale bit_store =
  fixes cap :: "'b \<Rightarrow> nat"
    and ones :: "'b \<Rightarrow> nat set"
    and setb :: "'b \<Rightarrow> int \<Rightarrow> 'b result"
    and unsetb :: "'b \<Rightarrow> int \<Rightarrow> 'b result"
    and checkb :: "'b \<Rightarrow> int \<Rightarrow> u8 result"
  assumes set_spec: "i < cap b \<Longrightarrow> \<exists>b'. setb b (int i) = Inr b' \<and> cap b' = cap b \<and> ones b' = insert i (ones b)"
    and unset_spec: "i < cap b \<Longrightarrow> \<exists>b'. unsetb b (int i) = Inr b' \<and> cap b' = cap b \<and> ones b' = ones b - {i}"
    and check_spec: "i < cap b \<Longrightarrow> \<exists>v. checkb b (int i) = Inr v \<and> (v \<noteq> 0 \<longleftrightarrow> i \<in> ones b)"
    and set_oob: "z < 0 \<or> int (cap b) \<le> z \<Longrightarrow> setb b z = Inl Out_Of_Bounds"
    and unset_oob: "z < 0 \<or> int (cap b) \<le> z \<Longrightarrow> unsetb b z = Inl Out_Of_Bounds"
    and check_oob: "z < 0 \<or> int (cap b) \<le> z \<Longrightarrow> checkb b z = Inl Out_Of_Bounds"
begin

lemma set_loop:
  assumes "\<And>k. k < n \<Longrightarrow> f k = int (lo + k)" and "lo + n \<le> cap b"
  shows "\<exists>b'. rfold (\<lambda>k b. setb b (f k)) [0..<n] b = Inr b' \<and> cap b' = cap b
              \<and> ones b' = ones b \<union> {lo..<lo + n}"
  using assms
proof (induction n)
  case 0
  then show ?case by simp
next
  case (Suc n)
  then obtain c where c: "rfold (\<lambda>k b. setb b (f k)) [0..<n] b = Inr c"
      "cap c = cap b" "ones c = ones b \<union> {lo..<lo + n}"
    by auto
  have "lo + n < cap c" using Suc.prems c by simp
  from set_spec [OF this] obtain d where "setb c (int (lo + n)) = Inr d"
      "cap d = cap c" "ones d = insert (lo + n) (ones c)"
    by auto
  with c Suc.prems(1) [of n] show ?case
    by (simp add: rfold_append atLeastLessThanSuc)
qed

lemma unset_loop:
  assumes "\<And>k. k < n \<Longrightarrow> f k = int (lo + k)" and "lo + n \<le> cap b"
  shows "\<exists>b'. rfold (\<lambda>k b. unsetb b (f k)) [0..<n] b = Inr b' \<and> cap b' = cap b
              \<and> ones b' = ones b - {lo..<lo + n}"
  using assms
proof (induction n)
  case 0
  then show ?case by simp
next
  case (Suc n)
  then obtain c where c: "rfold (\<lambda>k b. unsetb b (f k)) [0..<n] b = Inr c"
      "cap c = cap b" "ones c = ones b - {lo..<lo + n}"
    by auto
  have "lo + n < cap c" using Suc.prems c by simp
  from unset_spec [OF this] obtain d where "unsetb c (int (lo + n)) = Inr d"
      "cap d = cap c" "ones d = ones c - {lo + n}"
    by auto
  moreover have "ones b - {lo..<lo + Suc n} = ones b - {lo..<lo + n} - {lo + n}"
    by auto
  ultimately show ?case
    using c Suc.prems(1) [of n] by (simp add: rfold_append)
qed

lemma set_loop_oob:
  assumes "\<And>k. lo + k < cap b \<Longrightarrow> f k = int (lo + k)" and "lo \<le> cap b" "cap b < lo + n"
    and out: "f (cap b - lo) < 0 \<or> int (cap b) \<le> f (cap b - lo)"
  shows "rfold (\<lambda>k b. setb b (f k)) [0..<n] b = Inl Out_Of_Bounds"
proof -
  define k where "k = cap b - lo"
  have "k < n" using assms by (simp add: k_def)
  then have split: "[0..<n] = [0..<k] @ k # [Suc k..<n]"
    using upt_add_eq_append [of 0 k "n - k"] by (simp add: upt_conv_Cons)
  have "\<exists>b'. rfold (\<lambda>k b. setb b (f k)) [0..<k] b = Inr b' \<and> cap b' = cap b
              \<and> ones b' = ones b \<union> {lo..<lo + k}"
    using assms by (intro set_loop) (auto simp: k_def)
  then obtain b' where b': "rfold (\<lambda>k b. setb b (f k)) [0..<k] b = Inr b'" "cap b' = cap b"
    by blast
  have "setb b' (f k) = Inl Out_Of_Bounds"
    using out b'(2) by (intro set_oob) (simp add: k_def)
  then show ?thesis by (simp add: split rfold_append b')
qed

lemma check_cases:
  obtains (in_range) i v where "z = int i" "i < cap b" "checkb b z = Inr v" "v \<noteq> 0 \<longleftrightarrow> i \<in> ones b"
  | (out) "checkb b z = Inl Out_Of_Bounds"
proof (cases "z < 0 \<or> int (cap b) \<le> z")
  case True
  then show ?thesis by (intro out check_oob)
next
  case False
  then obtain i where i: "z = int i" "i < cap b"
    by (metis int_nat_eq linorder_not_less nat_less_iff)
  from check_spec [OF i(2)] obtain v where "checkb b (int i) = Inr v" "v \<noteq> 0 \<longleftrightarrow> i \<in> ones b"
    by blast
  with i show ?thesis by (intro in_range) simp_all
qed

end

section \<open>The bitmap is a bit store\<close>

definition bitmap_cap :: "bitmap_t \<Rightarrow> nat" where
  "bitmap_cap bitmap = 8 * length (bm_map bitmap)"

definition bitmap_ones :: "bitmap_t \<Rightarrow> nat set" where
  "bitmap_ones bitmap = {i. i < bitmap_cap bitmap \<and> bit (bm_map bitmap ! (i div 8)) (i mod 8)}"

lemma bitmap_index:
  assumes "i < bitmap_cap b"
  shows "i div 8 < length (bm_map b)"
  using assms by (simp add: bitmap_cap_def less_mult_imp_div_less mult.commute)

lemma bitmap_set_ones:
  assumes "i < bitmap_cap b"
  shows "\<exists>b'. bitmap_set_bit b (int i) = Inr b' \<and> bitmap_cap b' = bitmap_cap b
           \<and> bitmap_ones b' = insert i (bitmap_ones b)"
proof -
  let ?m = "(bm_map b)[i div 8 := (bm_map b ! (i div 8)) OR push_bit (i mod 8) 1]"
  have len: "i div 8 < length (bm_map b)" by (rule bitmap_index [OF assms])
  have "bit (?m ! (j div 8)) (j mod 8) \<longleftrightarrow> j = i \<or> bit (bm_map b ! (j div 8)) (j mod 8)"
    if "j < bitmap_cap b" for j
  proof (cases "j div 8 = i div 8")
    case True
    then have "j mod 8 = i mod 8 \<longleftrightarrow> j = i" by (metis div_mult_mod_eq)
    with True len show ?thesis by (auto simp: bit_simps)
  next
    case False
    then have "j \<noteq> i" by auto
    with False show ?thesis by simp
  qed
  then have "bitmap_ones (b\<lparr>bm_map := ?m\<rparr>) = insert i (bitmap_ones b)"
    using assms by (auto simp: bitmap_ones_def bitmap_cap_def)
  then show ?thesis
    using len by (simp add: bitmap_set_bit_def Let_def bitmap_cap_def nat_div_distrib nat_mod_distrib
        not_le flip: zdiv_int)
qed

lemma bitmap_unset_ones:
  assumes "i < bitmap_cap b"
  shows "\<exists>b'. bitmap_unset_bit b (int i) = Inr b' \<and> bitmap_cap b' = bitmap_cap b
           \<and> bitmap_ones b' = bitmap_ones b - {i}"
proof -
  let ?m = "(bm_map b)[i div 8 := (bm_map b ! (i div 8)) AND NOT (push_bit (i mod 8) 1)]"
  have len: "i div 8 < length (bm_map b)" by (rule bitmap_index [OF assms])
  have "bit (?m ! (j div 8)) (j mod 8) \<longleftrightarrow> j \<noteq> i \<and> bit (bm_map b ! (j div 8)) (j mod 8)"
    if "j < bitmap_cap b" for j
  proof (cases "j div 8 = i div 8")
    case True
    then have "j mod 8 = i mod 8 \<longleftrightarrow> j = i" by (metis div_mult_mod_eq)
    with True len show ?thesis by (auto simp: bit_simps)
  next
    case False
    then have "j \<noteq> i" by auto
    with False show ?thesis by simp
  qed
  then have "bitmap_ones (b\<lparr>bm_map := ?m\<rparr>) = bitmap_ones b - {i}"
    using assms by (auto simp: bitmap_ones_def bitmap_cap_def)
  then show ?thesis
    using len by (simp add: bitmap_unset_bit_def Let_def bitmap_cap_def nat_div_distrib nat_mod_distrib
        not_le flip: zdiv_int)
qed

lemma bitmap_check_ones:
  assumes "i < bitmap_cap b"
  shows "\<exists>v. bitmap_check_bit b (int i) = Inr v \<and> (v \<noteq> 0 \<longleftrightarrow> i \<in> bitmap_ones b)"
proof -
  have len: "i div 8 < length (bm_map b)" by (rule bitmap_index [OF assms])
  have "w AND push_bit (i mod 8) 1 \<noteq> 0 \<longleftrightarrow> bit w (i mod 8)" for w :: u8
    by (simp add: and_exp_eq_0_iff_not_bit)
  then show ?thesis
    using len assms by (simp add: bitmap_check_bit_def bitmap_ones_def nat_div_distrib nat_mod_distrib
        not_le flip: zdiv_int)
qed

interpretation bm: bit_store bitmap_cap bitmap_ones bitmap_set_bit bitmap_unset_bit bitmap_check_bit
proof unfold_locales
  have "b < 0 \<or> int (length (bm_map m)) \<le> b div 8" if "b < 0 \<or> int (bitmap_cap m) \<le> b" for m b
    using that by (auto simp: bitmap_cap_def)
  then show "z < 0 \<or> int (bitmap_cap b) \<le> z \<Longrightarrow> bitmap_set_bit b z = Inl Out_Of_Bounds"
    and "z < 0 \<or> int (bitmap_cap b) \<le> z \<Longrightarrow> bitmap_unset_bit b z = Inl Out_Of_Bounds"
    and "z < 0 \<or> int (bitmap_cap b) \<le> z \<Longrightarrow> bitmap_check_bit b z = Inl Out_Of_Bounds" for z b
    by (simp_all add: bitmap_set_bit_def bitmap_unset_bit_def bitmap_check_bit_def)
qed (fact bitmap_set_ones bitmap_unset_ones bitmap_check_ones)+

lemma c_int_small: "unat x < 2 ^ 31 \<Longrightarrow> c_int x = int (unat x)"
proof -
  assume "unat x < 2 ^ 31"
  then have "int (unat x) < 2 ^ 31" by (simp flip: of_nat_less_iff [where 'a = int])
  then have x: "uint x < 2 ^ 31" by (simp only: uint_nat)
  have "c_int x = signed_take_bit 31 (uint x)"
    by (simp add: c_int_def sint_uint unsigned_ucast_eq signed_take_bit_take_bit)
  also have "\<dots> = uint x"
    using x by (intro signed_take_bit_int_eq_self) (auto intro: order_trans [of _ 0])
  finally show ?thesis by simp
qed

end
