(* ===== verification/PMM.thy ===== *)
theory PMM
  imports Kernel_String Bitmap
begin

text \<open>
  \<open>memory/physical/pmm.c\<close>: the bitmap page-frame allocator. The globals of the file are the
  fields of \<open>pmm_state\<close> (physical memory is among them because \<open>pmm_allocz\<close> writes it); the
  bitmap is an object of its own, hosted at \<open>pmm_bitmap_addr\<close>. A set bit means a used page.
\<close>

section \<open>The stivale2 memory map\<close>

record stivale2_mmap_entry =
  mmap_base :: u64
  mmap_length :: u64
  mmap_type :: u32

abbreviation STIVALE2_MMAP_USABLE :: u32 where "STIVALE2_MMAP_USABLE \<equiv> 1"
abbreviation STIVALE2_MMAP_RESERVED :: u32 where "STIVALE2_MMAP_RESERVED \<equiv> 2"
abbreviation STIVALE2_MMAP_ACPI_RECLAIMABLE :: u32 where "STIVALE2_MMAP_ACPI_RECLAIMABLE \<equiv> 3"
abbreviation STIVALE2_MMAP_ACPI_NVS :: u32 where "STIVALE2_MMAP_ACPI_NVS \<equiv> 4"
abbreviation STIVALE2_MMAP_BAD_MEMORY :: u32 where "STIVALE2_MMAP_BAD_MEMORY \<equiv> 5"
abbreviation STIVALE2_MMAP_BOOTLOADER_RECLAIMABLE :: u32 where "STIVALE2_MMAP_BOOTLOADER_RECLAIMABLE \<equiv> 0x1000"
abbreviation STIVALE2_MMAP_KERNEL_AND_MODULES :: u32 where "STIVALE2_MMAP_KERNEL_AND_MODULES \<equiv> 0x1001"
abbreviation STIVALE2_MMAP_FRAMEBUFFER :: u32 where "STIVALE2_MMAP_FRAMEBUFFER \<equiv> 0x1002"

definition get_memmap_entry_type_string :: "u32 \<Rightarrow> string" where
  "get_memmap_entry_type_string type =
     (if type = STIVALE2_MMAP_USABLE then ''Usable''
      else if type = STIVALE2_MMAP_RESERVED then ''Reserved''
      else if type = STIVALE2_MMAP_ACPI_RECLAIMABLE then ''ACPI Reclaimable''
      else if type = STIVALE2_MMAP_ACPI_NVS then ''ACPI Non Volatile Storage''
      else if type = STIVALE2_MMAP_BAD_MEMORY then ''Bad Memory''
      else if type = STIVALE2_MMAP_BOOTLOADER_RECLAIMABLE then ''Bootloader Reclaimable''
      else if type = STIVALE2_MMAP_KERNEL_AND_MODULES then ''Kernel And Modules''
      else if type = STIVALE2_MMAP_FRAMEBUFFER then ''Framebuffer''
      else ''Unknown'')"

section \<open>The allocator\<close>

record pmm_state =
  kmem :: memory
  pmm_bitmap :: bitmap_t
  pmm_bitmap_addr :: u64
  highest_page_top :: u64
  used_pages_count :: u64

text \<open>
  \<open>pmm_find_first_free_page_range\<close>: the inner loop asks for the bits
  \<open>all_bits_i + PAGE_TO_BIT(page_count_i)\<close> and answers whether it reached the last page of
  the request; the outer loop returns the first \<open>all_bits_i\<close> for which it did, \<open>NULL\<close> if none.
\<close>

function find_inner :: "bitmap_t \<Rightarrow> u64 \<Rightarrow> u64 \<Rightarrow> u64 \<Rightarrow> bool result" where
  "find_inner bitmap page_count all_bits_i page_count_i =
     (if page_count_i < page_count then
        rbind (bitmap_check_bit bitmap (c_int (all_bits_i + PAGE_TO_BIT page_count_i))) (\<lambda>v.
          if v \<noteq> 0 then Inr False
          else if page_count_i = page_count - 1 then Inr True
          else find_inner bitmap page_count all_bits_i (page_count_i + 1))
      else Inr False)"
  by pat_completeness auto
termination
proof (relation "measure (\<lambda>(b, n, a, i). unat n - unat i)", goal_cases)
  case (2 b n a i v)
  then have "unat i < unat n" by (simp add: word_less_nat_alt)
  moreover have "unat (i + 1) = unat i + 1"
    using calculation unat_u64_less [of n] unat_add_of_nat [of i 1] by simp
  ultimately show ?case by simp
qed simp

function find_outer :: "bitmap_t \<Rightarrow> u64 \<Rightarrow> u64 \<Rightarrow> u64 \<Rightarrow> u64 result" where
  "find_outer bitmap limit page_count all_bits_i =
     (if all_bits_i < limit then
        rbind (find_inner bitmap page_count all_bits_i 0) (\<lambda>found.
          if found then Inr (BIT_TO_PAGE all_bits_i)
          else find_outer bitmap limit page_count (all_bits_i + 1))
      else Inr 0)"
  by pat_completeness auto
termination
proof (relation "measure (\<lambda>(b, n, c, i). unat n - unat i)", goal_cases)
  case (2 b n c i v)
  then have "unat i < unat n" by (simp add: word_less_nat_alt)
  moreover have "unat (i + 1) = unat i + 1"
    using calculation unat_u64_less [of n] unat_add_of_nat [of i 1] by simp
  ultimately show ?case by simp
qed simp

declare find_inner.simps [simp del] find_outer.simps [simp del]

definition pmm_find_first_free_page_range :: "'a pmm_state_scheme \<Rightarrow> u64 \<Rightarrow> u64 result" where
  "pmm_find_first_free_page_range s page_count =
     find_outer (pmm_bitmap s) (PAGE_TO_BIT (highest_page_top s)) page_count 0"

definition pmm_alloc :: "'a pmm_state_scheme \<Rightarrow> u64 \<Rightarrow> (u64 \<times> 'a pmm_state_scheme) result" where
  "pmm_alloc s page_count =
     (if used_pages_count s \<le> 0 then Inr (0, s)
      else rbind (pmm_find_first_free_page_range s page_count) (\<lambda>pointer.
        if pointer = 0 then Inr (0, s)
        else let index = PAGE_TO_BIT pointer in
          rbind (rfold (\<lambda>i b. bitmap_set_bit b (c_int (index + of_nat i))) [0..<unat page_count] (pmm_bitmap s)) (\<lambda>b.
            Inr (BIT_TO_PAGE index,
                 s\<lparr>pmm_bitmap := b, used_pages_count := used_pages_count s + page_count\<rparr>))))"

text \<open>\<open>pmm_allocz\<close> clears the range at the returned pointer, also when that pointer is \<open>NULL\<close>.\<close>

definition pmm_allocz :: "'a pmm_state_scheme \<Rightarrow> u64 \<Rightarrow> (u64 \<times> 'a pmm_state_scheme) result" where
  "pmm_allocz s page_count =
     rbind (pmm_alloc s page_count) (\<lambda>(pointer, s).
       Inr (pointer, s\<lparr>kmem := memset (kmem s) pointer 0 (PAGE_SIZE * page_count)\<rparr>))"

definition pmm_free :: "'a pmm_state_scheme \<Rightarrow> u64 \<Rightarrow> u64 \<Rightarrow> 'a pmm_state_scheme result" where
  "pmm_free s pointer page_count =
     (let index = PAGE_TO_BIT pointer in
      rbind (rfold (\<lambda>i b. bitmap_unset_bit b (c_int (index + of_nat i))) [0..<unat page_count] (pmm_bitmap s)) (\<lambda>b.
        Inr (s\<lparr>pmm_bitmap := b, used_pages_count := used_pages_count s - page_count\<rparr>)))"

section \<open>Initialisation from the memory map\<close>

definition pmm_scan_entry :: "stivale2_mmap_entry \<Rightarrow> u64 \<Rightarrow> u64" where
  "pmm_scan_entry current_entry page_top =
     (if mmap_type current_entry \<noteq> STIVALE2_MMAP_USABLE \<and>
         mmap_type current_entry \<noteq> STIVALE2_MMAP_BOOTLOADER_RECLAIMABLE \<and>
         mmap_type current_entry \<noteq> STIVALE2_MMAP_KERNEL_AND_MODULES then page_top
      else let current_page_top = mmap_base current_entry + mmap_length current_entry in
        if current_page_top > page_top then current_page_top else page_top)"

definition pmm_bitmap_size :: "u64 \<Rightarrow> u64" where
  "pmm_bitmap_size page_top = ALIGN_UP (ALIGN_DOWN page_top PAGE_SIZE div PAGE_SIZE div 8) PAGE_SIZE"

text \<open>
  The first usable entry that is long enough hosts the bitmap and gives up that part of its
  range; the result is the host address and the changed map, \<open>None\<close> when no entry fits.
\<close>

fun pmm_host_bitmap :: "u64 \<Rightarrow> stivale2_mmap_entry list \<Rightarrow> (u64 \<times> stivale2_mmap_entry list) option" where
  "pmm_host_bitmap sz [] = None"
| "pmm_host_bitmap sz (e # es) =
     (if mmap_type e = STIVALE2_MMAP_USABLE \<and> sz \<le> mmap_length e
      then Some (PHYS_TO_HIGHER_HALF_DATA (mmap_base e),
                 e\<lparr>mmap_base := mmap_base e + sz, mmap_length := mmap_length e - sz\<rparr> # es)
      else map_option (\<lambda>(a, es'). (a, e # es')) (pmm_host_bitmap sz es))"

definition pmm_free_entry :: "stivale2_mmap_entry \<Rightarrow> 'a pmm_state_scheme \<Rightarrow> 'a pmm_state_scheme result" where
  "pmm_free_entry current_entry s =
     (if mmap_type current_entry = STIVALE2_MMAP_USABLE
      then pmm_free s (mmap_base current_entry) (mmap_length current_entry div PAGE_SIZE)
      else Inr s)"

text \<open>
  Without a host entry \<open>pmm_bitmap.map\<close> stays \<open>NULL\<close> and the code goes on to write through it.
\<close>

definition pmm_init ::
  "'a pmm_state_scheme \<Rightarrow> stivale2_mmap_entry list \<Rightarrow> ('a pmm_state_scheme \<times> stivale2_mmap_entry list) result" where
  "pmm_init s memory_map =
     (let page_top = fold pmm_scan_entry memory_map (highest_page_top s);
          sz = pmm_bitmap_size page_top
      in case pmm_host_bitmap sz memory_map of
           None \<Rightarrow> Inl Out_Of_Bounds
         | Some (addr, memory_map') \<Rightarrow>
             rbind (rfold pmm_free_entry memory_map'
                 (s\<lparr>highest_page_top := page_top, used_pages_count := KB_TO_PAGES page_top,
                    pmm_bitmap := \<lparr>bm_map = replicate (unat sz) 0xFF, bm_size = sz\<rparr>,
                    pmm_bitmap_addr := addr\<rparr>)) (\<lambda>s.
               rbind (bitmap_set_bit (pmm_bitmap s) 0) (\<lambda>b.
                 Inr (s\<lparr>pmm_bitmap := b\<rparr>, memory_map'))))"

section \<open>Pages and bits\<close>

definition page_addr :: "nat \<Rightarrow> u64" where "page_addr j = of_nat (j * 4096)"

definition pmm_pages :: "'a pmm_state_scheme \<Rightarrow> nat" where
  "pmm_pages s = unat (highest_page_top s) div 4096"

definition pmm_used :: "'a pmm_state_scheme \<Rightarrow> nat set" where
  "pmm_used s = bitmap_ones (pmm_bitmap s)"

definition pmm_free_pages :: "'a pmm_state_scheme \<Rightarrow> nat set" where
  "pmm_free_pages s = {j. j < pmm_pages s \<and> j \<notin> pmm_used s}"

text \<open>
  The bitmap covers every page below the top of memory, its bit numbers fit an \<open>int\<close>, and
  page 0 is reserved.
\<close>

definition pmm_inv :: "'a pmm_state_scheme \<Rightarrow> bool" where
  "pmm_inv s \<longleftrightarrow> pmm_pages s \<le> bitmap_cap (pmm_bitmap s) \<and> bitmap_cap (pmm_bitmap s) \<le> 2 ^ 31
     \<and> 0 \<in> pmm_used s"

lemma unat_PAGE_TO_BIT [page_simps]: "unat (PAGE_TO_BIT x) = unat x div 4096"
  by (simp add: PAGE_TO_BIT_def unat_div)

lemma unat_page_addr [page_simps]: "j < 2 ^ 52 \<Longrightarrow> unat (page_addr j) = j * 4096"
  by (simp add: page_addr_def unat_of_nat del: of_nat_mult)

lemma PAGE_TO_BIT_page_addr [page_simps]: "j < 2 ^ 52 \<Longrightarrow> PAGE_TO_BIT (page_addr j) = of_nat j"
  by (rule word_unat_eq_iff [THEN iffD2]) (simp add: unat_PAGE_TO_BIT unat_page_addr unat_of_nat)

lemma BIT_TO_PAGE_of_nat [page_simps]: "BIT_TO_PAGE (of_nat j) = page_addr j"
  by (simp add: BIT_TO_PAGE_def page_addr_def)

lemma page_addr_eq_0 [page_simps]: "j < 2 ^ 52 \<Longrightarrow> page_addr j = 0 \<longleftrightarrow> j = 0"
  using unat_page_addr [of j] by (auto simp flip: unat_eq_0)

lemma pmm_pages_less: "pmm_pages s < 2 ^ 52"
  using unat_u64_less [of "highest_page_top s"] by (simp add: pmm_pages_def)

lemma c_int_of_nat [page_simps]: "j < 2 ^ 31 \<Longrightarrow> c_int (of_nat j) = int j"
  using c_int_small [of "of_nat j"] by (simp add: unat_of_nat)

section \<open>The search\<close>

text \<open>For up to 4096 pages the inner loop looks at one bit only: \<open>PAGE_TO_BIT(page_count_i)\<close> is 0.\<close>

lemma find_inner_single:
  assumes "unat i < unat n" "unat n \<le> 4096" "j < bitmap_cap b" "j < 2 ^ 31"
  shows "find_inner b n (of_nat j) i = Inr (j \<notin> bitmap_ones b)"
  using assms
proof (induction b n "of_nat j :: u64" i rule: find_inner.induct)
  case (1 b n i)
  have zero: "PAGE_TO_BIT i = 0"
    using 1(2,3) by (intro word_unat_eq_iff [THEN iffD2]) (simp add: unat_PAGE_TO_BIT)
  obtain v where v: "bitmap_check_bit b (int j) = Inr v" "v \<noteq> 0 \<longleftrightarrow> j \<in> bitmap_ones b"
    using bm.check_spec [OF 1(4)] by blast
  have lt: "i < n" using 1(2) by (simp add: word_less_nat_alt)
  show ?case
  proof (cases "v = 0 \<and> i \<noteq> n - 1")
    case True
    have "unat (n - 1) = unat n - 1"
      using 1(2) unat_diff_le [of 1 n] by (simp add: word_le_nat_alt)
    then have "unat i \<noteq> unat n - 1"
      using True by (auto simp: word_unat_eq_iff)
    moreover have "unat (i + 1) = unat i + 1"
      using 1(2,3) unat_add_of_nat [of i 1] by simp
    ultimately have "unat (i + 1) < unat n" using 1(2) by linarith
    from 1(1) [OF lt _ _ _ this] True v 1(3-5) lt zero show ?thesis
      by (simp add: find_inner.simps [of b n "of_nat j" i] c_int_of_nat)
  next
    case False
    with v lt zero 1(5) show ?thesis
      by (auto simp add: find_inner.simps [of b n "of_nat j" i] c_int_of_nat)
  qed
qed

text \<open>The outer loop is a first-fit search over the bits below the limit.\<close>

lemma find_outer_single:
  assumes "0 < unat n" "unat n \<le> 4096" "limit \<le> bitmap_cap b" "limit \<le> 2 ^ 31" "i \<le> limit"
  shows "find_outer b (of_nat limit) n (of_nat i) =
    Inr (if \<exists>j. i \<le> j \<and> j < limit \<and> j \<notin> bitmap_ones b
         then page_addr (LEAST j. i \<le> j \<and> j \<notin> bitmap_ones b) else 0)"
  using assms(5)
proof (induction i rule: inc_induct)
  case base
  then show ?case by (auto simp add: find_outer.simps)
next
  case (step i)
  have lt: "(of_nat i :: u64) < of_nat limit"
    using step(2) assms(4) by (simp add: word_less_nat_alt unat_of_nat)
  have inner: "find_inner b n (of_nat i) 0 = Inr (i \<notin> bitmap_ones b)"
    using assms step(2) by (intro find_inner_single) auto
  show ?case
  proof (cases "i \<in> bitmap_ones b")
    case True
    have eq: "(Suc i \<le> j \<and> j \<notin> bitmap_ones b) \<longleftrightarrow> (i \<le> j \<and> j \<notin> bitmap_ones b)" for j
      using True by (metis Suc_leD le_antisym not_less_eq_eq)
    have eq': "(\<exists>j. Suc i \<le> j \<and> j < limit \<and> j \<notin> bitmap_ones b) \<longleftrightarrow>
        (\<exists>j. i \<le> j \<and> j < limit \<and> j \<notin> bitmap_ones b)"
      using eq by blast
    have "find_outer b (of_nat limit) n (of_nat i) = find_outer b (of_nat limit) n (of_nat (Suc i))"
      using lt inner True by (subst find_outer.simps) (simp add: add.commute)
    then show ?thesis using step.IH unfolding eq eq' by simp
  next
    case False
    then have "(LEAST j. i \<le> j \<and> j \<notin> bitmap_ones b) = i"
      by (intro Least_equality) auto
    with False step(2) lt inner show ?thesis
      by (subst find_outer.simps) (auto simp: BIT_TO_PAGE_of_nat)
  qed
qed

lemma pmm_find_spec:
  assumes "pmm_inv s" "0 < unat n" "unat n \<le> 4096"
  shows "pmm_find_first_free_page_range s n =
    Inr (if pmm_free_pages s = {} then 0 else page_addr (Min (pmm_free_pages s)))"
proof -
  let ?P = "\<lambda>j. j \<notin> bitmap_ones (pmm_bitmap s)"
  have lim: "PAGE_TO_BIT (highest_page_top s) = of_nat (pmm_pages s)"
    using pmm_pages_less [of s]
    by (intro word_unat_eq_iff [THEN iffD2]) (simp add: unat_PAGE_TO_BIT pmm_pages_def unat_of_nat)
  have bounds: "pmm_pages s \<le> bitmap_cap (pmm_bitmap s)" "pmm_pages s \<le> 2 ^ 31"
    using assms(1) by (auto simp: pmm_inv_def)
  have "(LEAST j. ?P j) = Min (pmm_free_pages s)" if ne: "pmm_free_pages s \<noteq> {}"
  proof (rule Least_equality)
    have fin: "finite (pmm_free_pages s)" by (simp add: pmm_free_pages_def)
    then have "Min (pmm_free_pages s) \<in> pmm_free_pages s" using ne by (rule Min_in)
    then show "?P (Min (pmm_free_pages s))" by (simp add: pmm_free_pages_def pmm_used_def)
    fix y assume y: "?P y"
    show "Min (pmm_free_pages s) \<le> y"
    proof (cases "y < pmm_pages s")
      case True
      with y fin show ?thesis by (intro Min_le) (auto simp: pmm_free_pages_def pmm_used_def)
    next
      case False
      moreover have "Min (pmm_free_pages s) < pmm_pages s"
        using Min_in [OF fin ne] by (simp add: pmm_free_pages_def)
      ultimately show ?thesis by simp
    qed
  qed
  moreover have "(\<exists>j<pmm_pages s. ?P j) \<longleftrightarrow> pmm_free_pages s \<noteq> {}"
    by (auto simp: pmm_free_pages_def pmm_used_def)
  ultimately show ?thesis
    using find_outer_single [OF assms(2,3) bounds, of 0] lim
    by (simp add: pmm_find_first_free_page_range_def)
qed

section \<open>Allocation and release\<close>

lemma pmm_set_range:
  assumes "j + n \<le> bitmap_cap b" "bitmap_cap b \<le> 2 ^ 31"
  shows "\<exists>b'. rfold (\<lambda>i b. bitmap_set_bit b (c_int (of_nat j + of_nat i))) [0..<n] b = Inr b'
    \<and> bitmap_cap b' = bitmap_cap b \<and> bitmap_ones b' = bitmap_ones b \<union> {j..<j + n}"
proof (rule bm.set_loop)
  fix k assume "k < n"
  with assms have "j + k < 2 ^ 31" by linarith
  then show "c_int (of_nat j + of_nat k) = int (j + k)"
    using c_int_of_nat [of "j + k"] by simp
qed (fact assms)

lemma pmm_unset_range:
  assumes "j + n \<le> bitmap_cap b" "bitmap_cap b \<le> 2 ^ 31"
  shows "\<exists>b'. rfold (\<lambda>i b. bitmap_unset_bit b (c_int (of_nat j + of_nat i))) [0..<n] b = Inr b'
    \<and> bitmap_cap b' = bitmap_cap b \<and> bitmap_ones b' = bitmap_ones b - {j..<j + n}"
proof (rule bm.unset_loop)
  fix k assume "k < n"
  with assms have "j + k < 2 ^ 31" by linarith
  then show "c_int (of_nat j + of_nat k) = int (j + k)"
    using c_int_of_nat [of "j + k"] by simp
qed (fact assms)

lemma finite_free_pages [simp]: "finite (pmm_free_pages s)"
  by (simp add: pmm_free_pages_def)

lemma free_pageD:
  assumes "pmm_inv s" "j \<in> pmm_free_pages s"
  shows "0 < j" "j < pmm_pages s" "j < bitmap_cap (pmm_bitmap s)" "j < 2 ^ 31" "j \<notin> pmm_used s" "j < 2 ^ 52"
proof -
  show j: "0 < j" "j < pmm_pages s" "j \<notin> pmm_used s"
    using assms by (auto simp: pmm_free_pages_def pmm_inv_def intro: Suc_leI gr0I)
  then show "j < bitmap_cap (pmm_bitmap s)" "j < 2 ^ 31" "j < 2 ^ 52"
    using assms(1) pmm_pages_less [of s] by (auto simp: pmm_inv_def)
qed

lemma pmm_alloc_found:
  assumes inv: "pmm_inv s" and n: "0 < unat n" "unat n \<le> 4096"
    and used: "used_pages_count s \<noteq> 0" and ne: "pmm_free_pages s \<noteq> {}"
    and fits: "Min (pmm_free_pages s) + unat n \<le> bitmap_cap (pmm_bitmap s)"
  shows "\<exists>b. pmm_alloc s n = Inr (page_addr (Min (pmm_free_pages s)),
             s\<lparr>pmm_bitmap := b, used_pages_count := used_pages_count s + n\<rparr>)
           \<and> bitmap_cap b = bitmap_cap (pmm_bitmap s)
           \<and> bitmap_ones b = pmm_used s \<union> {Min (pmm_free_pages s)..<Min (pmm_free_pages s) + unat n}"
proof -
  define j where "j = Min (pmm_free_pages s)"
  have j: "0 < j" "j < 2 ^ 52" "j < 2 ^ 31"
    unfolding j_def using free_pageD [OF inv Min_in [OF finite_free_pages ne]] by blast+
  have "bitmap_cap (pmm_bitmap s) \<le> 2 ^ 31" using inv by (simp add: pmm_inv_def)
  from pmm_set_range [OF fits [folded j_def] this] obtain b where
    "rfold (\<lambda>i b. bitmap_set_bit b (c_int (of_nat j + of_nat i))) [0..<unat n] (pmm_bitmap s) = Inr b"
    "bitmap_cap b = bitmap_cap (pmm_bitmap s)"
    "bitmap_ones b = bitmap_ones (pmm_bitmap s) \<union> {j..<j + unat n}"
    by blast
  then show ?thesis
    using j ne used pmm_find_spec [OF inv n] unfolding j_def [symmetric]
    by (intro exI [of _ b]) (simp add: pmm_alloc_def Let_def PAGE_TO_BIT_page_addr page_addr_eq_0 BIT_TO_PAGE_of_nat pmm_used_def)
qed

lemma pmm_alloc_full:
  assumes "pmm_inv s" "0 < unat n" "unat n \<le> 4096" "pmm_free_pages s = {}"
  shows "pmm_alloc s n = Inr (0, s)"
  using pmm_find_spec [OF assms(1-3)] assms(4) by (simp add: pmm_alloc_def)

lemma pmm_free_range:
  assumes "bitmap_cap (pmm_bitmap s) \<le> 2 ^ 31" "unat p div 4096 + unat n \<le> bitmap_cap (pmm_bitmap s)"
  shows "\<exists>b. pmm_free s p n = Inr (s\<lparr>pmm_bitmap := b, used_pages_count := used_pages_count s - n\<rparr>)
           \<and> bitmap_cap b = bitmap_cap (pmm_bitmap s)
           \<and> bitmap_ones b = pmm_used s - {unat p div 4096..<unat p div 4096 + unat n}"
proof -
  have idx: "PAGE_TO_BIT p = of_nat (unat p div 4096)"
    using unat_u64_less [of p]
    by (intro word_unat_eq_iff [THEN iffD2]) (simp add: unat_PAGE_TO_BIT unat_of_nat)
  from pmm_unset_range [OF assms(2,1)] show ?thesis
    by (auto simp: pmm_free_def idx pmm_used_def)
qed

section \<open>The page counter\<close>

text \<open>
  \<open>pmm_alloc\<close> refuses to work when \<open>used_pages_count\<close> is 0, so callers also rely on the counter:
  it is at least the number of used pages and far enough from the top not to wrap.
\<close>

definition pmm_counter_ok :: "'a pmm_state_scheme \<Rightarrow> bool" where
  "pmm_counter_ok s \<longleftrightarrow> card (pmm_used s \<inter> {..<pmm_pages s}) \<le> unat (used_pages_count s)
     \<and> unat (used_pages_count s) + card (pmm_free_pages s) < 2 ^ 64"

definition pmm_wf :: "'a pmm_state_scheme \<Rightarrow> bool" where
  "pmm_wf s \<longleftrightarrow> pmm_inv s \<and> pmm_counter_ok s"

lemma pmm_wf_counter_pos:
  assumes "pmm_wf s" "pmm_free_pages s \<noteq> {}"
  shows "used_pages_count s \<noteq> 0"
proof -
  have "0 \<in> pmm_used s \<inter> {..<pmm_pages s}"
    using assms by (auto simp: pmm_wf_def pmm_inv_def pmm_free_pages_def)
  then have "0 < card (pmm_used s \<inter> {..<pmm_pages s})"
    by (auto simp: card_gt_0_iff)
  then show ?thesis using assms(1) by (auto simp: pmm_wf_def pmm_counter_ok_def)
qed

lemma pmm_pages_update [simp]:
  "pmm_pages (s\<lparr>pmm_bitmap := b\<rparr>) = pmm_pages s"
  "pmm_pages (s\<lparr>used_pages_count := c\<rparr>) = pmm_pages s"
  "pmm_pages (s\<lparr>kmem := m\<rparr>) = pmm_pages s"
  by (simp_all add: pmm_pages_def)

lemma pmm_used_update [simp]:
  "pmm_used (s\<lparr>pmm_bitmap := b\<rparr>) = bitmap_ones b"
  "pmm_used (s\<lparr>used_pages_count := c\<rparr>) = pmm_used s"
  "pmm_used (s\<lparr>kmem := m\<rparr>) = pmm_used s"
  by (simp_all add: pmm_used_def)

lemma pmm_free_pages_update [simp]:
  "pmm_free_pages (s\<lparr>pmm_bitmap := b\<rparr>) = {j. j < pmm_pages s \<and> j \<notin> bitmap_ones b}"
  "pmm_free_pages (s\<lparr>used_pages_count := c\<rparr>) = pmm_free_pages s"
  "pmm_free_pages (s\<lparr>kmem := m\<rparr>) = pmm_free_pages s"
  by (simp_all add: pmm_free_pages_def)

lemma pmm_wf_kmem [simp]: "pmm_wf (s\<lparr>kmem := m\<rparr>) = pmm_wf s"
  by (simp add: pmm_wf_def pmm_inv_def pmm_counter_ok_def)

lemma pmm_wf_take:
  assumes wf: "pmm_wf s" and j: "j \<in> pmm_free_pages s"
    and b: "bitmap_cap b = bitmap_cap (pmm_bitmap s)" "bitmap_ones b = insert j (pmm_used s)"
  shows "pmm_wf (s\<lparr>pmm_bitmap := b, used_pages_count := used_pages_count s + 1\<rparr>)" (is "pmm_wf ?t")
    and "pmm_free_pages (s\<lparr>pmm_bitmap := b, used_pages_count := used_pages_count s + 1\<rparr>) = pmm_free_pages s - {j}"
proof -
  have inv: "pmm_inv s" and cnt: "pmm_counter_ok s" using wf by (auto simp: pmm_wf_def)
  have jp: "j < pmm_pages s" "j \<notin> pmm_used s" using j by (auto simp: pmm_free_pages_def)
  show free: "pmm_free_pages ?t = pmm_free_pages s - {j}"
    using b by (auto simp: pmm_free_pages_def)
  have "card (pmm_free_pages s) = Suc (card (pmm_free_pages s - {j}))"
    using card.remove [OF finite_free_pages j] .
  moreover have "insert j (pmm_used s) \<inter> {..<pmm_pages s} = insert j (pmm_used s \<inter> {..<pmm_pages s})"
    using jp by auto
  moreover have "unat (used_pages_count s + 1) = unat (used_pages_count s) + 1"
    using cnt calculation(1) unat_add_of_nat [of "used_pages_count s" 1] by (simp add: pmm_counter_ok_def)
  ultimately have "pmm_counter_ok ?t"
    using cnt jp free b by (simp add: pmm_counter_ok_def)
  moreover have "pmm_inv ?t" using inv b by (simp add: pmm_inv_def)
  ultimately show "pmm_wf ?t" by (simp add: pmm_wf_def)
qed

lemma pmm_wf_give:
  assumes wf: "pmm_wf s" and j: "0 < j" "j < pmm_pages s" "j \<in> pmm_used s"
    and b: "bitmap_cap b = bitmap_cap (pmm_bitmap s)" "bitmap_ones b = pmm_used s - {j}"
  shows "pmm_wf (s\<lparr>pmm_bitmap := b, used_pages_count := used_pages_count s - 1\<rparr>)" (is "pmm_wf ?t")
    and "pmm_free_pages (s\<lparr>pmm_bitmap := b, used_pages_count := used_pages_count s - 1\<rparr>) = insert j (pmm_free_pages s)"
proof -
  have inv: "pmm_inv s" and cnt: "pmm_counter_ok s" using wf by (auto simp: pmm_wf_def)
  show free: "pmm_free_pages ?t = insert j (pmm_free_pages s)"
    using b j by (auto simp: pmm_free_pages_def)
  let ?U = "pmm_used s \<inter> {..<pmm_pages s}"
  have U: "j \<in> ?U" "finite ?U" using j by auto
  have cardU: "card ?U = Suc (card (?U - {j}))"
    using card.remove [OF U(2,1)] .
  have eqU: "(pmm_used s - {j}) \<inter> {..<pmm_pages s} = ?U - {j}" by auto
  have pos: "0 < unat (used_pages_count s)"
    using cnt cardU by (simp add: pmm_counter_ok_def)
  have dec: "unat (used_pages_count s - 1) = unat (used_pages_count s) - 1"
    using pos unat_diff_le [of 1 "used_pages_count s"] by (simp add: word_le_nat_alt)
  have "j \<notin> pmm_free_pages s" using j by (simp add: pmm_free_pages_def)
  then have "card (pmm_free_pages ?t) = Suc (card (pmm_free_pages s))"
    using free by simp
  then have "pmm_counter_ok ?t"
    using cnt b cardU dec pos unfolding pmm_counter_ok_def by (simp add: eqU)  linarith
  moreover have "pmm_inv ?t" using inv b j by (simp add: pmm_inv_def)
  ultimately show "pmm_wf ?t" by (simp add: pmm_wf_def)
qed

section \<open>The contract of a page allocator\<close>

text \<open>
  What the page tables, the slab caches and the CPU stacks rely on: a page that is handed out
  was available, is cleared and is no longer available; a page given back is available again;
  running out is the answer \<open>NULL\<close>.
\<close>

fun alloc_seq :: "('s \<Rightarrow> (u64 \<times> 's) result) \<Rightarrow> nat \<Rightarrow> 's \<Rightarrow> (u64 list \<times> 's) result" where
  "alloc_seq f 0 s = Inr ([], s)"
| "alloc_seq f (Suc n) s =
     rbind (f s) (\<lambda>(p, s). rbind (alloc_seq f n s) (\<lambda>(ps, s). Inr (p # ps, s)))"

locale page_allocator =
  fixes wf :: "'s \<Rightarrow> bool"
    and pages :: "'s \<Rightarrow> nat"
    and avail :: "'s \<Rightarrow> nat set"
    and mem :: "'s \<Rightarrow> memory"
    and allocz1 :: "'s \<Rightarrow> (u64 \<times> 's) result"
    and free1 :: "'s \<Rightarrow> u64 \<Rightarrow> 's result"
  assumes avail_page: "wf s \<Longrightarrow> j \<in> avail s \<Longrightarrow> 0 < j \<and> j < pages s"
    and pages_bound: "pages s < 2 ^ 52"
    and avail_finite: "finite (avail s)"
    and allocz1_some: "wf s \<Longrightarrow> avail s \<noteq> {} \<Longrightarrow> \<exists>j t. j \<in> avail s \<and> allocz1 s = Inr (page_addr j, t)
      \<and> wf t \<and> pages t = pages s \<and> avail t = avail s - {j} \<and> mem t = memset (mem s) (page_addr j) 0 4096"
    and allocz1_none: "wf s \<Longrightarrow> avail s = {} \<Longrightarrow> \<exists>t. allocz1 s = Inr (0, t)
      \<and> wf t \<and> pages t = pages s \<and> avail t = {} \<and> mem t = memset (mem s) 0 0 4096"
    and free1_used: "wf s \<Longrightarrow> 0 < j \<Longrightarrow> j < pages s \<Longrightarrow> j \<notin> avail s \<Longrightarrow> unat p div 4096 = j \<Longrightarrow>
      \<exists>t. free1 s p = Inr t \<and> wf t \<and> pages t = pages s \<and> avail t = insert j (avail s) \<and> mem t = mem s"
begin

lemma page_addr_avail:
  assumes "wf s" "j \<in> avail s"
  shows "page_addr j \<noteq> 0" "unat (page_addr j) = j * 4096" "unat (page_addr j) div 4096 = j"
proof -
  have "0 < j" "j < 2 ^ 52"
    using avail_page [OF assms] pages_bound [of s] by auto
  then show "page_addr j \<noteq> 0" "unat (page_addr j) = j * 4096" "unat (page_addr j) div 4096 = j"
    by (simp_all add: page_addr_eq_0 unat_page_addr)
qed

text \<open>A run of single-page allocations: distinct available pages, as many as there are.\<close>

lemma alloc_run:
  assumes "wf s" "n \<le> card (avail s)"
  shows "\<exists>ps t. alloc_seq allocz1 n s = Inr (ps, t) \<and> wf t \<and> length ps = n \<and> distinct ps
    \<and> (\<forall>p\<in>set ps. p \<noteq> 0 \<and> unat p mod 4096 = 0 \<and> unat p div 4096 \<in> avail s)
    \<and> avail t = avail s - (\<lambda>p. unat p div 4096) ` set ps"
  using assms
proof (induction n arbitrary: s)
  case 0
  then show ?case by simp
next
  case (Suc n)
  then have "avail s \<noteq> {}" by auto
  with Suc.prems(1) obtain j u where j: "j \<in> avail s" "allocz1 s = Inr (page_addr j, u)"
      and u: "wf u" "avail u = avail s - {j}"
    using allocz1_some by blast
  note pj = page_addr_avail [OF Suc.prems(1) j(1)]
  have "n \<le> card (avail u)"
    using Suc.prems(2) j(1) u(2) avail_finite by simp
  from Suc.IH [OF u(1) this] obtain ps t where t: "alloc_seq allocz1 n u = Inr (ps, t)" "wf t"
      "length ps = n" "distinct ps"
      "\<forall>p\<in>set ps. p \<noteq> 0 \<and> unat p mod 4096 = 0 \<and> unat p div 4096 \<in> avail u"
      "avail t = avail u - (\<lambda>p. unat p div 4096) ` set ps"
    by blast
  have "page_addr j \<notin> set ps" using t(5) u(2) pj(3) by auto
  then show ?case
    using t j u pj by (auto simp: image_insert)
qed

text \<open>Giving back the page just taken makes it available again.\<close>

lemma alloc_free_cancel:
  assumes "wf s" "avail s \<noteq> {}"
  shows "\<exists>p t u. allocz1 s = Inr (p, t) \<and> free1 t p = Inr u \<and> wf u \<and> avail u = avail s"
proof -
  obtain j t where j: "j \<in> avail s" "allocz1 s = Inr (page_addr j, t)"
      and t: "wf t" "pages t = pages s" "avail t = avail s - {j}"
    using allocz1_some [OF assms] by blast
  note pj = page_addr_avail [OF assms(1) j(1)]
  have "0 < j" "j < pages t" "j \<notin> avail t"
    using avail_page [OF assms(1) j(1)] t by auto
  from free1_used [OF t(1) this pj(3)] obtain u where
    "free1 t (page_addr j) = Inr u" "wf u" "avail u = insert j (avail t)"
    by blast
  with j t show ?thesis by (auto simp: insert_absorb)
qed

end

section \<open>The frame allocator is a page allocator\<close>

lemma pmm_alloc_one:
  assumes "pmm_wf s" "pmm_free_pages s \<noteq> {}"
  shows "\<exists>b. pmm_alloc s 1 = Inr (page_addr (Min (pmm_free_pages s)),
             s\<lparr>pmm_bitmap := b, used_pages_count := used_pages_count s + 1\<rparr>)
           \<and> bitmap_cap b = bitmap_cap (pmm_bitmap s)
           \<and> bitmap_ones b = insert (Min (pmm_free_pages s)) (pmm_used s)"
proof -
  have inv: "pmm_inv s" using assms(1) by (simp add: pmm_wf_def)
  have "Min (pmm_free_pages s) + unat (1 :: u64) \<le> bitmap_cap (pmm_bitmap s)"
    using free_pageD(3) [OF inv Min_in [OF finite_free_pages assms(2)]] by simp
  from pmm_alloc_found [OF inv _ _ pmm_wf_counter_pos [OF assms] assms(2) this] show ?thesis
    by (simp add: atLeastLessThanSuc)
qed

interpretation pg: page_allocator pmm_wf pmm_pages pmm_free_pages kmem
    "\<lambda>s. pmm_allocz s 1" "\<lambda>s p. pmm_free s p 1"
proof unfold_locales
  fix s :: "'a pmm_state_scheme" and j p
  assume wf: "pmm_wf s"
  then have inv: "pmm_inv s" by (simp add: pmm_wf_def)
  show "0 < j \<and> j < pmm_pages s" if "j \<in> pmm_free_pages s"
    using free_pageD [OF inv that] by blast
  show "\<exists>j t. j \<in> pmm_free_pages s \<and> pmm_allocz s 1 = Inr (page_addr j, t) \<and> pmm_wf t
      \<and> pmm_pages t = pmm_pages s \<and> pmm_free_pages t = pmm_free_pages s - {j}
      \<and> kmem t = memset (kmem s) (page_addr j) 0 4096" if ne: "pmm_free_pages s \<noteq> {}"
  proof -
    have mem: "Min (pmm_free_pages s) \<in> pmm_free_pages s" using ne by (simp add: Min_in)
    from pmm_alloc_one [OF wf ne] obtain b where
      b: "pmm_alloc s 1 = Inr (page_addr (Min (pmm_free_pages s)),
            s\<lparr>pmm_bitmap := b, used_pages_count := used_pages_count s + 1\<rparr>)"
         "bitmap_cap b = bitmap_cap (pmm_bitmap s)"
         "bitmap_ones b = insert (Min (pmm_free_pages s)) (pmm_used s)"
      by blast
    note taken = pmm_wf_take [OF wf mem b(2,3)]
    show ?thesis
      using taken b(1) mem
      by (intro exI [of _ "Min (pmm_free_pages s)"]
          exI [of _ "s\<lparr>pmm_bitmap := b, used_pages_count := used_pages_count s + 1,
             kmem := memset (kmem s) (page_addr (Min (pmm_free_pages s))) 0 4096\<rparr>"])
        (simp add: pmm_allocz_def)
  qed
  show "\<exists>t. pmm_allocz s 1 = Inr (0, t) \<and> pmm_wf t \<and> pmm_pages t = pmm_pages s
      \<and> pmm_free_pages t = {} \<and> kmem t = memset (kmem s) 0 0 4096" if "pmm_free_pages s = {}"
    using that wf pmm_alloc_full [OF inv, of 1] by (simp add: pmm_allocz_def)
  show "\<exists>t. pmm_free s p 1 = Inr t \<and> pmm_wf t \<and> pmm_pages t = pmm_pages s
      \<and> pmm_free_pages t = insert j (pmm_free_pages s) \<and> kmem t = kmem s"
    if j: "0 < j" "j < pmm_pages s" "j \<notin> pmm_free_pages s" "unat p div 4096 = j"
  proof -
    have used: "j \<in> pmm_used s" using j by (simp add: pmm_free_pages_def)
    have caps: "bitmap_cap (pmm_bitmap s) \<le> 2 ^ 31" "unat p div 4096 + unat (1 :: u64) \<le> bitmap_cap (pmm_bitmap s)"
      using inv j by (auto simp: pmm_inv_def)
    from pmm_free_range [OF caps] obtain b where
      b: "pmm_free s p 1 = Inr (s\<lparr>pmm_bitmap := b, used_pages_count := used_pages_count s - 1\<rparr>)"
         "bitmap_cap b = bitmap_cap (pmm_bitmap s)" "bitmap_ones b = pmm_used s - {j}"
      using j(4) by (auto simp: atLeastLessThanSuc)
    from pmm_wf_give [OF wf j(1,2) used b(2,3)] b(1) show ?thesis by simp
  qed
qed (simp_all add: pmm_pages_less [simplified])

section \<open>Initialisation\<close>

definition entry_pages :: "stivale2_mmap_entry \<Rightarrow> nat set" where
  "entry_pages e = {unat (mmap_base e) div 4096..<unat (mmap_base e) div 4096 + unat (mmap_length e) div 4096}"

abbreviation usable :: "stivale2_mmap_entry \<Rightarrow> bool" where
  "usable e \<equiv> mmap_type e = STIVALE2_MMAP_USABLE"

lemma pmm_free_entries:
  assumes "bitmap_cap (pmm_bitmap s) \<le> 2 ^ 31"
    and "\<And>e. e \<in> set es \<Longrightarrow> usable e \<Longrightarrow> entry_pages e \<subseteq> {..<bitmap_cap (pmm_bitmap s)}"
  shows "\<exists>b c. rfold pmm_free_entry es s = Inr (s\<lparr>pmm_bitmap := b, used_pages_count := c\<rparr>)
    \<and> bitmap_cap b = bitmap_cap (pmm_bitmap s)
    \<and> bitmap_ones b = pmm_used s - (\<Union>e\<in>{e \<in> set es. usable e}. entry_pages e)"
  using assms
proof (induction es arbitrary: s)
  case Nil
  show ?case
    by (intro exI [of _ "pmm_bitmap s"] exI [of _ "used_pages_count s"]) (simp add: pmm_used_def)
next
  case (Cons e es)
  show ?case
  proof (cases "usable e")
    case False
    have "rfold pmm_free_entry (e # es) s = rfold pmm_free_entry es s"
      using False by (simp add: pmm_free_entry_def)
    moreover have "{e' \<in> set (e # es). usable e'} = {e' \<in> set es. usable e'}"
      using False by auto
    ultimately show ?thesis
      using Cons.IH [of s] Cons.prems by simp
  next
    case True
    let ?n = "mmap_length e div 4096"
    have len: "unat ?n = unat (mmap_length e) div 4096" by (simp add: unat_div)
    have "unat (mmap_base e) div 4096 + unat ?n \<le> bitmap_cap (pmm_bitmap s) \<or> unat ?n = 0"
      using Cons.prems(2) [of e] True by (auto simp: entry_pages_def len lessThan_atLeast0 ivl_subset)
    then consider "unat (mmap_base e) div 4096 + unat ?n \<le> bitmap_cap (pmm_bitmap s)" | "unat ?n = 0"
      by metis
    then obtain b where b: "pmm_free_entry e s = Inr (s\<lparr>pmm_bitmap := b, used_pages_count := used_pages_count s - ?n\<rparr>)"
        "bitmap_cap b = bitmap_cap (pmm_bitmap s)" "bitmap_ones b = pmm_used s - entry_pages e"
    proof cases
      case 1
      from pmm_free_range [OF Cons.prems(1) 1] that True show ?thesis
        by (auto simp: pmm_free_entry_def entry_pages_def len)
    next
      case 2
      with that [of "pmm_bitmap s"] True show ?thesis
        by (simp add: pmm_free_entry_def pmm_free_def entry_pages_def len pmm_used_def)
    qed
    let ?t = "s\<lparr>pmm_bitmap := b, used_pages_count := used_pages_count s - ?n\<rparr>"
    have "\<exists>b' c. rfold pmm_free_entry es ?t = Inr (?t\<lparr>pmm_bitmap := b', used_pages_count := c\<rparr>)
      \<and> bitmap_cap b' = bitmap_cap (pmm_bitmap ?t)
      \<and> bitmap_ones b' = pmm_used ?t - (\<Union>e\<in>{e \<in> set es. usable e}. entry_pages e)"
      by (rule Cons.IH) (use Cons.prems b in auto)
    then obtain b' c where t: "rfold pmm_free_entry es ?t = Inr (?t\<lparr>pmm_bitmap := b', used_pages_count := c\<rparr>)"
      "bitmap_cap b' = bitmap_cap b"
      "bitmap_ones b' = bitmap_ones b - (\<Union>e\<in>{e \<in> set es. usable e}. entry_pages e)"
      by auto
    have "{e' \<in> set (e # es). usable e'} = insert e {e' \<in> set es. usable e'}"
      using True by auto
    with t b show ?thesis
      by (intro exI [of _ b'] exI [of _ c]) (auto simp: Diff_Un)
  qed
qed

lemma pmm_host_bitmap_Some:
  "pmm_host_bitmap sz es = Some (addr, es') \<Longrightarrow> \<exists>pre e post. es = pre @ e # post \<and> usable e
     \<and> sz \<le> mmap_length e \<and> (\<forall>d\<in>set pre. \<not> (usable d \<and> sz \<le> mmap_length d))
     \<and> addr = PHYS_TO_HIGHER_HALF_DATA (mmap_base e)
     \<and> es' = pre @ e\<lparr>mmap_base := mmap_base e + sz, mmap_length := mmap_length e - sz\<rparr> # post"
proof (induction es arbitrary: es')
  case Nil
  then show ?case by simp
next
  case (Cons d es)
  show ?case
  proof (cases "usable d \<and> sz \<le> mmap_length d")
    case True
    with Cons.prems show ?thesis
      by (intro exI [of _ "[]"] exI [of _ d] exI [of _ es]) auto
  next
    case False
    with Cons.prems obtain es'' where "pmm_host_bitmap sz es = Some (addr, es'')" "es' = d # es''"
      by auto
    from Cons.IH [OF this(1)] obtain pre e post where
      h: "es = pre @ e # post \<and> usable e \<and> sz \<le> mmap_length e
         \<and> (\<forall>d\<in>set pre. \<not> (usable d \<and> sz \<le> mmap_length d))
         \<and> addr = PHYS_TO_HIGHER_HALF_DATA (mmap_base e)
         \<and> es'' = pre @ e\<lparr>mmap_base := mmap_base e + sz, mmap_length := mmap_length e - sz\<rparr> # post"
      by blast
    show ?thesis
      by (intro exI [of _ "d # pre"] exI [of _ e] exI [of _ post]) (use h False \<open>es' = d # es''\<close> in auto)
  qed
qed

lemma bitmap_ones_full: "bitmap_ones \<lparr>bm_map = replicate n 0xFF, bm_size = z\<rparr> = {..<8 * n}"
proof -
  have "bit (0xFF :: u8) k" if "k < 8" for k
  proof -
    have "bit (mask 8 :: u8) k" using that by (simp add: bit_mask_iff)
    moreover have "(mask 8 :: u8) = 0xFF" by (simp add: mask_eq_exp_minus_1)
    ultimately show ?thesis by (simp only:)
  qed
  then show ?thesis
    by (auto simp: bitmap_ones_def bitmap_cap_def less_mult_imp_div_less mult.commute)
qed

lemma unat_pmm_bitmap_size:
  "unat (pmm_bitmap_size x) = (unat x div 4096 div 8 + 4095) div 4096 * 4096"
proof -
  let ?q = "ALIGN_DOWN x PAGE_SIZE div PAGE_SIZE div 8"
  have q: "unat ?q = unat x div 4096 div 8" by (simp add: unat_div unat_ALIGN_DOWN)
  then have "unat ?q + 4095 < 2 ^ 64" using unat_u64_less [of x] by simp
  from unat_ALIGN_UP [OF this] show ?thesis by (simp add: pmm_bitmap_size_def q)
qed

text \<open>
  The bitmap's bytes are rounded down to a multiple of eight pages before they are rounded up
  to whole pages, so it covers all of memory unless the top falls just past a full page of bitmap.
\<close>

lemma pmm_bitmap_covers_iff:
  "unat x div 4096 \<le> 8 * unat (pmm_bitmap_size x) \<longleftrightarrow>
     \<not> (unat x div 4096 div 8 mod 4096 = 0 \<and> unat x div 4096 mod 8 \<noteq> 0)"
proof -
  define n where "n = unat x div 4096"
  have "n \<le> 8 * ((n div 8 + 4095) div 4096 * 4096) \<longleftrightarrow> \<not> (n div 8 mod 4096 = 0 \<and> n mod 8 \<noteq> 0)"
  proof (cases "n div 8 mod 4096 = 0")
    case True
    then obtain a where a: "n div 8 = 4096 * a" by auto
    then have "(n div 8 + 4095) div 4096 = a" by simp
    with a have "8 * ((n div 8 + 4095) div 4096 * 4096) = 8 * (n div 8)" by simp
    moreover have "n \<le> 8 * (n div 8) \<longleftrightarrow> n mod 8 = 0" by presburger
    ultimately show ?thesis using True by (simp only: simp_thms)
  next
    case False
    define q where "q = n div 8"
    have "q + 4095 = 4096 * (q div 4096 + 1) + (q mod 4096 - 1)"
      using False mult_div_mod_eq [of 4096 q] by (simp add: q_def)
    then have "(q div 4096 + 1) * 4096 \<le> q + 4095" by linarith
    then have "q div 4096 + 1 \<le> (q + 4095) div 4096"
      by (simp only: less_eq_div_iff_mult_less_eq)
    moreover have "q < (q div 4096 + 1) * 4096"
      using dividend_less_div_times [of 4096 q] by simp
    ultimately have "q + 1 \<le> (q + 4095) div 4096 * 4096" by linarith
    moreover have "n < 8 * (q + 1)"
      using dividend_less_div_times [of 8 n] by (simp add: q_def)
    ultimately have "n \<le> 8 * ((q + 4095) div 4096 * 4096)"
      by (meson less_imp_le_nat mult_le_mono2 order_trans)
    then show ?thesis using False by (simp only: q_def simp_thms)
  qed
  then show ?thesis by (simp add: unat_pmm_bitmap_size n_def)
qed

lemma pmm_init_spec:
  fixes s :: "'a pmm_state_scheme"
  defines "page_top es \<equiv> fold pmm_scan_entry es (highest_page_top s)"
  assumes host: "pmm_host_bitmap (pmm_bitmap_size (page_top es)) es = Some (addr, es')"
    and small: "0 < unat (pmm_bitmap_size (page_top es))" "8 * unat (pmm_bitmap_size (page_top es)) \<le> 2 ^ 31"
    and inside: "\<And>e. e \<in> set es' \<Longrightarrow> usable e \<Longrightarrow> entry_pages e \<subseteq> {..<8 * unat (pmm_bitmap_size (page_top es))}"
  shows "\<exists>t. pmm_init s es = Inr (t, es') \<and> highest_page_top t = page_top es \<and> pmm_bitmap_addr t = addr
     \<and> kmem t = kmem s \<and> bitmap_cap (pmm_bitmap t) = 8 * unat (pmm_bitmap_size (page_top es))
     \<and> pmm_used t = insert 0 ({..<8 * unat (pmm_bitmap_size (page_top es))} - (\<Union>e\<in>{e \<in> set es'. usable e}. entry_pages e))"
proof -
  let ?sz = "pmm_bitmap_size (page_top es)"
  let ?b0 = "\<lparr>bm_map = replicate (unat ?sz) 0xFF, bm_size = ?sz\<rparr>"
  let ?s0 = "s\<lparr>highest_page_top := page_top es, used_pages_count := KB_TO_PAGES (page_top es),
      pmm_bitmap := ?b0, pmm_bitmap_addr := addr\<rparr>"
  have cap0: "bitmap_cap (pmm_bitmap ?s0) = 8 * unat ?sz" by (simp add: bitmap_cap_def)
  have "\<exists>b c. rfold pmm_free_entry es' ?s0 = Inr (?s0\<lparr>pmm_bitmap := b, used_pages_count := c\<rparr>)
    \<and> bitmap_cap b = bitmap_cap (pmm_bitmap ?s0)
    \<and> bitmap_ones b = pmm_used ?s0 - (\<Union>e\<in>{e \<in> set es'. usable e}. entry_pages e)"
    by (rule pmm_free_entries) (use small inside cap0 in auto)
  then obtain b c where fr: "rfold pmm_free_entry es' ?s0 = Inr (?s0\<lparr>pmm_bitmap := b, used_pages_count := c\<rparr>)"
    "bitmap_cap b = 8 * unat ?sz"
    "bitmap_ones b = {..<8 * unat ?sz} - (\<Union>e\<in>{e \<in> set es'. usable e}. entry_pages e)"
    using cap0 by (auto simp: pmm_used_def bitmap_ones_full)
  have "0 < bitmap_cap b" using fr(2) small by simp
  from bm.set_spec [OF this] obtain b' where b': "bitmap_set_bit b 0 = Inr b'" "bitmap_cap b' = bitmap_cap b"
      "bitmap_ones b' = insert 0 (bitmap_ones b)"
    by auto
  show ?thesis
    using host fr b'
    by (intro exI [of _ "?s0\<lparr>used_pages_count := c, pmm_bitmap := b'\<rparr>"])
      (simp add: pmm_init_def Let_def page_top_def pmm_used_def)
qed

lemma pmm_scan_entry_ge: "x \<le> pmm_scan_entry e x"
  by (auto simp: pmm_scan_entry_def Let_def intro: order_less_imp_le)

lemma pmm_scan_ge_start: "x \<le> fold pmm_scan_entry es x"
proof (induction es arbitrary: x)
  case (Cons e es)
  have "x \<le> pmm_scan_entry e x" by (rule pmm_scan_entry_ge)
  also have "\<dots> \<le> fold pmm_scan_entry es (pmm_scan_entry e x)" by (rule Cons.IH)
  finally show ?case by simp
qed simp

lemma pmm_scan_ge_usable:
  "e \<in> set es \<Longrightarrow> usable e \<Longrightarrow> mmap_base e + mmap_length e \<le> fold pmm_scan_entry es x"
proof (induction es arbitrary: x)
  case (Cons d es)
  show ?case
  proof (cases "e = d")
    case True
    have "mmap_base e + mmap_length e \<le> pmm_scan_entry e x"
      using Cons.prems(2) by (auto simp: pmm_scan_entry_def Let_def not_less)
    also have "\<dots> \<le> fold pmm_scan_entry es (pmm_scan_entry e x)" by (rule pmm_scan_ge_start)
    finally show ?thesis using True by simp
  next
    case False
    with Cons show ?thesis by simp
  qed
qed simp

text \<open>
  What stivale2 documents about usable entries: page-aligned, inside the address space and not
  overlapping one another.
\<close>

definition mmap_ok :: "stivale2_mmap_entry list \<Rightarrow> bool" where
  "mmap_ok es \<longleftrightarrow>
     (\<forall>e\<in>set es. usable e \<longrightarrow> unat (mmap_base e) mod 4096 = 0 \<and> unat (mmap_length e) mod 4096 = 0
        \<and> unat (mmap_base e) + unat (mmap_length e) < 2 ^ 64) \<and>
     (\<forall>i<length es. \<forall>j<length es. i \<noteq> j \<longrightarrow> usable (es ! i) \<longrightarrow> usable (es ! j) \<longrightarrow>
        entry_pages (es ! i) \<inter> entry_pages (es ! j) = {})"

lemma mmap_ok_disjoint:
  assumes "mmap_ok (pre @ e # post)" "usable e" "d \<in> set pre \<union> set post" "usable d"
  shows "entry_pages d \<inter> entry_pages e = {}"
proof -
  let ?es = "pre @ e # post"
  obtain i where i: "i < length ?es" "i \<noteq> length pre" "?es ! i = d"
  proof -
    from assms(3) consider "d \<in> set pre" | "d \<in> set post" by blast
    then show thesis
    proof cases
      case 1
      then obtain i where "i < length pre" "pre ! i = d" by (auto simp: in_set_conv_nth)
      with that [of i] show thesis by (simp add: nth_append)
    next
      case 2
      then obtain i where "i < length post" "post ! i = d" by (auto simp: in_set_conv_nth)
      with that [of "length pre + Suc i"] show thesis by (simp add: nth_append)
    qed
  qed
  have "?es ! length pre = e" "length pre < length ?es" by simp_all
  with i assms show ?thesis unfolding mmap_ok_def by (metis (no_types, lifting))
qed

definition host_pages :: "u64 \<Rightarrow> u64 \<Rightarrow> nat set" where
  "host_pages addr sz = {unat (HIGHER_HALF_DATA_TO_PHYS addr) div 4096..<
      unat (HIGHER_HALF_DATA_TO_PHYS addr) div 4096 + unat sz div 4096}"

lemma entry_pages_hosted:
  assumes "unat (mmap_base e) mod 4096 = 0" "unat (mmap_base e) + unat (mmap_length e) < 2 ^ 64"
    and sz: "sz \<le> mmap_length e" "unat sz mod 4096 = 0"
  shows "entry_pages (e\<lparr>mmap_base := mmap_base e + sz, mmap_length := mmap_length e - sz\<rparr>)
     = entry_pages e - host_pages (PHYS_TO_HIGHER_HALF_DATA (mmap_base e)) sz"
proof -
  have le: "unat sz \<le> unat (mmap_length e)" using sz by (simp add: word_le_nat_alt)
  have 1: "unat (mmap_base e + sz) = unat (mmap_base e) + unat sz"
    using assms le by (intro unat_add_no_wrap) simp
  have 2: "unat (mmap_length e - sz) = unat (mmap_length e) - unat sz"
    using sz by (simp add: unat_diff_le)
  obtain b where b: "unat (mmap_base e) = 4096 * b" using assms(1) by auto
  obtain k where k: "unat sz = 4096 * k" using sz(2) by auto
  have "(unat (mmap_length e) - 4096 * k) div 4096 = unat (mmap_length e) div 4096 - k"
  proof -
    obtain r where "unat (mmap_length e) = 4096 * k + r" using le k le_Suc_ex by metis
    then show ?thesis by simp
  qed
  moreover have "k \<le> unat (mmap_length e) div 4096"
    using le k by (simp add: less_eq_div_iff_mult_less_eq)
  ultimately show ?thesis
    using b k by (auto simp: entry_pages_def host_pages_def 1 2 PHYS_TO_HIGHER_HALF_DATA_def
        HIGHER_HALF_DATA_TO_PHYS_def)
qed

lemma entry_pages_below_top:
  assumes "mmap_ok es" "e \<in> set es" "usable e"
  shows "entry_pages e \<subseteq> {..<unat (fold pmm_scan_entry es x) div 4096}"
proof -
  have ok: "unat (mmap_base e) mod 4096 = 0" "unat (mmap_base e) + unat (mmap_length e) < 2 ^ 64"
    using assms by (auto simp: mmap_ok_def)
  have "unat (mmap_base e) + unat (mmap_length e) \<le> unat (fold pmm_scan_entry es x)"
    using pmm_scan_ge_usable [OF assms(2,3)] ok by (simp add: word_le_nat_alt unat_add_no_wrap)
  then have "(unat (mmap_base e) + unat (mmap_length e)) div 4096 \<le> unat (fold pmm_scan_entry es x) div 4096"
    by (rule div_le_mono)
  moreover have "(unat (mmap_base e) + unat (mmap_length e)) div 4096 =
      unat (mmap_base e) div 4096 + unat (mmap_length e) div 4096"
    using ok(1) by (simp add: div_add1_eq [of "unat (mmap_base e)"])
  ultimately show ?thesis by (auto simp: entry_pages_def)
qed

lemma pmm_init_used:
  fixes s :: "'a pmm_state_scheme"
  defines "page_top es \<equiv> fold pmm_scan_entry es (highest_page_top s)"
  assumes ok: "mmap_ok es"
    and host: "pmm_host_bitmap (pmm_bitmap_size (page_top es)) es = Some (addr, es')"
    and small: "0 < unat (pmm_bitmap_size (page_top es))" "8 * unat (pmm_bitmap_size (page_top es)) \<le> 2 ^ 31"
    and covers: "unat (page_top es) div 4096 \<le> 8 * unat (pmm_bitmap_size (page_top es))"
  shows "\<exists>t. pmm_init s es = Inr (t, es') \<and> pmm_inv t
     \<and> pmm_free_pages t = (\<Union>e\<in>{e \<in> set es. usable e}. entry_pages e)
           - host_pages (pmm_bitmap_addr t) (pmm_bitmap_size (highest_page_top t)) - {0}"
proof -
  let ?sz = "pmm_bitmap_size (page_top es)"
  have szmod: "unat ?sz mod 4096 = 0" by (simp add: unat_pmm_bitmap_size)
  obtain pre e post where es: "es = pre @ e # post" "usable e" "?sz \<le> mmap_length e"
      and addr: "addr = PHYS_TO_HIGHER_HALF_DATA (mmap_base e)"
      and es': "es' = pre @ e\<lparr>mmap_base := mmap_base e + ?sz, mmap_length := mmap_length e - ?sz\<rparr> # post"
    using pmm_host_bitmap_Some [OF host] by blast
  let ?e = "e\<lparr>mmap_base := mmap_base e + ?sz, mmap_length := mmap_length e - ?sz\<rparr>"
  have eok: "unat (mmap_base e) mod 4096 = 0" "unat (mmap_base e) + unat (mmap_length e) < 2 ^ 64"
    using ok es by (auto simp: mmap_ok_def)
  have hosted: "entry_pages ?e = entry_pages e - host_pages addr ?sz"
    unfolding addr by (rule entry_pages_hosted) (use eok es szmod in auto)
  have host_sub: "host_pages addr ?sz \<subseteq> entry_pages e"
  proof -
    have "unat ?sz div 4096 \<le> unat (mmap_length e) div 4096"
      using es(3) by (intro div_le_mono) (simp add: word_le_nat_alt)
    then show ?thesis
      by (auto simp: host_pages_def entry_pages_def addr PHYS_TO_HIGHER_HALF_DATA_def HIGHER_HALF_DATA_TO_PHYS_def)
  qed
  have others: "entry_pages d \<inter> host_pages addr ?sz = {}" if "d \<in> set pre \<union> set post" "usable d" for d
    using mmap_ok_disjoint [of pre e post d] ok es that host_sub by blast
  have union: "(\<Union>d\<in>{d \<in> set es'. usable d}. entry_pages d) =
      (\<Union>d\<in>{d \<in> set es. usable d}. entry_pages d) - host_pages addr ?sz"
  proof -
    have a: "{d \<in> set es'. usable d} = insert ?e {d \<in> set pre \<union> set post. usable d}"
      using es es' by auto
    have b: "{d \<in> set es. usable d} = insert e {d \<in> set pre \<union> set post. usable d}"
      using es by auto
    show ?thesis unfolding a b using hosted others by auto
  qed
  have below: "entry_pages d \<subseteq> {..<unat (page_top es) div 4096}" if "d \<in> set es" "usable d" for d
    unfolding page_top_def using entry_pages_below_top [OF ok that] .
  have inside: "entry_pages d \<subseteq> {..<8 * unat ?sz}" if "d \<in> set es'" "usable d" for d
  proof -
    have "entry_pages d \<subseteq> (\<Union>d\<in>{d \<in> set es. usable d}. entry_pages d)"
      using that union by blast
    with below covers show ?thesis by (fastforce simp: subset_eq)
  qed
  from pmm_init_spec [of es s, folded page_top_def, OF host small inside] obtain t where
    t: "pmm_init s es = Inr (t, es')" "highest_page_top t = page_top es" "pmm_bitmap_addr t = addr"
      "bitmap_cap (pmm_bitmap t) = 8 * unat ?sz"
      "pmm_used t = insert 0 ({..<8 * unat ?sz} - (\<Union>d\<in>{d \<in> set es'. usable d}. entry_pages d))"
    by blast
  have "pmm_inv t" using t small covers by (auto simp: pmm_inv_def pmm_pages_def)
  moreover have "pmm_free_pages t = (\<Union>d\<in>{d \<in> set es'. usable d}. entry_pages d) - {0}"
  proof -
    have gen: "{j. j < n \<and> j \<notin> insert 0 ({..<m} - U)} = U - {0}" if "n \<le> m" "U \<subseteq> {..<n}" for n m and U :: "nat set"
      using that by auto
    have "(\<Union>d\<in>{d \<in> set es'. usable d}. entry_pages d) \<subseteq> {..<unat (page_top es) div 4096}"
      using union below by blast
    from gen [OF covers this] show ?thesis
      by (simp only: pmm_free_pages_def pmm_pages_def t)
  qed
  ultimately show ?thesis using t union by auto
qed

section \<open>The page counter after pmm_init\<close>

definition usable_sizes :: "stivale2_mmap_entry list \<Rightarrow> nat list" where
  "usable_sizes es = map (\<lambda>e. unat (mmap_length e) div 4096) (filter usable es)"

lemma pmm_free_entries_count:
  "rfold pmm_free_entry es s = Inr t \<Longrightarrow> used_pages_count t = used_pages_count s - of_nat (sum_list (usable_sizes es))
     \<and> kmem t = kmem s \<and> highest_page_top t = highest_page_top s \<and> pmm_bitmap_addr t = pmm_bitmap_addr s"
proof (induction es arbitrary: s)
  case Nil
  then show ?case by (simp add: usable_sizes_def)
next
  case (Cons e es)
  then obtain u where u: "pmm_free_entry e s = Inr u" "rfold pmm_free_entry es u = Inr t" by (auto simp: rbind_eq_Inr)
  have "(of_nat (unat (mmap_length e) div 4096) :: u64) = mmap_length e div 4096"
    by (simp add: word_unat_eq_iff unat_div unat_of_nat div_le_dividend [THEN order.strict_trans1, OF unat_u64_less])
  with u(1) have "used_pages_count u = used_pages_count s - of_nat (sum_list (usable_sizes [e]))" "kmem u = kmem s" "highest_page_top u = highest_page_top s"
      "pmm_bitmap_addr u = pmm_bitmap_addr s"
    by (auto simp: pmm_free_entry_def pmm_free_def Let_def rbind_eq_Inr usable_sizes_def split: if_splits)
  with Cons.IH [OF u(2)] show ?case by (simp add: usable_sizes_def)
qed

lemma card_entry_pages: "card (entry_pages e) = unat (mmap_length e) div 4096"
  by (simp add: entry_pages_def)

lemma mmap_ok_Cons: "mmap_ok (e # es) \<Longrightarrow> mmap_ok es"
proof -
  assume ok: "mmap_ok (e # es)"
  have "entry_pages (es ! i) \<inter> entry_pages (es ! j) = {}"
    if "i < length es" "j < length es" "i \<noteq> j" "usable (es ! i)" "usable (es ! j)" for i j
    using conjunct2 [OF ok [unfolded mmap_ok_def], rule_format, of "Suc i" "Suc j"] that by simp
  then show ?thesis using ok by (simp add: mmap_ok_def)
qed

lemma usable_sizes_card:
  "mmap_ok es \<Longrightarrow> sum_list (usable_sizes es) = card (\<Union>e\<in>{e \<in> set es. usable e}. entry_pages e)"
proof (induction es)
  case Nil
  then show ?case by (simp add: usable_sizes_def)
next
  case (Cons e es)
  note IH = Cons.IH [OF mmap_ok_Cons [OF Cons.prems]]
  show ?case
  proof (cases "usable e")
    case True
    have dis: "entry_pages e \<inter> (\<Union>e\<in>{e \<in> set es. usable e}. entry_pages e) = {}"
      using mmap_ok_disjoint [of "[]" e es] Cons.prems True by auto
    have un: "{d \<in> set (e # es). usable d} = insert e {d \<in> set es. usable d}" using True by auto
    have "card (\<Union>d\<in>{d \<in> set (e # es). usable d}. entry_pages d)
        = card (entry_pages e) + card (\<Union>d\<in>{d \<in> set es. usable d}. entry_pages d)"
      unfolding un using dis by (subst UN_insert, subst card_Un_disjoint) (auto simp: entry_pages_def)
    then show ?thesis using IH True by (simp add: usable_sizes_def card_entry_pages)
  next
    case False
    then have "{d \<in> set (e # es). usable d} = {d \<in> set es. usable d}" by auto
    then show ?thesis using IH False by (simp add: usable_sizes_def)
  qed
qed

lemma pmm_init_wf:
  fixes s :: "'a pmm_state_scheme"
  defines "page_top es \<equiv> fold pmm_scan_entry es (highest_page_top s)"
  assumes ok: "mmap_ok es"
    and host: "pmm_host_bitmap (pmm_bitmap_size (page_top es)) es = Some (addr, es')"
    and small: "0 < unat (pmm_bitmap_size (page_top es))" "8 * unat (pmm_bitmap_size (page_top es)) \<le> 2 ^ 31"
    and covers: "unat (page_top es) div 4096 \<le> 8 * unat (pmm_bitmap_size (page_top es))"
  shows "\<exists>t. pmm_init s es = Inr (t, es') \<and> pmm_wf t \<and> kmem t = kmem s \<and> pmm_bitmap_addr t = addr \<and> highest_page_top t = page_top es
     \<and> pmm_free_pages t = (\<Union>e\<in>{e \<in> set es. usable e}. entry_pages e) - host_pages addr (pmm_bitmap_size (page_top es)) - {0}"
proof -
  let ?sz = "pmm_bitmap_size (page_top es)" and ?n = "unat (page_top es) div 4096" and ?m = "sum_list (usable_sizes es')"
  obtain t where t: "pmm_init s es = Inr (t, es')" "pmm_inv t" "pmm_free_pages t = (\<Union>e\<in>{e \<in> set es. usable e}. entry_pages e)
           - host_pages (pmm_bitmap_addr t) (pmm_bitmap_size (highest_page_top t)) - {0}"
    using pmm_init_used [of es s, folded page_top_def, OF ok host small covers] by blast
  obtain u b where u: "rfold pmm_free_entry es' (s\<lparr>highest_page_top := page_top es, used_pages_count := KB_TO_PAGES (page_top es),
      pmm_bitmap := \<lparr>bm_map = replicate (unat ?sz) 0xFF, bm_size = ?sz\<rparr>, pmm_bitmap_addr := addr\<rparr>) = Inr u"
      "t = u\<lparr>pmm_bitmap := b\<rparr>"
    using t(1) host by (auto simp: pmm_init_def Let_def page_top_def rbind_eq_Inr)
  from pmm_free_entries_count [OF u(1)] u(2) have cnt: "used_pages_count t = KB_TO_PAGES (page_top es) - of_nat ?m" "kmem t = kmem s"
      and at: "highest_page_top t = page_top es" "pmm_bitmap_addr t = addr"
    by simp_all
  then have pages: "pmm_pages t = ?n" by (simp add: pmm_pages_def)
  have n: "?n \<le> 2 ^ 31" using covers small(2) by linarith
  have "?m \<le> sum_list (usable_sizes es)"
    using pmm_host_bitmap_Some [OF host] by (auto simp: usable_sizes_def unat_diff_le div_le_mono)
  also have "\<dots> \<le> card {..<?n}"
    unfolding usable_sizes_card [OF ok] using entry_pages_below_top [OF ok] by (intro card_mono) (auto simp: page_top_def)
  finally have m: "?m \<le> ?n" by simp
  have kb: "unat (KB_TO_PAGES (page_top es)) = unat (page_top es) div 4"
  proof -
    have "unat (page_top es) < 2 ^ 54"
      using n div_mult_mod_eq [of "unat (page_top es)" 4096] mod_less_divisor [of 4096 "unat (page_top es)"] by simp
    then have "unat (page_top es * 1024) = unat (page_top es) * 1024" by (simp add: unat_word_ariths)
    then show ?thesis by (simp add: KB_TO_PAGES_def unat_div)
  qed
  have four: "1024 * ?n \<le> unat (page_top es) div 4" by (simp add: div_mult2_eq [of _ 4 1024, symmetric])
  have "unat (used_pages_count t) = unat (page_top es) div 4 - ?m"
  proof -
    have m': "unat (of_nat ?m :: u64) = ?m" using m n by (simp add: unat_of_nat)
    have "(of_nat ?m :: u64) \<le> KB_TO_PAGES (page_top es)" unfolding word_le_nat_alt m' kb using m four by linarith
    then show ?thesis unfolding cnt(1) by (simp only: unat_sub kb m')
  qed
  moreover have "card (pmm_used t \<inter> {..<pmm_pages t}) \<le> ?n" using pages card_mono [of "{..<?n}"] by fastforce
  moreover have "card (pmm_free_pages t) \<le> ?n" using pages card_mono [of "{..<?n}" "pmm_free_pages t"] by (auto simp: pmm_free_pages_def)
  moreover have "unat (page_top es) div 4 < 4611686018427387904" "?n \<le> 2147483648" using unat_u64_less [of "page_top es"] n by simp_all
  ultimately have "card (pmm_used t \<inter> {..<pmm_pages t}) \<le> unat (used_pages_count t)"
    "unat (used_pages_count t) + card (pmm_free_pages t) < 18446744073709551616"
    using four m by linarith+
  then have "pmm_counter_ok t" by (simp add: pmm_counter_ok_def)
  then show ?thesis using t cnt(2) at by (auto simp: pmm_wf_def)
qed

section \<open>Evaluation\<close>

lemma bitmap_ones_code [code]:
  "bitmap_ones b = set (filter (\<lambda>i. bit (bm_map b ! (i div 8)) (i mod 8)) [0..<bitmap_cap b])"
  by (auto simp: bitmap_ones_def)

lemma pmm_free_pages_code [code]:
  "pmm_free_pages s = set (filter (\<lambda>j. j \<notin> pmm_used s) [0..<pmm_pages s])"
  by (auto simp: pmm_free_pages_def)

text \<open>A machine of eight pages of which pages 0 and 2 are in use.\<close>

definition eight_pages :: pmm_state where
  "eight_pages = \<lparr>kmem = (\<lambda>_. 0), pmm_bitmap = \<lparr>bm_map = [0x05], bm_size = 1\<rparr>, pmm_bitmap_addr = 0,
     highest_page_top = 8 * 4096, used_pages_count = 8\<rparr>"

lemma eight_pages_cap: "pmm_pages eight_pages = 8" "bitmap_cap (pmm_bitmap eight_pages) = 8"
  "used_pages_count eight_pages = 8"
  by (simp_all add: eight_pages_def pmm_pages_def bitmap_cap_def)

lemma upto_eight: "[0..<8] = [0, 1, 2, 3, 4, 5, 6, 7 :: nat]"
  by (simp add: upt_conv_Cons)

lemma eight_pages_used: "pmm_used eight_pages = {0, 2}"
  by (simp add: pmm_used_def bitmap_ones_code eight_pages_cap upto_eight) (simp add: eight_pages_def)

lemma eight_pages_free: "pmm_free_pages eight_pages = {1, 3, 4, 5, 6, 7}"
  by (simp add: pmm_free_pages_code eight_pages_used eight_pages_cap upto_eight)

lemma eight_pages_wf: "pmm_wf eight_pages"
proof -
  have "{0, 2} \<inter> {..<8 :: nat} = {0, 2}" by auto
  then show ?thesis
    by (simp add: pmm_wf_def pmm_inv_def pmm_counter_ok_def eight_pages_used eight_pages_free eight_pages_cap)
qed

section \<open>Properties\<close>

text \<open>C2. \<open>pmm_alloc(1)\<close> is first fit: with a page available it returns the address of the lowest
  free page (page-aligned, never \<open>NULL\<close>), marks exactly that page used, leaves memory alone and
  keeps the allocator well formed.\<close>

theorem pmm_alloc_first_fit:
  assumes "pmm_wf s" and "pmm_free_pages s \<noteq> {}"
  shows "\<exists>p t. pmm_alloc s 1 = Inr (p, t) \<and> p \<noteq> 0 \<and> unat p = 4096 * Min (pmm_free_pages s)
     \<and> pmm_used t = insert (Min (pmm_free_pages s)) (pmm_used s)
     \<and> pmm_free_pages t = pmm_free_pages s - {Min (pmm_free_pages s)}
     \<and> kmem t = kmem s \<and> pmm_wf t"
proof -
  have min: "Min (pmm_free_pages s) \<in> pmm_free_pages s" using assms(2) by (simp add: Min_in)
  obtain b where b: "pmm_alloc s 1 = Inr (page_addr (Min (pmm_free_pages s)),
        s\<lparr>pmm_bitmap := b, used_pages_count := used_pages_count s + 1\<rparr>)"
      "bitmap_cap b = bitmap_cap (pmm_bitmap s)" "bitmap_ones b = insert (Min (pmm_free_pages s)) (pmm_used s)"
    using pmm_alloc_one [OF assms] by blast
  from b pmm_wf_take [OF assms(1) min b(2,3)] pg.page_addr_avail [OF assms(1) min] show ?thesis
    by (intro exI conjI) (simp_all add: mult.commute)
qed

theorem pmm_alloc_first_fit_witness:
  "\<exists>p t. pmm_alloc eight_pages 1 = Inr (p, t) \<and> p \<noteq> 0 \<and> unat p = 4096 * Min (pmm_free_pages eight_pages)
     \<and> pmm_used t = insert (Min (pmm_free_pages eight_pages)) (pmm_used eight_pages)
     \<and> pmm_free_pages t = pmm_free_pages eight_pages - {Min (pmm_free_pages eight_pages)}
     \<and> kmem t = kmem eight_pages \<and> pmm_wf t"
  by (rule pmm_alloc_first_fit [OF eight_pages_wf]) (simp add: eight_pages_free)

text \<open>C14. Successive single-page allocations never hand out a page twice: while enough pages are
  free, \<open>n\<close> calls of \<open>pmm_allocz(1)\<close> return \<open>n\<close> distinct page-aligned addresses of pages that were
  free, and those pages are no longer free.\<close>

theorem pmm_allocz_distinct:
  assumes "pmm_wf s" and "n \<le> card (pmm_free_pages s)"
  shows "\<exists>ps t. alloc_seq (\<lambda>s. pmm_allocz s 1) n s = Inr (ps, t) \<and> pmm_wf t \<and> length ps = n \<and> distinct ps
    \<and> (\<forall>p\<in>set ps. p \<noteq> 0 \<and> unat p mod 4096 = 0 \<and> unat p div 4096 \<in> pmm_free_pages s)
    \<and> pmm_free_pages t = pmm_free_pages s - (\<lambda>p. unat p div 4096) ` set ps"
  using assms by (rule pg.alloc_run)

theorem pmm_allocz_distinct_witness:
  "\<exists>ps t. alloc_seq (\<lambda>s. pmm_allocz s 1) 3 eight_pages = Inr (ps, t) \<and> pmm_wf t \<and> length ps = 3 \<and> distinct ps
    \<and> (\<forall>p\<in>set ps. p \<noteq> 0 \<and> unat p mod 4096 = 0 \<and> unat p div 4096 \<in> pmm_free_pages eight_pages)
    \<and> pmm_free_pages t = pmm_free_pages eight_pages - (\<lambda>p. unat p div 4096) ` set ps"
  by (rule pmm_allocz_distinct [OF eight_pages_wf]) (simp add: eight_pages_free)

text \<open>C12. Round trip: the page \<open>pmm_allocz(1)\<close> returns can be given back with \<open>pmm_free\<close>, after which
  the same pages are free as before and the allocator is well formed.\<close>

theorem pmm_allocz_free_roundtrip:
  assumes "pmm_wf s" and "pmm_free_pages s \<noteq> {}"
  shows "\<exists>p t u. pmm_allocz s 1 = Inr (p, t) \<and> pmm_free t p 1 = Inr u \<and> pmm_wf u
    \<and> pmm_free_pages u = pmm_free_pages s"
  using assms by (rule pg.alloc_free_cancel)

theorem pmm_allocz_free_roundtrip_witness:
  "\<exists>p t u. pmm_allocz eight_pages 1 = Inr (p, t) \<and> pmm_free t p 1 = Inr u \<and> pmm_wf u
    \<and> pmm_free_pages u = pmm_free_pages eight_pages"
  by (rule pmm_allocz_free_roundtrip [OF eight_pages_wf]) (simp add: eight_pages_free)

text \<open>C18. \<open>pmm_init\<close> on a memory map whose usable entries are page-aligned and disjoint (as stivale2
  documents) and whose bitmap fits: it succeeds, the allocator is well formed with its counter, no
  other memory is written, and exactly the pages of usable entries are free, without those that
  hold the bitmap itself and without page 0.\<close>

theorem pmm_init_frees_usable:
  assumes "mmap_ok es"
    and "pmm_host_bitmap (pmm_bitmap_size (fold pmm_scan_entry es (highest_page_top s))) es = Some (addr, es')"
    and "0 < unat (pmm_bitmap_size (fold pmm_scan_entry es (highest_page_top s)))"
    and "8 * unat (pmm_bitmap_size (fold pmm_scan_entry es (highest_page_top s))) \<le> 2 ^ 31"
    and "unat (fold pmm_scan_entry es (highest_page_top s)) div 4096
       \<le> 8 * unat (pmm_bitmap_size (fold pmm_scan_entry es (highest_page_top s)))"
  shows "\<exists>t. pmm_init s es = Inr (t, es') \<and> pmm_wf t \<and> kmem t = kmem s
     \<and> pmm_free_pages t = (\<Union>e\<in>{e \<in> set es. usable e}. entry_pages e)
           - host_pages (pmm_bitmap_addr t) (pmm_bitmap_size (highest_page_top t)) - {0}"
  using pmm_init_wf [OF assms] by auto

definition example_map :: "stivale2_mmap_entry list" where
  "example_map = [\<lparr>mmap_base = 0, mmap_length = 0x9F000, mmap_type = 1\<rparr>,
     \<lparr>mmap_base = 0x9F000, mmap_length = 0x61000, mmap_type = 2\<rparr>,
     \<lparr>mmap_base = 0x100000, mmap_length = 0x700000, mmap_type = 1\<rparr>]"

theorem pmm_init_frees_usable_witness:
  "\<exists>t. pmm_init eight_pages example_map =
       Inr (t, \<lparr>mmap_base = 0x1000, mmap_length = 0x9E000, mmap_type = 1\<rparr> # tl example_map) \<and> pmm_wf t \<and> kmem t = kmem eight_pages
     \<and> pmm_free_pages t = (\<Union>e\<in>{e \<in> set example_map. usable e}. entry_pages e)
           - host_pages (pmm_bitmap_addr t) (pmm_bitmap_size (highest_page_top t)) - {0}"
proof (rule pmm_init_frees_usable)
  have scan: "fold pmm_scan_entry example_map (highest_page_top eight_pages) = 0x800000"
    by (simp add: example_map_def pmm_scan_entry_def eight_pages_def)
  have sz: "pmm_bitmap_size 0x800000 = 4096"
    by (simp add: pmm_bitmap_size_def ALIGN_DOWN_def ALIGN_UP_def)
  show "mmap_ok example_map"
    by (simp add: mmap_ok_def example_map_def entry_pages_def All_less_Suc numeral_3_eq_3)
  show "pmm_host_bitmap (pmm_bitmap_size (fold pmm_scan_entry example_map (highest_page_top eight_pages))) example_map
      = Some (PHYS_TO_HIGHER_HALF_DATA 0, \<lparr>mmap_base = 0x1000, mmap_length = 0x9E000, mmap_type = 1\<rparr> # tl example_map)"
    unfolding scan sz by (simp add: example_map_def)
  show "0 < unat (pmm_bitmap_size (fold pmm_scan_entry example_map (highest_page_top eight_pages)))"
    "8 * unat (pmm_bitmap_size (fold pmm_scan_entry example_map (highest_page_top eight_pages))) \<le> 2 ^ 31"
    "unat (fold pmm_scan_entry example_map (highest_page_top eight_pages)) div 4096
       \<le> 8 * unat (pmm_bitmap_size (fold pmm_scan_entry example_map (highest_page_top eight_pages)))"
    unfolding scan sz by simp_all
qed

text \<open>C19. The bitmap \<open>pmm_init\<close> sizes covers every page of memory unless the number of pages is a
  multiple of 32768 plus one to seven: there the division by 8 drops the last partial byte.\<close>

theorem pmm_bitmap_size_covers:
  "unat x div 4096 \<le> 8 * unat (pmm_bitmap_size x) \<longleftrightarrow>
     \<not> (unat x div 4096 div 8 mod 4096 = 0 \<and> unat x div 4096 mod 8 \<noteq> 0)"
  by (rule pmm_bitmap_covers_iff)

text \<open>For requests of one to 4096 pages the search tests a single bit per candidate: it returns the
  same page as the search for one page, whatever follows that page.\<close>

theorem pmm_find_ignores_page_count:
  assumes "pmm_inv s" and "0 < unat n" and "unat n \<le> 4096"
  shows "pmm_find_first_free_page_range s n = pmm_find_first_free_page_range s 1"
  using pmm_find_spec [OF assms] pmm_find_spec [OF assms(1), of 1] by simp

theorem pmm_find_ignores_page_count_witness:
  "pmm_find_first_free_page_range eight_pages 3 = pmm_find_first_free_page_range eight_pages 1"
  by (rule pmm_find_ignores_page_count) (use eight_pages_wf in \<open>simp_all add: pmm_wf_def\<close>)

text \<open>C20. A request for several pages is answered with the first free page, whatever follows it. When page
  \<open>j\<close> is in use and lies behind the first free page and inside the requested length, \<open>pmm_alloc\<close> succeeds
  with a block that contains page \<open>j\<close>, which its owner still has; and when the new owner gives the block back,
  \<open>pmm_free\<close> marks page \<open>j\<close> free while it is still in use.\<close>

theorem pmm_alloc_overlap:
  assumes "pmm_wf s" and "unat n \<le> 4096" and "pmm_free_pages s \<noteq> {}"
    and "Min (pmm_free_pages s) + unat n \<le> bitmap_cap (pmm_bitmap s)"
    and "j \<in> pmm_used s" and "j < pmm_pages s"
    and "Min (pmm_free_pages s) < j" and "j < Min (pmm_free_pages s) + unat n"
  shows "\<exists>p t u. pmm_alloc s n = Inr (p, t) \<and> p \<noteq> 0 \<and> p < page_addr j \<and> unat (page_addr j) + 4096 \<le> unat p + 4096 * unat n
    \<and> pmm_used t = pmm_used s \<union> {Min (pmm_free_pages s)..<Min (pmm_free_pages s) + unat n}
    \<and> pmm_free t p n = Inr u \<and> j \<in> pmm_free_pages u"
proof -
  define f where "f = Min (pmm_free_pages s)"
  have inv: "pmm_inv s" using assms(1) by (simp add: pmm_wf_def)
  have f: "0 < f" "f < 2 ^ 52"
    unfolding f_def using free_pageD [OF inv Min_in [OF finite_free_pages assms(3)]] by blast+
  have n: "0 < unat n" using assms(7,8) by linarith
  note cap = assms(4) [folded f_def]
  have j: "j < 2 ^ 52" "f < j" "j < f + unat n" using assms(6-8) pmm_pages_less [of s] by (auto simp: f_def)
  from pmm_alloc_found [OF inv n assms(2) pmm_wf_counter_pos [OF assms(1,3)] assms(3,4), folded f_def]
  obtain b where b: "pmm_alloc s n = Inr (page_addr f, s\<lparr>pmm_bitmap := b, used_pages_count := used_pages_count s + n\<rparr>)"
      "bitmap_cap b = bitmap_cap (pmm_bitmap s)" "bitmap_ones b = pmm_used s \<union> {f..<f + unat n}"
    by blast
  let ?t = "s\<lparr>pmm_bitmap := b, used_pages_count := used_pages_count s + n\<rparr>"
  have "\<exists>b'. pmm_free ?t (page_addr f) n = Inr (?t\<lparr>pmm_bitmap := b', used_pages_count := used_pages_count ?t - n\<rparr>)
      \<and> bitmap_cap b' = bitmap_cap (pmm_bitmap ?t) \<and> bitmap_ones b' = pmm_used ?t - {f..<f + unat n}"
    using pmm_free_range [of ?t "page_addr f" n] inv b(2) cap f by (simp add: unat_page_addr pmm_inv_def)
  then obtain u where u: "pmm_free ?t (page_addr f) n = Inr u" "j \<in> pmm_free_pages u"
    using assms(6) j by auto
  have "page_addr f \<noteq> 0" "page_addr f < page_addr j" "unat (page_addr j) + 4096 \<le> unat (page_addr f) + 4096 * unat n"
    using f j by (simp_all add: page_addr_eq_0 word_less_nat_alt unat_page_addr)
  moreover have "pmm_used ?t = pmm_used s \<union> {f..<f + unat n}" using b(3) by simp
  ultimately show ?thesis using b(1) u unfolding f_def [symmetric] by blast
qed

theorem pmm_alloc_overlap_witness:
  "2 \<in> pmm_used eight_pages \<and> (\<exists>p t u. pmm_alloc eight_pages 2 = Inr (p, t) \<and> p < page_addr 2
     \<and> unat (page_addr 2) + 4096 \<le> unat p + 8192 \<and> pmm_free t p 2 = Inr u \<and> 2 \<in> pmm_free_pages u)"
proof -
  have "\<exists>p t u. pmm_alloc eight_pages 2 = Inr (p, t) \<and> p \<noteq> 0 \<and> p < page_addr 2
      \<and> unat (page_addr 2) + 4096 \<le> unat p + 4096 * unat (2 :: u64)
      \<and> pmm_used t = pmm_used eight_pages \<union> {Min (pmm_free_pages eight_pages)..<Min (pmm_free_pages eight_pages) + unat (2 :: u64)}
      \<and> pmm_free t p 2 = Inr u \<and> 2 \<in> pmm_free_pages u"
    by (rule pmm_alloc_overlap [OF eight_pages_wf]) (simp_all add: eight_pages_free eight_pages_cap eight_pages_used)
  then show ?thesis by (auto simp: eight_pages_used)
qed

text \<open>A request that runs past the end of the bitmap is an access outside it: nothing stops
  \<open>pmm_alloc\<close> from choosing a first page too close to the top.\<close>

theorem pmm_alloc_past_end:
  assumes "pmm_inv s" and "unat n \<le> 4096" and "used_pages_count s \<noteq> 0" and "pmm_free_pages s \<noteq> {}"
    and "bitmap_cap (pmm_bitmap s) < Min (pmm_free_pages s) + unat n"
  shows "pmm_alloc s n = Inl Out_Of_Bounds"
proof -
  define j where "j = Min (pmm_free_pages s)"
  define c where "c = bitmap_cap (pmm_bitmap s)"
  have j: "0 < j" "j < 2 ^ 52" "j < c"
    unfolding j_def c_def using free_pageD [OF assms(1) Min_in [OF finite_free_pages assms(4)]] by blast+
  have n: "0 < unat n" using assms(5) j unfolding j_def c_def by linarith
  have c: "c \<le> 2 ^ 31" using assms(1) by (simp add: pmm_inv_def c_def)
  have "rfold (\<lambda>i b. bitmap_set_bit b (c_int (of_nat j + of_nat i))) [0..<unat n] (pmm_bitmap s) = Inl Out_Of_Bounds"
  proof (rule bm.set_loop_oob, fold c_def)
    show "c_int (of_nat j + of_nat k) = int (j + k)" if "j + k < c" for k
      using c_int_of_nat [of "j + k"] that c by simp
    show "j \<le> c" "c < j + unat n" using j assms(5) by (auto simp: j_def c_def)
    have "c_int (of_nat c) < 0 \<or> int c \<le> c_int (of_nat c)"
    proof (cases "c = 2 ^ 31")
      case True
      then show ?thesis by (simp add: c_int_def)
    next
      case False
      with c show ?thesis by (simp add: c_int_of_nat)
    qed
    moreover have "(of_nat j + of_nat (c - j) :: u64) = of_nat c"
      using j by (simp flip: of_nat_add)
    ultimately show "c_int (of_nat j + of_nat (c - j)) < 0 \<or> int c \<le> c_int (of_nat j + of_nat (c - j))"
      by simp
  qed
  then show ?thesis
    using j assms(3,4) pmm_find_spec [OF assms(1) n assms(2)] unfolding j_def [symmetric]
    by (simp add: pmm_alloc_def Let_def PAGE_TO_BIT_page_addr page_addr_eq_0)
qed

theorem pmm_alloc_past_end_witness:
  "pmm_alloc eight_pages 8 = Inl Out_Of_Bounds"
  by (rule pmm_alloc_past_end)
    (use eight_pages_wf in \<open>simp_all add: pmm_wf_def eight_pages_cap eight_pages_free\<close>)

end
