(* ===== verification/VMM.thy ===== *)
theory VMM
  imports PMM
begin

text \<open>
  \<open>memory/virtual/vmm.c\<close> and \<open>enable_pat\<close> of \<open>hardware/cpu.h\<close>: four-level page tables built in
  pages of the frame allocator. The state adds the root table, the \<open>CR3\<close> register, the model
  specific registers and the record of TLB flushes to the allocator's state.
\<close>

record vmm_state = pmm_state +
  root_page_table :: u64
  cr3 :: u64
  msrs :: "u32 \<Rightarrow> u64"
  tlb_flushes :: "u64 list"

section \<open>Where a kernel pointer points\<close>

text \<open>
  The kernel runs with physical memory visible at 0, at \<open>HIGHER_HALF_DATA\<close>, at
  \<open>HEAP_START_ADDR\<close> and at \<open>HIGHER_HALF_CODE\<close> (the bootloader's map has the first two and the
  last, \<open>vmm_init\<close> installs all four). \<open>kaddr\<close> is the physical byte behind a pointer.
\<close>

definition kaddr :: "u64 \<Rightarrow> u64" where
  "kaddr a = (if HIGHER_HALF_CODE \<le> a then HIGHER_HALF_CODE_TO_PHYS a
     else if HEAP_START_ADDR \<le> a then a - HEAP_START_ADDR
     else if HIGHER_HALF_DATA \<le> a then HIGHER_HALF_DATA_TO_PHYS a
     else a)"

section \<open>Page attribute table\<close>

datatype pat_cache_t = PAT_UNCACHEABLE | PAT_WRITE_COMBINING | PAT_WRITE_THROUGH
  | PAT_WRITE_PROTECTED | PAT_WRITE_BACK | PAT_UNCACHED

fun pat_cache_value :: "pat_cache_t \<Rightarrow> u64" where
  "pat_cache_value PAT_UNCACHEABLE = 0"
| "pat_cache_value PAT_WRITE_COMBINING = 1"
| "pat_cache_value PAT_WRITE_THROUGH = 4"
| "pat_cache_value PAT_WRITE_PROTECTED = 5"
| "pat_cache_value PAT_WRITE_BACK = 6"
| "pat_cache_value PAT_UNCACHED = 7"

definition asm_wrmsr :: "u32 \<Rightarrow> u64 \<Rightarrow> 'a vmm_state_scheme \<Rightarrow> 'a vmm_state_scheme" where
  "asm_wrmsr msr value s =
     (let rax = ucast (ucast value :: u32); rdx = drop_bit 32 value
      in s\<lparr>msrs := (msrs s)(msr := push_bit 32 rdx OR rax)\<rparr>)"

definition asm_rdmsr :: "u32 \<Rightarrow> 'a vmm_state_scheme \<Rightarrow> u64" where
  "asm_rdmsr msr s =
     (let rax = msrs s msr AND mask 32; rdx = drop_bit 32 (msrs s msr)
      in push_bit 32 rdx OR rax)"

definition custom_pat_config :: u64 where
  "custom_pat_config =
     pat_cache_value PAT_UNCACHEABLE OR push_bit 8 (pat_cache_value PAT_WRITE_COMBINING)
     OR push_bit 32 (pat_cache_value PAT_WRITE_THROUGH) OR push_bit 40 (pat_cache_value PAT_WRITE_PROTECTED)
     OR push_bit 48 (pat_cache_value PAT_WRITE_BACK) OR push_bit 56 (pat_cache_value PAT_UNCACHED)"

definition enable_pat :: "'a vmm_state_scheme \<Rightarrow> 'a vmm_state_scheme" where
  "enable_pat s = asm_wrmsr 0x277 custom_pat_config s"

abbreviation (input) PTE_PRESENT :: u64 where "PTE_PRESENT \<equiv> 0x1"
abbreviation (input) PTE_READ_WRITE :: u64 where "PTE_READ_WRITE \<equiv> 0x2"
abbreviation (input) PTE_USER_SUPERVISOR :: u64 where "PTE_USER_SUPERVISOR \<equiv> 0x4"
abbreviation (input) PTE_WRITE_THROUGH :: u64 where "PTE_WRITE_THROUGH \<equiv> 0x8"
abbreviation (input) PTE_CACHE_DISABLED :: u64 where "PTE_CACHE_DISABLED \<equiv> 0x10"
abbreviation (input) PTE_PAT :: u64 where "PTE_PAT \<equiv> 0x80"

datatype vmm_map_privilege_t = KERNEL_READ | KERNEL_READ_WRITE | USER_READ | USER_READ_WRITE

fun privilege_flags :: "vmm_map_privilege_t \<Rightarrow> u64" where
  "privilege_flags KERNEL_READ = PTE_PRESENT"
| "privilege_flags KERNEL_READ_WRITE = PTE_PRESENT OR PTE_READ_WRITE"
| "privilege_flags USER_READ = PTE_PRESENT OR PTE_USER_SUPERVISOR"
| "privilege_flags USER_READ_WRITE = PTE_PRESENT OR PTE_READ_WRITE OR PTE_USER_SUPERVISOR"

fun vmm_pat_cache_to_flags :: "pat_cache_t \<Rightarrow> u64" where
  "vmm_pat_cache_to_flags PAT_UNCACHEABLE = 0"
| "vmm_pat_cache_to_flags PAT_WRITE_COMBINING = PTE_WRITE_THROUGH"
| "vmm_pat_cache_to_flags PAT_WRITE_THROUGH = PTE_PAT"
| "vmm_pat_cache_to_flags PAT_WRITE_PROTECTED = PTE_PAT OR PTE_WRITE_THROUGH"
| "vmm_pat_cache_to_flags PAT_WRITE_BACK = PTE_PAT OR PTE_CACHE_DISABLED"
| "vmm_pat_cache_to_flags PAT_UNCACHED = PTE_PAT OR PTE_CACHE_DISABLED OR PTE_WRITE_THROUGH"

section \<open>Page tables\<close>

definition vmm_get_or_create_pml ::
  "'a vmm_state_scheme \<Rightarrow> u64 \<Rightarrow> u64 \<Rightarrow> u64 \<Rightarrow> (u64 \<times> 'a vmm_state_scheme) result" where
  "vmm_get_or_create_pml s pml pml_index flags =
     (let slot = kaddr (pml + 8 * pml_index) in
      rbind (if load64 (kmem s) slot AND 1 = 0
             then rbind (pmm_allocz s 1) (\<lambda>(p, s).
               Inr (s\<lparr>kmem := store64 (kmem s) slot (p OR flags)\<rparr>))
             else Inr s) (\<lambda>s.
        Inr (load64 (kmem s) slot AND NOT 511, s)))"

definition asm_invlpg :: "u64 \<Rightarrow> 'a vmm_state_scheme \<Rightarrow> 'a vmm_state_scheme" where
  [simp]: "asm_invlpg address s = s\<lparr>tlb_flushes := address # tlb_flushes s\<rparr>"

definition vmm_flush_tlb :: "u64 \<Rightarrow> 'a vmm_state_scheme \<Rightarrow> 'a vmm_state_scheme" where
  "vmm_flush_tlb address s = asm_invlpg address s"

definition pml4_index :: "u64 \<Rightarrow> u64" where "pml4_index v = drop_bit 39 (v AND push_bit 39 0x1ff)"
definition pdpt_index :: "u64 \<Rightarrow> u64" where "pdpt_index v = drop_bit 30 (v AND push_bit 30 0x1ff)"
definition pd_index :: "u64 \<Rightarrow> u64" where "pd_index v = drop_bit 21 (v AND push_bit 21 0x1ff)"
definition pt_index :: "u64 \<Rightarrow> u64" where "pt_index v = drop_bit 12 (v AND push_bit 12 0x1ff)"

definition vmm_set_pt_value ::
  "'a vmm_state_scheme \<Rightarrow> u64 \<Rightarrow> u64 \<Rightarrow> u64 \<Rightarrow> u64 \<Rightarrow> pat_cache_t \<Rightarrow> 'a vmm_state_scheme result" where
  "vmm_set_pt_value s page_table virt_page pt_value flags pat_type =
     rbind (vmm_get_or_create_pml s page_table (pml4_index virt_page) flags) (\<lambda>(pdpt, s).
     rbind (vmm_get_or_create_pml s pdpt (pdpt_index virt_page) flags) (\<lambda>(pd, s).
     rbind (vmm_get_or_create_pml s pd (pd_index virt_page) flags) (\<lambda>(pt, s).
       Inr (vmm_flush_tlb virt_page
         (s\<lparr>kmem := store64 (kmem s) (kaddr (pt + 8 * pt_index virt_page))
              (pt_value OR flags OR vmm_pat_cache_to_flags pat_type)\<rparr>)))))"

definition vmm_map_page ::
  "'a vmm_state_scheme \<Rightarrow> u64 \<Rightarrow> u64 \<Rightarrow> u64 \<Rightarrow> u64 \<Rightarrow> pat_cache_t \<Rightarrow> 'a vmm_state_scheme result" where
  "vmm_map_page s page_table phys_page virt_page flags pat_type =
     vmm_set_pt_value s page_table (ALIGN_DOWN virt_page PAGE_SIZE) phys_page flags pat_type"

definition vmm_unmap_page :: "'a vmm_state_scheme \<Rightarrow> u64 \<Rightarrow> u64 \<Rightarrow> 'a vmm_state_scheme result" where
  "vmm_unmap_page s page_table virt_page =
     vmm_set_pt_value s page_table (ALIGN_DOWN virt_page PAGE_SIZE) 0 0 PAT_UNCACHEABLE"

text \<open>
  The range loops: the bound is a multiple of the page size, so the counter cannot step over it
  nor past the end of the address space.
\<close>

lemma range_step:
  assumes "i < ALIGN_UP bound PAGE_SIZE"
  shows "unat (ALIGN_UP bound PAGE_SIZE) - unat (i + PAGE_SIZE) < unat (ALIGN_UP bound PAGE_SIZE) - unat i"
    and "unat (i + PAGE_SIZE) = unat i + 4096"
proof -
  have "unat bound + 4095 < 2 ^ 64"
  proof (rule ccontr)
    assume "\<not> unat bound + 4095 < 2 ^ 64"
    then have "ALIGN_UP bound PAGE_SIZE = 0" by (intro ALIGN_UP_wraps) linarith
    with assms show False by simp
  qed
  then have up: "unat (ALIGN_UP bound PAGE_SIZE) = (unat bound + 4095) div 4096 * 4096"
    by (rule unat_ALIGN_UP)
  define q where "q = (unat bound + 4095) div 4096"
  have "q * 4096 < 2 ^ 52 * 4096"
    using unat_u64_less [of "ALIGN_UP bound PAGE_SIZE"] up by (simp add: q_def)
  then have "q + 1 \<le> 2 ^ 52" by simp
  then have "(q + 1) * 4096 \<le> 2 ^ 52 * 4096" by (rule mult_le_mono1)
  then have "unat (ALIGN_UP bound PAGE_SIZE) + 4096 \<le> 2 ^ 64" using up by (simp add: q_def)
  moreover have lt: "unat i < unat (ALIGN_UP bound PAGE_SIZE)"
    using assms by (simp add: word_less_nat_alt)
  ultimately show add: "unat (i + PAGE_SIZE) = unat i + 4096"
    by (simp add: unat_word_ariths)
  show "unat (ALIGN_UP bound PAGE_SIZE) - unat (i + PAGE_SIZE) < unat (ALIGN_UP bound PAGE_SIZE) - unat i"
    using lt add by simp
qed

function vmm_map_range_loop ::
  "'a vmm_state_scheme \<Rightarrow> u64 \<Rightarrow> u64 \<Rightarrow> u64 \<Rightarrow> u64 \<Rightarrow> u64 \<Rightarrow> pat_cache_t \<Rightarrow> 'a vmm_state_scheme result" where
  "vmm_map_range_loop s page_table i bound offset flags pat_type =
     (if i < ALIGN_UP bound PAGE_SIZE
      then rbind (vmm_map_page s page_table i (i + offset) flags pat_type) (\<lambda>s.
        vmm_map_range_loop s page_table (i + PAGE_SIZE) bound offset flags pat_type)
      else Inr s)"
  by pat_completeness auto
termination
  by (relation "measure (\<lambda>(s, pt, i, bound, _). unat (ALIGN_UP bound PAGE_SIZE) - unat i)")
    (simp_all add: range_step(1))

definition vmm_map_range ::
  "'a vmm_state_scheme \<Rightarrow> u64 \<Rightarrow> u64 \<Rightarrow> u64 \<Rightarrow> u64 \<Rightarrow> u64 \<Rightarrow> pat_cache_t \<Rightarrow> 'a vmm_state_scheme result" where
  "vmm_map_range s page_table start bound offset flags pat_type =
     vmm_map_range_loop s page_table (ALIGN_DOWN start PAGE_SIZE) bound offset flags pat_type"

function vmm_unmap_range_loop ::
  "'a vmm_state_scheme \<Rightarrow> u64 \<Rightarrow> u64 \<Rightarrow> u64 \<Rightarrow> 'a vmm_state_scheme result" where
  "vmm_unmap_range_loop s page_table i bound =
     (if i < ALIGN_UP bound PAGE_SIZE
      then rbind (vmm_unmap_page s page_table i) (\<lambda>s.
        vmm_unmap_range_loop s page_table (i + PAGE_SIZE) bound)
      else Inr s)"
  by pat_completeness auto
termination
  by (relation "measure (\<lambda>(s, pt, i, bound). unat (ALIGN_UP bound PAGE_SIZE) - unat i)")
    (simp_all add: range_step(1))

declare vmm_map_range_loop.simps [simp del] vmm_unmap_range_loop.simps [simp del]

definition vmm_unmap_range :: "'a vmm_state_scheme \<Rightarrow> u64 \<Rightarrow> u64 \<Rightarrow> u64 \<Rightarrow> 'a vmm_state_scheme result" where
  "vmm_unmap_range s page_table start bound =
     vmm_unmap_range_loop s page_table (ALIGN_DOWN start PAGE_SIZE) bound"

definition vmm_load_page_table :: "'a vmm_state_scheme \<Rightarrow> u64 \<Rightarrow> 'a vmm_state_scheme" where
  "vmm_load_page_table s page_table = s\<lparr>cr3 := HIGHER_HALF_DATA_TO_PHYS page_table\<rparr>"

definition vmm_get_root_page_table :: "'a vmm_state_scheme \<Rightarrow> u64" where
  "vmm_get_root_page_table s = root_page_table s"

definition vmm_init :: "'a vmm_state_scheme \<Rightarrow> stivale2_mmap_entry list \<Rightarrow> 'a vmm_state_scheme result" where
  "vmm_init s memory_map =
     rbind (pmm_allocz (enable_pat s) 1) (\<lambda>(p, s).
     let root = PHYS_TO_HIGHER_HALF_DATA p; s = s\<lparr>root_page_table := root\<rparr> in
     rbind (assert_impl (root \<noteq> 0) ''root_page_table != NULL'') (\<lambda>_.
     rbind (vmm_map_range s root 0 (4 * GiB) 0 (privilege_flags KERNEL_READ_WRITE) PAT_UNCACHEABLE) (\<lambda>s.
     rbind (vmm_map_range s root 0 (4 * GiB) HIGHER_HALF_DATA (privilege_flags KERNEL_READ_WRITE) PAT_UNCACHEABLE) (\<lambda>s.
     rbind (vmm_map_range s root 0 HEAP_MAX_SIZE HEAP_START_ADDR (privilege_flags KERNEL_READ_WRITE) PAT_UNCACHEABLE) (\<lambda>s.
     rbind (vmm_map_range s root 0 (2 * GiB) HIGHER_HALF_CODE (privilege_flags KERNEL_READ) PAT_UNCACHEABLE) (\<lambda>s.
     rbind (rfold (\<lambda>current_entry s. vmm_map_range s root 0 (mmap_length current_entry) HIGHER_HALF_DATA
                (privilege_flags KERNEL_READ_WRITE) PAT_UNCACHEABLE) memory_map s) (\<lambda>s.
       Inr (vmm_load_page_table s root))))))))"

lemma rdmsr_wrmsr: "asm_rdmsr msr (asm_wrmsr msr value s) = value"
proof (rule bit_word_eqI)
  fix n assume "n < LENGTH(64)"
  then show "bit (asm_rdmsr msr (asm_wrmsr msr value s)) n = bit value n"
    by (cases "n < 32") (auto simp: asm_rdmsr_def asm_wrmsr_def Let_def bit_simps)
qed

end
