(* ===== verification/Page_Tables.thy ===== *)
theory Page_Tables
  imports VMM
begin

text \<open>
  What the tables built by \<open>memory/virtual/vmm.c\<close> mean to the paging hardware: the walk over four
  levels, the invariant of a table tree that lives in pages of the frame allocator, and the effect
  of mapping and unmapping on the translation of every virtual address.
\<close>

section \<open>What the tables mean\<close>

text \<open>
  The specification side: the paging hardware reads one entry per level, follows present
  entries to the frame in bits 12 to 51 and ends at the entry of the last level. Tables are
  named by page number, an address by its four indices.
\<close>

definition cell :: "nat \<Rightarrow> nat \<Rightarrow> u64" where
  "cell f i = of_nat (f * 4096 + 8 * i)"

definition pt_entry :: "memory \<Rightarrow> nat \<Rightarrow> nat \<Rightarrow> u64" where
  "pt_entry m f i = load64 m (cell f i)"

definition frame_of :: "u64 \<Rightarrow> nat" where
  "frame_of e = unat (e AND 0x000FFFFFFFFFF000) div 4096"

fun pt_walk :: "memory \<Rightarrow> nat \<Rightarrow> nat list \<Rightarrow> u64 option" where
  "pt_walk m f [] = None"
| "pt_walk m f [i] = (if bit (pt_entry m f i) 0 then Some (pt_entry m f i) else None)"
| "pt_walk m f (i # j # js) =
     (if bit (pt_entry m f i) 0 then pt_walk m (frame_of (pt_entry m f i)) (j # js) else None)"

definition va_indices :: "u64 \<Rightarrow> nat list" where
  "va_indices v = [unat (pml4_index v), unat (pdpt_index v), unat (pd_index v), unat (pt_index v)]"

definition vmm_translate :: "memory \<Rightarrow> nat \<Rightarrow> u64 \<Rightarrow> u64 option" where
  "vmm_translate m root v = pt_walk m root (va_indices v)"

text \<open>The virtual page of an address: bits 12 to 47.\<close>

definition vpage :: "u64 \<Rightarrow> u64" where
  "vpage v = take_bit 36 (drop_bit 12 v)"

lemma index_bits:
  "bit (pml4_index v) n \<longleftrightarrow> n < 9 \<and> bit v (n + 39)"
  "bit (pdpt_index v) n \<longleftrightarrow> n < 9 \<and> bit v (n + 30)"
  "bit (pd_index v) n \<longleftrightarrow> n < 9 \<and> bit v (n + 21)"
  "bit (pt_index v) n \<longleftrightarrow> n < 9 \<and> bit v (n + 12)"
proof -
  have mask: "(0x1ff :: u64) = mask 9" by (simp add: mask_eq_exp_minus_1)
  show "bit (pml4_index v) n \<longleftrightarrow> n < 9 \<and> bit v (n + 39)"
    "bit (pdpt_index v) n \<longleftrightarrow> n < 9 \<and> bit v (n + 30)"
    "bit (pd_index v) n \<longleftrightarrow> n < 9 \<and> bit v (n + 21)"
    "bit (pt_index v) n \<longleftrightarrow> n < 9 \<and> bit v (n + 12)"
    unfolding pml4_index_def pdpt_index_def pd_index_def pt_index_def mask
    by (auto simp: bit_simps add.commute dest: bit_imp_le_length)
qed

lemma unat_less_512:
  fixes x :: u64
  assumes "\<And>n. bit x n \<Longrightarrow> n < 9"
  shows "unat x < 512"
proof -
  have "take_bit 9 x = x" using assms by (intro bit_word_eqI) (auto simp: bit_simps)
  then have "unat x = unat (take_bit 9 x)" by simp
  also have "\<dots> < 2 ^ 9" unfolding unsigned_take_bit_eq by (rule take_bit_nat_less_exp)
  finally show ?thesis by simp
qed

lemma index_less: "unat (pml4_index v) < 512" "unat (pdpt_index v) < 512"
  "unat (pd_index v) < 512" "unat (pt_index v) < 512"
  by (rule unat_less_512, simp add: index_bits)+

lemma va_indices_less: "i \<in> set (va_indices v) \<Longrightarrow> i < 512"
  using index_less [of v] by (auto simp: va_indices_def)

lemma va_indices_eq_iff: "va_indices v = va_indices w \<longleftrightarrow> vpage v = vpage w"
proof
  assume eq: "va_indices v = va_indices w"
  then have ix: "pml4_index v = pml4_index w" "pdpt_index v = pdpt_index w"
      "pd_index v = pd_index w" "pt_index v = pt_index w"
    by (simp_all add: va_indices_def word_unat_eq_iff)
  have blocks: "bit v (n + 39) = bit w (n + 39)" "bit v (n + 30) = bit w (n + 30)"
      "bit v (n + 21) = bit w (n + 21)" "bit v (n + 12) = bit w (n + 12)" if "n < 9" for n
    using ix [THEN arg_cong, of "\<lambda>x. bit x n"] that by (simp_all add: index_bits)
  show "vpage v = vpage w"
  proof (rule bit_word_eqI)
    fix n assume "n < LENGTH(64)"
    consider "n < 9" | "9 \<le> n" "n < 18" | "18 \<le> n" "n < 27" | "27 \<le> n" "n < 36" | "36 \<le> n" by linarith
    then show "bit (vpage v) n = bit (vpage w) n"
      using blocks(4) [of n] blocks(3) [of "n - 9"] blocks(2) [of "n - 18"] blocks(1) [of "n - 27"]
      by cases (simp_all add: vpage_def bit_simps add.commute)
  qed
next
  assume eq: "vpage v = vpage w"
  have "bit v (n + 12) = bit w (n + 12)" if "n < 36" for n
    using arg_cong [OF eq, of "\<lambda>x. bit x n"] that
    by (auto simp: vpage_def bit_simps add.commute dest: bit_imp_le_length)
  then have b: "bit v k = bit w k" if "12 \<le> k" "k < 48" for k
  proof -
    have "k = (k - 12) + 12" "k - 12 < 36" using that by simp_all
    with \<open>\<And>n. n < 36 \<Longrightarrow> bit v (n + 12) = bit w (n + 12)\<close> show ?thesis by metis
  qed
  have "pml4_index v = pml4_index w" "pdpt_index v = pdpt_index w"
      "pd_index v = pd_index w" "pt_index v = pt_index w"
    by (rule bit_word_eqI, auto simp: index_bits b)+
  then show "va_indices v = va_indices w" by (simp add: va_indices_def)
qed

section \<open>Entries in memory\<close>

lemma unat_cell: "f < 2 ^ 31 \<Longrightarrow> i < 512 \<Longrightarrow> unat (cell f i) = f * 4096 + 8 * i"
  unfolding cell_def by (simp add: unat_of_nat del: of_nat_add of_nat_mult)

lemma cell_separate:
  assumes "f < 2 ^ 31" "i < 512" "g < 2 ^ 31" "j < 512" "(f, i) \<noteq> (g, j)"
  shows "separate (cell f i) 8 (cell g j) 8"
proof (cases "f = g")
  case True
  with assms have "i < j \<or> j < i" by auto
  with True show ?thesis using assms(1-4) by (auto simp: separate_def unat_cell)
next
  case False
  then have "f + 1 \<le> g \<or> g + 1 \<le> f" by linarith
  then show ?thesis using assms(1-4) by (auto simp: separate_def unat_cell)
qed

lemma pt_entry_store:
  assumes "f < 2 ^ 31" "i < 512" "g < 2 ^ 31" "j < 512"
  shows "pt_entry (store64 m (cell f i) w) g j = (if (g, j) = (f, i) then w else pt_entry m g j)"
  using cell_separate [OF assms(3,4,1,2)] by (auto simp: pt_entry_def load64_store64_separate)

lemma pt_entry_cleared:
  assumes "f < 2 ^ 31" "g < 2 ^ 31" "j < 512"
  shows "pt_entry (memset m (page_addr f) 0 4096) g j = (if g = f then 0 else pt_entry m g j)"
proof -
  have pf: "unat (page_addr f) = f * 4096" using assms(1) by (intro unat_page_addr) simp
  show ?thesis
  proof (cases "g = f")
    case True
    have "page_addr f \<le> cell f j"
      using assms by (simp add: word_le_nat_alt pf unat_cell)
    then have "unat (cell f j - page_addr f) = 8 * j"
      using assms by (simp add: unat_diff_le pf unat_cell)
    then have "unat (cell f j - page_addr f) + 8 \<le> unat (4096 :: u64)" using assms(3) by simp
    from memset_inside_zero [OF this] True show ?thesis by (simp add: pt_entry_def access_defs)
  next
    case False
    then have "f + 1 \<le> g \<or> g + 1 \<le> f" by linarith
    then have "separate (cell g j) 8 (page_addr f) (unat (4096 :: u64))"
      using assms by (auto simp: separate_def unat_cell pf)
    from memset_outside [OF this] False show ?thesis by (simp add: pt_entry_def access_defs)
  qed
qed

text \<open>Tables are reached through their physical address, the root through the higher half.\<close>

definition table_ptr :: "u64 \<Rightarrow> nat \<Rightarrow> bool" where
  "table_ptr p f \<longleftrightarrow> p = page_addr f \<or> p = PHYS_TO_HIGHER_HALF_DATA (page_addr f)"

lemma kaddr_low: "unat a < 2 ^ 47 \<Longrightarrow> kaddr a = a"
  by (simp add: kaddr_def HIGHER_HALF_CODE_def HEAP_START_ADDR_def HIGHER_HALF_DATA_def word_le_nat_alt)

lemma kaddr_higher_half: "unat a < 2 ^ 44 \<Longrightarrow> kaddr (PHYS_TO_HIGHER_HALF_DATA a) = a"
  by (simp add: kaddr_def HIGHER_HALF_CODE_def HEAP_START_ADDR_def HIGHER_HALF_DATA_def word_le_nat_alt
      PHYS_TO_HIGHER_HALF_DATA_def HIGHER_HALF_DATA_TO_PHYS_def unat_word_ariths)

lemma kaddr_cell:
  assumes "table_ptr p f" "f < 2 ^ 31" "i < 512"
  shows "kaddr (p + 8 * of_nat i) = cell f i"
proof -
  have sum: "page_addr f + 8 * of_nat i = cell f i" by (simp add: page_addr_def cell_def)
  have "unat (cell f i) < 2 ^ 44" using assms by (simp add: unat_cell)
  moreover have "PHYS_TO_HIGHER_HALF_DATA (page_addr f) + 8 * of_nat i
      = PHYS_TO_HIGHER_HALF_DATA (cell f i)"
    by (simp add: PHYS_TO_HIGHER_HALF_DATA_def flip: sum)
  ultimately show ?thesis
    using assms(1) kaddr_low [of "cell f i"] kaddr_higher_half [of "cell f i"] sum
    by (auto simp: table_ptr_def)
qed

text \<open>An entry made of a page address and flags below bit 9.\<close>

definition flags_ok :: "u64 \<Rightarrow> bool" where
  "flags_ok flags \<longleftrightarrow> bit flags 0 \<and> flags AND NOT 511 = 0"

lemma flags_bits: "flags_ok flags \<Longrightarrow> bit flags n \<Longrightarrow> n < 9"
proof -
  assume "flags_ok flags" "bit flags n"
  moreover have "(511 :: u64) = mask 9" by (simp add: mask_eq_exp_minus_1)
  ultimately have "\<not> bit (flags AND NOT (mask 9)) n" by (simp add: flags_ok_def)
  with \<open>bit flags n\<close> show ?thesis by (auto simp: bit_simps dest: bit_imp_le_length)
qed

lemma bit_page_addr: "f < 2 ^ 31 \<Longrightarrow> bit (page_addr f) n \<longleftrightarrow> 12 \<le> n \<and> n < 43 \<and> bit f (n - 12)"
proof -
  assume f: "f < 2 ^ 31"
  have "page_addr f = push_bit 12 (of_nat f)"
    by (simp add: page_addr_def push_bit_eq_mult mult.commute)
  moreover have "\<not> bit f k" if "31 \<le> k" for k
  proof -
    have "f < 2 ^ k" using f power_increasing [OF that, of "2 :: nat"] by linarith
    then show ?thesis by (simp add: bit_iff_odd)
  qed
  moreover have "n < 43" if "12 \<le> n" "bit f (n - 12)"
    using that \<open>\<And>k. 31 \<le> k \<Longrightarrow> \<not> bit f k\<close> [of "n - 12"] by linarith
  ultimately show ?thesis by (auto simp: bit_simps)
qed

lemma entry_fields:
  assumes "f < 2 ^ 31" "flags_ok flags"
  shows "(page_addr f OR flags) AND NOT 511 = page_addr f"
    and "frame_of (page_addr f OR flags) = f"
    and "bit (page_addr f OR flags) 0"
proof -
  have m9: "(511 :: u64) = mask 9" by (simp add: mask_eq_exp_minus_1)
  show "(page_addr f OR flags) AND NOT 511 = page_addr f" unfolding m9
    using assms by (intro bit_word_eqI) (auto simp: bit_simps bit_page_addr dest: flags_bits)
  have hw: "(0x000FFFFFFFFFF000 :: u64) = mask 52 AND NOT (mask 12)" by (simp add: mask_eq_exp_minus_1)
  have "(page_addr f OR flags) AND 0x000FFFFFFFFFF000 = page_addr f" unfolding hw
    using assms by (intro bit_word_eqI) (auto simp: bit_simps bit_page_addr dest: flags_bits)
  then show "frame_of (page_addr f OR flags) = f"
    using assms by (simp add: frame_of_def unat_page_addr)
  show "bit (page_addr f OR flags) 0" using assms by (simp add: bit_simps flags_ok_def)
qed

lemma privilege_flags_ok: "flags_ok (privilege_flags p)"
  by (cases p) (simp_all add: flags_ok_def)

section \<open>The table tree\<close>

text \<open>
  \<open>T l\<close> is the set of table pages of level \<open>l\<close>, 0 for the last level and 3 for the root. The
  levels do not share pages, a present entry above the last level leads to a table of the
  level below (for the hardware's mask and for the code's \<open>~511\<close> alike), and a table hangs in
  one entry only.
\<close>

definition tables_ok :: "memory \<Rightarrow> (nat \<Rightarrow> nat set) \<Rightarrow> bool" where
  "tables_ok m T \<longleftrightarrow>
     (\<forall>l k. l \<noteq> k \<longrightarrow> T l \<inter> T k = {}) \<and> (\<forall>l. \<forall>f\<in>T l. f < 2 ^ 31)
     \<and> (\<forall>l. \<forall>f\<in>T (Suc l). \<forall>i<512. bit (pt_entry m f i) 0 \<longrightarrow>
          frame_of (pt_entry m f i) \<in> T l \<and> pt_entry m f i AND NOT 511 = page_addr (frame_of (pt_entry m f i)))
     \<and> (\<forall>l. \<forall>f\<in>T (Suc l). \<forall>g\<in>T (Suc l). \<forall>i<512. \<forall>j<512. bit (pt_entry m f i) 0 \<longrightarrow> bit (pt_entry m g j) 0 \<longrightarrow>
          frame_of (pt_entry m f i) = frame_of (pt_entry m g j) \<longrightarrow> f = g \<and> i = j)"

lemma tables_okD:
  assumes "tables_ok m T"
  shows "f \<in> T l \<Longrightarrow> f \<in> T k \<Longrightarrow> l = k"
    and "f \<in> T l \<Longrightarrow> f < 2 ^ 31"
    and "f \<in> T (Suc l) \<Longrightarrow> i < 512 \<Longrightarrow> bit (pt_entry m f i) 0 \<Longrightarrow> frame_of (pt_entry m f i) \<in> T l"
    and "f \<in> T (Suc l) \<Longrightarrow> i < 512 \<Longrightarrow> bit (pt_entry m f i) 0 \<Longrightarrow>
      pt_entry m f i AND NOT 511 = page_addr (frame_of (pt_entry m f i))"
    and "f \<in> T (Suc l) \<Longrightarrow> g \<in> T (Suc l) \<Longrightarrow> i < 512 \<Longrightarrow> j < 512 \<Longrightarrow> bit (pt_entry m f i) 0 \<Longrightarrow>
      bit (pt_entry m g j) 0 \<Longrightarrow> frame_of (pt_entry m f i) = frame_of (pt_entry m g j) \<Longrightarrow> f = g \<and> i = j"
  using assms unfolding tables_ok_def by blast+

fun pt_path :: "memory \<Rightarrow> nat \<Rightarrow> nat list \<Rightarrow> nat option" where
  "pt_path m f [] = Some f"
| "pt_path m f (i # is) =
     (if bit (pt_entry m f i) 0 then pt_path m (frame_of (pt_entry m f i)) is else None)"

definition leaf_of :: "u64 \<Rightarrow> u64 option" where
  "leaf_of e = (if bit e 0 then Some e else None)"

lemma pt_walk_path:
  "pt_walk m f (is @ [i]) = (case pt_path m f is of None \<Rightarrow> None | Some t \<Rightarrow> leaf_of (pt_entry m t i))"
proof (induction "is" arbitrary: f)
  case Nil
  then show ?case by (simp add: leaf_of_def)
next
  case (Cons k ks)
  then show ?case by (cases "ks @ [i]") auto
qed

lemma pt_path_level:
  assumes "tables_ok m T" "f \<in> T (l + length is)" "\<forall>i\<in>set is. i < 512" "pt_path m f is = Some t"
  shows "t \<in> T l"
  using assms(2-)
proof (induction "is" arbitrary: f)
  case (Cons i "is")
  then show ?case using tables_okD(3) [OF assms(1)] by (auto split: if_splits)
qed simp

lemma pt_path_unique:
  assumes "tables_ok m T"
  shows "f \<in> T (l + length is) \<Longrightarrow> g \<in> T (l + length is) \<Longrightarrow> length js = length is \<Longrightarrow>
    \<forall>i\<in>set is. i < 512 \<Longrightarrow> \<forall>i\<in>set js. i < 512 \<Longrightarrow> pt_path m f is = Some t \<Longrightarrow> pt_path m g js = Some t \<Longrightarrow>
    f = g \<and> is = js"
proof (induction "is" arbitrary: f g js)
  case Nil
  then show ?case by simp
next
  case (Cons i "is")
  then obtain j js' where js: "js = j # js'" by (cases js) auto
  have p: "bit (pt_entry m f i) 0" "bit (pt_entry m g j) 0"
    using Cons.prems(6,7) js by (auto split: if_splits)
  have c: "frame_of (pt_entry m f i) \<in> T (l + length is)" "frame_of (pt_entry m g j) \<in> T (l + length is)"
    using tables_okD(3) [OF assms, of f "l + length is" i] tables_okD(3) [OF assms, of g "l + length is" j]
      Cons.prems js p by auto
  have i: "i < 512" "j < 512" using Cons.prems(4,5) js by simp_all
  have "frame_of (pt_entry m f i) = frame_of (pt_entry m g j) \<and> is = js'"
  proof (rule Cons.IH [OF c])
    show "length js' = length is" using Cons.prems(3) js by simp
    show "\<forall>i\<in>set is. i < 512" "\<forall>i\<in>set js'. i < 512" using Cons.prems(4,5) js by simp_all
    show "pt_path m (frame_of (pt_entry m f i)) is = Some t" using Cons.prems(6) p(1) by simp
    show "pt_path m (frame_of (pt_entry m g j)) js' = Some t" using Cons.prems(7) js p(2) by simp
  qed
  moreover from this have "f = g \<and> i = j"
    using Cons.prems(1,2) i p by (intro tables_okD(5) [OF assms, of f "l + length is"]) simp_all
  ultimately show ?case using js by simp
qed

subsection \<open>Hanging a new table\<close>

text \<open>\<open>m'\<close> is \<open>m\<close> with page \<open>j\<close> cleared and entry \<open>i\<close> of table \<open>f\<close> leading to it.\<close>

definition grown :: "memory \<Rightarrow> memory \<Rightarrow> nat \<Rightarrow> nat \<Rightarrow> nat \<Rightarrow> u64 \<Rightarrow> bool" where
  "grown m m' f i j flags \<longleftrightarrow> (\<forall>g k. g < 2 ^ 31 \<longrightarrow> k < 512 \<longrightarrow> pt_entry m' g k =
     (if (g, k) = (f, i) then page_addr j OR flags else if g = j then 0 else pt_entry m g k))"

lemma grown_tables:
  assumes ok: "tables_ok m T" and f: "f \<in> T (Suc l)" "i < 512" "\<not> bit (pt_entry m f i) 0"
    and j: "\<And>k. j \<notin> T k" "j < 2 ^ 31" and fl: "flags_ok flags" and gr: "grown m m' f i j flags"
  shows "tables_ok m' (T(l := insert j (T l)))" (is "tables_ok m' ?T")
proof -
  have fj: "f \<noteq> j" using f(1) j(1) by blast
  have lt: "g < 2 ^ 31" if "g \<in> ?T k" for g k
    using that tables_okD(2) [OF ok] j(2) by (auto split: if_splits)
  have E: "pt_entry m' g k = (if (g, k) = (f, i) then page_addr j OR flags else if g = j then 0 else pt_entry m g k)"
    if "g \<in> ?T n" "k < 512" for g k n
    using gr lt [OF that(1)] that(2) unfolding grown_def by blast
  have old: "g \<in> T n" "g \<noteq> j \<and> ((g, k) = (f, i) \<or> bit (pt_entry m g k) 0)"
    if "g \<in> ?T n" "k < 512" "bit (pt_entry m' g k) 0" for g k n
    using that E [OF that(1,2)] fj f(1) j(1) tables_okD(1) [OF ok]
    by (auto split: if_splits)
  have child: "frame_of (pt_entry m' g k) = (if (g, k) = (f, i) then j else frame_of (pt_entry m g k))"
    "pt_entry m' g k AND NOT 511 = (if (g, k) = (f, i) then page_addr j else pt_entry m g k AND NOT 511)"
    if "g \<in> ?T n" "k < 512" "bit (pt_entry m' g k) 0" for g k n
    using E [OF that(1,2)] old(2) [OF that] entry_fields [OF j(2) fl] by auto
  show ?thesis unfolding tables_ok_def
  proof (intro conjI allI ballI impI)
    show "?T a \<inter> ?T b = {}" if "a \<noteq> b" for a b
      using that j(1) tables_okD(1) [OF ok] by auto
    show "g < 2 ^ 31" if "g \<in> ?T a" for g a by (rule lt [OF that])
    show "frame_of (pt_entry m' g k) \<in> ?T a"
      "pt_entry m' g k AND NOT 511 = page_addr (frame_of (pt_entry m' g k))"
      if g: "g \<in> ?T (Suc a)" "k < 512" "bit (pt_entry m' g k) 0" for a g k
    proof -
      note o = old [OF g] and c = child [OF g]
      have "a = l" if "g = f" using tables_okD(1) [OF ok o(1)] f(1) that by blast
      then show "frame_of (pt_entry m' g k) \<in> ?T a"
        "pt_entry m' g k AND NOT 511 = page_addr (frame_of (pt_entry m' g k))"
        using o c tables_okD(3,4) [OF ok o(1) g(2)] by auto
    qed
    show "g = h" "k = n"
      if g: "g \<in> ?T (Suc a)" and h: "h \<in> ?T (Suc a)" and k: "k < 512" "n < 512"
        and b: "bit (pt_entry m' g k) 0" "bit (pt_entry m' h n) 0"
        and eq: "frame_of (pt_entry m' g k) = frame_of (pt_entry m' h n)" for a g h k n
    proof -
      note og = old [OF g k(1) b(1)] and oh = old [OF h k(2) b(2)]
      have "frame_of (pt_entry m g k) \<noteq> j" if "bit (pt_entry m g k) 0"
        using tables_okD(3) [OF ok og(1) k(1) that] j(1) by metis
      moreover have "frame_of (pt_entry m h n) \<noteq> j" if "bit (pt_entry m h n) 0"
        using tables_okD(3) [OF ok oh(1) k(2) that] j(1) by metis
      ultimately have "g = h \<and> k = n"
        using eq og oh child(1) [OF g k(1) b(1)] child(1) [OF h k(2) b(2)]
          tables_okD(5) [OF ok og(1) oh(1) k] by (auto split: if_splits)
      then show "g = h" "k = n" by auto
    qed
  qed
qed

text \<open>The new table is empty, so no translation changes; the paths that existed still do.\<close>

lemma pt_walk_empty_table:
  "(\<And>k. k < 512 \<Longrightarrow> \<not> bit (pt_entry m f k) 0) \<Longrightarrow> \<forall>i\<in>set is. i < 512 \<Longrightarrow> pt_walk m f is = None"
  by (induction m f "is" rule: pt_walk.induct) auto

lemma grown_walk:
  assumes ok: "tables_ok m T" and f: "f \<in> T (Suc l)" "i < 512" "\<not> bit (pt_entry m f i) 0"
    and j: "\<And>k. j \<notin> T k" "j < 2 ^ 31" and fl: "flags_ok flags" and gr: "grown m m' f i j flags"
  shows "g \<in> T n \<Longrightarrow> length is = Suc n \<Longrightarrow> \<forall>i\<in>set is. i < 512 \<Longrightarrow> pt_walk m' g is = pt_walk m g is"
proof (induction n arbitrary: g "is")
  case 0
  then obtain k where k: "is = [k]" "k < 512" by (cases "is") auto
  have "g \<noteq> f" "g \<noteq> j" using 0(1) f(1) j(1) tables_okD(1) [OF ok] by auto
  then have "pt_entry m' g k = pt_entry m g k"
    using gr k tables_okD(2) [OF ok 0(1)] by (simp add: grown_def)
  with k show ?case by simp
next
  case (Suc n)
  then obtain k ks where "is = k # ks" by (cases "is") auto
  with Suc.prems(2) obtain k' ks' where idx: "is = k # k' # ks'" by (cases ks) auto
  have k: "k < 512" "\<forall>i\<in>set (k' # ks'). i < 512" using Suc.prems(3) idx by auto
  have gj: "g \<noteq> j" using Suc.prems(1) j(1) by blast
  have E: "pt_entry m' g k = (if (g, k) = (f, i) then page_addr j OR flags else pt_entry m g k)"
    using gr k gj tables_okD(2) [OF ok Suc.prems(1)] by (simp add: grown_def)
  show ?case
  proof (cases "(g, k) = (f, i)")
    case True
    have fj: "f \<noteq> j" using f(1) j(1) by blast
    have "pt_walk m' j (k' # ks') = None"
      using k(2) gr fj j(2) by (intro pt_walk_empty_table) (auto simp: grown_def)
    with True f(3) E show ?thesis by (simp add: idx entry_fields [OF j(2) fl])
  next
    case False
    then have e: "pt_entry m' g k = pt_entry m g k" using E by (simp only: if_False)
    show ?thesis
    proof (cases "bit (pt_entry m g k) 0")
      case True
      have "pt_walk m' (frame_of (pt_entry m g k)) (k' # ks') = pt_walk m (frame_of (pt_entry m g k)) (k' # ks')"
        using tables_okD(3) [OF ok Suc.prems(1) k(1) True] k(2) Suc.prems(2) idx by (intro Suc.IH) simp_all
      with e True show ?thesis by (simp add: idx)
    qed (simp add: e idx)
  qed
qed

lemma grown_path:
  assumes ok: "tables_ok m T" and f: "\<not> bit (pt_entry m f i) 0" and j: "\<And>k. j \<notin> T k"
    and gr: "grown m m' f i j flags"
  shows "g \<in> T (n + length is) \<Longrightarrow> \<forall>i\<in>set is. i < 512 \<Longrightarrow> pt_path m g is = Some t \<Longrightarrow> pt_path m' g is = Some t"
proof (induction "is" arbitrary: g)
  case Nil
  then show ?case by simp
next
  case (Cons k ks)
  then have b: "bit (pt_entry m g k) 0" "pt_path m (frame_of (pt_entry m g k)) ks = Some t"
    by (auto split: if_splits)
  have k: "k < 512" and g: "g \<in> T (Suc (n + length ks))" "g \<noteq> j" using Cons.prems j by auto
  have "(g, k) \<noteq> (f, i)" using b(1) f by auto
  then have e: "pt_entry m' g k = pt_entry m g k"
    using gr k g tables_okD(2) [OF ok g(1)] by (auto simp: grown_def)
  have "pt_path m' (frame_of (pt_entry m g k)) ks = Some t"
    using tables_okD(3) [OF ok g(1) k b(1)] Cons.prems(2) b(2) by (intro Cons.IH) simp_all
  with e b show ?case by simp
qed

subsection \<open>Setting an entry of the last level\<close>

definition leaf_set :: "memory \<Rightarrow> memory \<Rightarrow> nat \<Rightarrow> nat \<Rightarrow> u64 \<Rightarrow> bool" where
  "leaf_set m m' f i w \<longleftrightarrow> (\<forall>g k. g < 2 ^ 31 \<longrightarrow> k < 512 \<longrightarrow>
     pt_entry m' g k = (if (g, k) = (f, i) then w else pt_entry m g k))"

lemma leaf_set_upper:
  assumes "tables_ok m T" "f \<in> T 0" "leaf_set m m' f i w" "g \<in> T (Suc l)" "k < 512"
  shows "pt_entry m' g k = pt_entry m g k"
proof -
  have "g \<noteq> f" using tables_okD(1) [OF assms(1)] assms(2,4) by blast
  with assms tables_okD(2) [OF assms(1,4)] show ?thesis by (simp add: leaf_set_def)
qed

lemma leaf_set_tables:
  assumes "tables_ok m T" "f \<in> T 0" "leaf_set m m' f i w"
  shows "tables_ok m' T"
proof -
  note D = tables_okD [OF assms(1)] and E = leaf_set_upper [OF assms]
  show ?thesis unfolding tables_ok_def
  proof (intro conjI allI ballI impI)
    show "T l \<inter> T k = {}" if "l \<noteq> k" for l k using that D(1) by blast
    show "g < 2 ^ 31" if "g \<in> T l" for g l using that by (rule D(2))
    show "frame_of (pt_entry m' g k) \<in> T l"
      "pt_entry m' g k AND NOT 511 = page_addr (frame_of (pt_entry m' g k))"
      if "g \<in> T (Suc l)" "k < 512" "bit (pt_entry m' g k) 0" for g k l
      using that D(3,4) [of g l k] by (simp_all add: E [OF that(1,2)])
    show "g = h" "k = n"
      if g: "g \<in> T (Suc l)" "h \<in> T (Suc l)" "k < 512" "n < 512" "bit (pt_entry m' g k) 0"
        "bit (pt_entry m' h n) 0" "frame_of (pt_entry m' g k) = frame_of (pt_entry m' h n)" for g h k n l
      using D(5) [OF g(1-4)] g(5-7) by (simp_all add: E [OF g(1,3)] E [OF g(2,4)])
  qed
qed

lemma leaf_set_path:
  assumes "tables_ok m T" "f \<in> T 0" "leaf_set m m' f i w"
  shows "g \<in> T (n + length is) \<Longrightarrow> \<forall>i\<in>set is. i < 512 \<Longrightarrow> pt_path m' g is = pt_path m g is"
proof (induction "is" arbitrary: g)
  case (Cons k ks)
  then have g: "g \<in> T (Suc (n + length ks))" and k: "k < 512" by auto
  have "pt_path m' (frame_of (pt_entry m g k)) ks = pt_path m (frame_of (pt_entry m g k)) ks"
    if "bit (pt_entry m g k) 0"
    using tables_okD(3) [OF assms(1) g k that] Cons.prems(2) by (intro Cons.IH) simp_all
  then show ?case using leaf_set_upper [OF assms g k] by simp
qed simp

lemma leaf_set_walk:
  assumes ok: "tables_ok m T" and f: "f \<in> T 0" and ls: "leaf_set m m' f i w"
    and r: "r \<in> T (length is)" and path: "pt_path m r is = Some f" and i: "\<forall>k\<in>set (is @ [i]). k < 512"
    and js: "length js = length is" "\<forall>k\<in>set (js @ [j]). k < 512"
  shows "pt_walk m' r (js @ [j]) = (if js @ [j] = is @ [i] then leaf_of w else pt_walk m r (js @ [j]))"
proof -
  have same: "pt_path m' r js = pt_path m r js"
    using leaf_set_path [OF ok f ls, of r 0 js] r js by simp
  have entry: "pt_entry m' t j = (if t = f \<and> j = i then w else pt_entry m t j)" if "pt_path m r js = Some t" for t
  proof -
    have "t \<in> T 0" using pt_path_level [OF ok, of r 0 js t] that r js by simp
    from tables_okD(2) [OF ok this] show ?thesis using ls js(2) by (simp add: leaf_set_def)
  qed
  show ?thesis
  proof (cases "js = is")
    case True
    then show ?thesis using same path entry [of f] by (simp add: pt_walk_path)
  next
    case False
    have ne: "pt_path m r js \<noteq> Some f"
    proof
      assume "pt_path m r js = Some f"
      moreover have "r \<in> T (0 + length is)" "\<forall>k\<in>set is. k < 512" "\<forall>k\<in>set js. k < 512"
        using r i js(2) by simp_all
      ultimately have "js = is" using pt_path_unique [OF ok _ _ js(1) _ _ path] by blast
      with False show False ..
    qed
    show ?thesis
    proof (cases "pt_path m r js")
      case None
      with False same show ?thesis by (simp add: pt_walk_path)
    next
      case (Some t)
      with ne entry [OF Some] have "pt_entry m' t j = pt_entry m t j" by auto
      with False same Some show ?thesis by (simp add: pt_walk_path)
    qed
  qed
qed

section \<open>The tables of a state\<close>

text \<open>All tables are pages that the frame allocator has handed out.\<close>

definition vmm_inv :: "'a vmm_state_scheme \<Rightarrow> nat \<Rightarrow> (nat \<Rightarrow> nat set) \<Rightarrow> bool" where
  "vmm_inv s r T \<longleftrightarrow> pmm_wf s \<and> T 3 = {r} \<and> tables_ok (kmem s) T
     \<and> (\<forall>l. \<forall>f\<in>T l. 0 < f \<and> f < pmm_pages s \<and> f \<notin> pmm_free_pages s)"

text \<open>
  From \<open>s\<close> to \<open>s'\<close> the tree may only have gained tables: translations and paths are kept, and
  bytes outside the tables and the free pages are not written.
\<close>

definition vmm_ext :: "'a vmm_state_scheme \<Rightarrow> (nat \<Rightarrow> nat set) \<Rightarrow> 'a vmm_state_scheme \<Rightarrow> (nat \<Rightarrow> nat set) \<Rightarrow> bool" where
  "vmm_ext s T s' T' \<longleftrightarrow> pmm_pages s' = pmm_pages s
     \<and> (\<forall>k. T k \<subseteq> T' k \<and> T' k \<subseteq> T k \<union> pmm_free_pages s) \<and> pmm_free_pages s' \<subseteq> pmm_free_pages s
     \<and> (\<forall>n g is. g \<in> T n \<longrightarrow> length is = Suc n \<longrightarrow> (\<forall>i\<in>set is. i < 512) \<longrightarrow>
          pt_walk (kmem s') g is = pt_walk (kmem s) g is)
     \<and> (\<forall>n g is t. g \<in> T (n + length is) \<longrightarrow> (\<forall>i\<in>set is. i < 512) \<longrightarrow>
          pt_path (kmem s) g is = Some t \<longrightarrow> pt_path (kmem s') g is = Some t)
     \<and> (\<forall>a. unat a div 4096 \<notin> pmm_free_pages s \<longrightarrow> (\<forall>k. unat a div 4096 \<notin> T k) \<longrightarrow> kmem s' a = kmem s a)"

lemma vmm_ext_refl: "vmm_ext s T s T"
  by (simp add: vmm_ext_def)

lemma vmm_extD:
  assumes "vmm_ext s T s' T'"
  shows "pmm_pages s' = pmm_pages s" "T k \<subseteq> T' k" "T' k \<subseteq> T k \<union> pmm_free_pages s"
    "pmm_free_pages s' \<subseteq> pmm_free_pages s"
    and "g \<in> T n \<Longrightarrow> length is = Suc n \<Longrightarrow> \<forall>i\<in>set is. i < 512 \<Longrightarrow> pt_walk (kmem s') g is = pt_walk (kmem s) g is"
    and "g \<in> T (n + length is) \<Longrightarrow> \<forall>i\<in>set is. i < 512 \<Longrightarrow> pt_path (kmem s) g is = Some t \<Longrightarrow>
      pt_path (kmem s') g is = Some t"
    and "unat a div 4096 \<notin> pmm_free_pages s \<Longrightarrow> \<forall>k. unat a div 4096 \<notin> T k \<Longrightarrow> kmem s' a = kmem s a"
  using assms by (simp_all add: vmm_ext_def)

lemma vmm_ext_trans:
  assumes "vmm_ext s T s' T'" "vmm_ext s' T' s'' T''"
  shows "vmm_ext s T s'' T''"
  unfolding vmm_ext_def
proof (intro conjI allI impI)
  note a = vmm_extD [OF assms(1)] and b = vmm_extD [OF assms(2)]
  show "pmm_pages s'' = pmm_pages s" "pmm_free_pages s'' \<subseteq> pmm_free_pages s" using a(1,4) b(1,4) by auto
  show "T k \<subseteq> T'' k" "T'' k \<subseteq> T k \<union> pmm_free_pages s" for k
    using a(2,3) [of k] a(4) b(2,3) [of k] by auto
  show "pt_walk (kmem s'') g is = pt_walk (kmem s) g is"
    if "g \<in> T n" "length is = Suc n" "\<forall>i\<in>set is. i < 512" for n g "is"
    using b(5) [OF subsetD [OF a(2) that(1)] that(2,3)] a(5) [OF that] by simp
  show "pt_path (kmem s'') g is = Some t"
    if "g \<in> T (n + length is)" "\<forall>i\<in>set is. i < 512" "pt_path (kmem s) g is = Some t" for n g "is" t
    using b(6) [OF subsetD [OF a(2) that(1)] that(2)] a(6) [OF that] by simp
  show "kmem s'' x = kmem s x" if x: "unat x div 4096 \<notin> pmm_free_pages s" "\<forall>k. unat x div 4096 \<notin> T k" for x
  proof -
    have "unat x div 4096 \<notin> pmm_free_pages s'" "\<forall>k. unat x div 4096 \<notin> T' k"
      using x a(3,4) by auto
    from b(7) [OF this] a(7) [OF x] show ?thesis by simp
  qed
qed

lemma pmm_views_cpu [simp]:
  "pmm_pages (s\<lparr>tlb_flushes := x\<rparr>) = pmm_pages s" "pmm_pages (s\<lparr>root_page_table := q\<rparr>) = pmm_pages s"
  "pmm_pages (s\<lparr>cr3 := q\<rparr>) = pmm_pages s" "pmm_pages (s\<lparr>msrs := y\<rparr>) = pmm_pages s"
  "pmm_used (s\<lparr>tlb_flushes := x\<rparr>) = pmm_used s" "pmm_used (s\<lparr>root_page_table := q\<rparr>) = pmm_used s"
  "pmm_used (s\<lparr>cr3 := q\<rparr>) = pmm_used s" "pmm_used (s\<lparr>msrs := y\<rparr>) = pmm_used s"
  by (simp_all add: pmm_pages_def pmm_used_def)

lemma pmm_wf_cpu [simp]:
  "pmm_free_pages (s\<lparr>tlb_flushes := x\<rparr>) = pmm_free_pages s" "pmm_free_pages (s\<lparr>root_page_table := q\<rparr>) = pmm_free_pages s"
  "pmm_free_pages (s\<lparr>cr3 := q\<rparr>) = pmm_free_pages s" "pmm_free_pages (s\<lparr>msrs := y\<rparr>) = pmm_free_pages s"
  "pmm_wf (s\<lparr>tlb_flushes := x\<rparr>) = pmm_wf s" "pmm_wf (s\<lparr>root_page_table := q\<rparr>) = pmm_wf s"
  "pmm_wf (s\<lparr>cr3 := q\<rparr>) = pmm_wf s" "pmm_wf (s\<lparr>msrs := y\<rparr>) = pmm_wf s"
  by (simp_all add: pmm_free_pages_def pmm_wf_def pmm_inv_def pmm_counter_ok_def)

lemma vmm_pages_small: "pmm_wf s \<Longrightarrow> pmm_pages s \<le> 2 ^ 31"
  by (auto simp: pmm_wf_def pmm_inv_def)

text \<open>The frame allocator leaves the registers and the root pointer alone.\<close>

definition same_cpu :: "'a vmm_state_scheme \<Rightarrow> 'a vmm_state_scheme \<Rightarrow> bool" where
  "same_cpu s t \<longleftrightarrow> root_page_table t = root_page_table s \<and> cr3 t = cr3 s \<and> msrs t = msrs s
     \<and> tlb_flushes t = tlb_flushes s"

lemma pmm_allocz_same_cpu: "pmm_allocz s n = Inr (p, t) \<Longrightarrow> same_cpu s t"
  by (auto simp: pmm_allocz_def pmm_alloc_def Let_def rbind_eq_Inr same_cpu_def split: if_splits)

lemma vmm_get_or_create_pml_same_cpu: "vmm_get_or_create_pml s pml i flags = Inr (p, t) \<Longrightarrow> same_cpu s t"
  using pmm_allocz_same_cpu [of s 1]
  by (fastforce simp: vmm_get_or_create_pml_def Let_def rbind_eq_Inr same_cpu_def split: if_splits)

text \<open>The step always returns; running out of pages shows as an empty free set afterwards.\<close>

lemma pmm_allocz1_total:
  assumes "pmm_wf s"
  shows "\<exists>p t. pmm_allocz s 1 = Inr (p, t) \<and> pmm_wf t \<and> pmm_pages t = pmm_pages s
    \<and> pmm_free_pages t \<subseteq> pmm_free_pages s"
  using pg.allocz1_some [OF assms] pg.allocz1_none [OF assms] by (cases "pmm_free_pages s = {}") blast+

lemma vmm_get_or_create_pml_total:
  assumes "pmm_wf s"
  shows "\<exists>p t. vmm_get_or_create_pml s pml i flags = Inr (p, t) \<and> pmm_wf t \<and> pmm_pages t = pmm_pages s
    \<and> pmm_free_pages t \<subseteq> pmm_free_pages s"
  using pmm_allocz1_total [OF assms] assms by (fastforce simp: vmm_get_or_create_pml_def Let_def)

lemma bit_0_iff_and: "w AND 1 = (0 :: u64) \<longleftrightarrow> \<not> bit w 0"
  by (simp add: and_one_eq odd_iff_mod_2_eq_one bit_0 even_iff_mod_2_eq_zero)

lemma vmm_get_or_create_pml_ok:
  assumes inv: "vmm_inv s r T" and f: "f \<in> T (Suc l)" "i < 512" and l: "l < 3" and p: "table_ptr pml f"
    and fl: "flags_ok flags" and ne: "pmm_free_pages s \<noteq> {}"
  shows "\<exists>c s' T'. vmm_get_or_create_pml s pml (of_nat i) flags = Inr (page_addr c, s') \<and> vmm_inv s' r T'
    \<and> c \<in> T' l \<and> pt_path (kmem s') f [i] = Some c \<and> vmm_ext s T s' T'"
proof -
  have wf: "pmm_wf s" and ok: "tables_ok (kmem s) T" and T3: "T 3 = {r}"
    and pages: "\<And>l f. f \<in> T l \<Longrightarrow> 0 < f \<and> f < pmm_pages s \<and> f \<notin> pmm_free_pages s"
    using inv by (auto simp: vmm_inv_def)
  have slot: "kaddr (pml + 8 * of_nat i) = cell f i"
    using kaddr_cell [OF p tables_okD(2) [OF ok f(1)] f(2)] .
  show ?thesis
  proof (cases "bit (pt_entry (kmem s) f i) 0")
    case True
    then have "vmm_get_or_create_pml s pml (of_nat i) flags = Inr (page_addr (frame_of (pt_entry (kmem s) f i)), s)"
      using tables_okD(4) [OF ok f True]
      by (simp add: vmm_get_or_create_pml_def slot pt_entry_def bit_0_iff_and)
    with True inv tables_okD(3) [OF ok f True] show ?thesis
      by (intro exI [of _ "frame_of (pt_entry (kmem s) f i)"] exI [of _ s] exI [of _ T])
        (simp add: vmm_ext_refl)
  next
    case False
    obtain j u where j: "j \<in> pmm_free_pages s" "pmm_allocz s 1 = Inr (page_addr j, u)"
      and u: "pmm_wf u" "pmm_pages u = pmm_pages s" "pmm_free_pages u = pmm_free_pages s - {j}"
        "kmem u = memset (kmem s) (page_addr j) 0 4096"
      using pg.allocz1_some [OF wf ne] by blast
    define s' where "s' = u\<lparr>kmem := store64 (kmem u) (cell f i) (page_addr j OR flags)\<rparr>"
    define T' where "T' = T(l := insert j (T l))"
    have j31: "j < 2 ^ 31" "0 < j" "j < pmm_pages s"
      using pg.avail_page [OF wf j(1)] vmm_pages_small [OF wf] by auto
    have jT: "j \<notin> T k" for k using pages [of j k] j(1) by blast
    have f31: "f < 2 ^ 31" by (rule tables_okD(2) [OF ok f(1)])
    have gr: "grown (kmem s) (kmem s') f i j flags"
      using f31 f(2) j31(1) by (auto simp: grown_def s'_def u(4) pt_entry_store pt_entry_cleared)
    note new = grown_tables [OF ok f False jT j31(1) fl gr, folded T'_def]
      and walk = grown_walk [OF ok f False jT j31(1) fl gr]
      and path = grown_path [OF ok False jT gr]
    have goc: "vmm_get_or_create_pml s pml (of_nat i) flags = Inr (page_addr j, s')"
      using False j(2) entry_fields(1) [OF j31(1) fl]
      by (simp add: vmm_get_or_create_pml_def slot pt_entry_def bit_0_iff_and s'_def)
    have inv': "vmm_inv s' r T'"
      using new u j31 pages T3 jT wf l
      by (auto simp: vmm_inv_def s'_def T'_def)
    have mem: "kmem s' a = kmem s a"
      if a: "unat a div 4096 \<notin> pmm_free_pages s" "\<forall>k. unat a div 4096 \<notin> T k" for a
    proof -
      have "unat a div 4096 \<noteq> j" "unat a div 4096 \<noteq> f" using a j(1) f(1) by auto
      then have "separate a 1 (page_addr j) (unat (4096 :: u64))" "separate a 1 (cell f i) 8"
        using j31(1) f31 f(2) unat_u64_less [of a] by (auto simp: separate_def unat_page_addr unat_cell)
      from separate_byte [OF this(1), of 0] separate_byte [OF this(2), of 0] show ?thesis
        by (simp add: s'_def u(4) store64_def store_word_def memset_closed)
    qed
    have "pt_path (kmem s') f [i] = Some j"
      using gr f31 f(2) entry_fields [OF j31(1) fl] by (simp add: grown_def)
    moreover have "vmm_ext s T s' T'"
      unfolding vmm_ext_def using walk path mem u(2,3) j(1) by (auto simp: s'_def T'_def)
    ultimately show ?thesis using goc inv' by (intro exI [of _ j] exI [of _ s'] exI [of _ T']) (simp add: T'_def)
  qed
qed

section \<open>Setting an entry\<close>

lemma vpage_ALIGN_DOWN [simp]: "vpage (ALIGN_DOWN v PAGE_SIZE) = vpage v"
  by (rule bit_word_eqI) (auto simp: vpage_def ALIGN_DOWN_def mask_4095 bit_simps dest: bit_imp_le_length)

lemma va_indices_ALIGN_DOWN [simp]: "va_indices (ALIGN_DOWN v PAGE_SIZE) = va_indices v"
  by (simp add: va_indices_eq_iff)

definition upper_indices :: "u64 \<Rightarrow> nat list" where
  "upper_indices v = [unat (pml4_index v), unat (pdpt_index v), unat (pd_index v)]"

lemma va_indices_split: "va_indices v = upper_indices v @ [unat (pt_index v)]"
  by (simp add: va_indices_def upper_indices_def)

lemma upper_indices_less: "\<forall>i\<in>set (upper_indices v @ [unat (pt_index w)]). i < 512"
  using index_less [of v] index_less(4) [of w] by (simp add: upper_indices_def)

lemma vmm_set_leaf:
  assumes inv: "vmm_inv s r T" and path: "pt_path (kmem s) r (upper_indices v) = Some f"
    and s': "s' = s\<lparr>kmem := store64 (kmem s) (cell f (unat (pt_index v))) w\<rparr>"
  shows "f \<in> T 0" "vmm_inv s' r T"
    and "vmm_translate (kmem s') r v' = (if vpage v' = vpage v then leaf_of w else vmm_translate (kmem s) r v')"
    and "\<forall>k. unat a div 4096 \<notin> T k \<Longrightarrow> kmem s' a = kmem s a"
proof -
  have ok: "tables_ok (kmem s) T" and r: "r \<in> T (length (upper_indices v))"
    using inv by (auto simp: vmm_inv_def upper_indices_def numeral_3_eq_3)
  show f: "f \<in> T 0"
    using pt_path_level [OF ok _ _ path, of 0] r upper_indices_less [of v v] by simp
  have f31: "f < 2 ^ 31" by (rule tables_okD(2) [OF ok f])
  have ls: "leaf_set (kmem s) (kmem s') f (unat (pt_index v)) w"
    using f31 index_less(4) [of v] by (simp add: leaf_set_def s' pt_entry_store)
  show "vmm_inv s' r T"
    using inv leaf_set_tables [OF ok f ls] by (simp add: vmm_inv_def s')
  have "length (upper_indices v') = length (upper_indices v)" by (simp add: upper_indices_def)
  from leaf_set_walk [OF ok f ls r path upper_indices_less this upper_indices_less [of v' v']]
  show "vmm_translate (kmem s') r v' = (if vpage v' = vpage v then leaf_of w else vmm_translate (kmem s) r v')"
    by (simp only: vmm_translate_def va_indices_split [symmetric] va_indices_eq_iff)
  show "kmem s' a = kmem s a" if "\<forall>k. unat a div 4096 \<notin> T k"
  proof -
    have "unat a div 4096 \<noteq> f" using that f by auto
    then have "separate a 1 (cell f (unat (pt_index v))) 8"
      using f31 index_less(4) [of v] unat_u64_less [of a] by (auto simp: separate_def unat_cell)
    from separate_byte [OF this, of 0] show ?thesis by (simp add: s' store64_def store_word_def)
  qed
qed

text \<open>The three upper levels are found or made; each step finds a page while any is free.\<close>

lemma table_ptr_page_addr [simp]: "table_ptr (page_addr f) f"
  by (simp add: table_ptr_def)

lemma pt_path_snoc:
  "pt_path m f is = Some g \<Longrightarrow> pt_path m g [i] = Some h \<Longrightarrow> pt_path m f (is @ [i]) = Some h"
  by (induction "is" arbitrary: f) (auto split: if_splits)

lemma vmm_walk_step:
  assumes inv: "vmm_inv s r T" and path: "pt_path (kmem s) r is = Some f" "f \<in> T (Suc l)" "\<forall>i\<in>set is. i < 512"
    and l: "l < 3" "length is + Suc l = 3" and ptr: "table_ptr p f" and fl: "flags_ok flags" and ne: "pmm_free_pages s \<noteq> {}"
    and ix: "unat ix < 512"
  shows "\<exists>c s' T'. vmm_get_or_create_pml s p ix flags = Inr (page_addr c, s') \<and> vmm_inv s' r T'
    \<and> c \<in> T' l \<and> pt_path (kmem s') r (is @ [unat ix]) = Some c \<and> vmm_ext s T s' T'"
proof -
  obtain c s' T' where c: "vmm_get_or_create_pml s p (of_nat (unat ix)) flags = Inr (page_addr c, s')"
      "vmm_inv s' r T'" "c \<in> T' l" "pt_path (kmem s') f [unat ix] = Some c" "vmm_ext s T s' T'"
    using vmm_get_or_create_pml_ok [OF inv path(2) ix l(1) ptr fl ne] by blast
  have "r \<in> T (Suc l + length is)" using inv l(2) by (simp add: vmm_inv_def add.commute)
  from pt_path_snoc [OF vmm_extD(6) [OF c(5) this path(3,1)] c(4)] show ?thesis
    using c by (intro exI [of _ c] exI [of _ s'] exI [of _ T']) simp
qed

lemma vmm_set_pt_value_total:
  assumes "pmm_wf s"
  shows "\<exists>t. vmm_set_pt_value s p v w flags pat = Inr t \<and> pmm_wf t \<and> pmm_free_pages t \<subseteq> pmm_free_pages s
    \<and> tlb_flushes t = v # tlb_flushes s \<and> root_page_table t = root_page_table s \<and> cr3 t = cr3 s"
proof -
  obtain p1 s1 where 1: "vmm_get_or_create_pml s p (pml4_index v) flags = Inr (p1, s1)" "pmm_wf s1"
      "pmm_free_pages s1 \<subseteq> pmm_free_pages s"
    using vmm_get_or_create_pml_total [OF assms] by blast
  obtain p2 s2 where 2: "vmm_get_or_create_pml s1 p1 (pdpt_index v) flags = Inr (p2, s2)" "pmm_wf s2"
      "pmm_free_pages s2 \<subseteq> pmm_free_pages s1"
    using vmm_get_or_create_pml_total [OF 1(2)] by blast
  obtain p3 s3 where 3: "vmm_get_or_create_pml s2 p2 (pd_index v) flags = Inr (p3, s3)" "pmm_wf s3"
      "pmm_free_pages s3 \<subseteq> pmm_free_pages s2"
    using vmm_get_or_create_pml_total [OF 2(2)] by blast
  have "same_cpu s s3"
    using vmm_get_or_create_pml_same_cpu [OF 1(1)] vmm_get_or_create_pml_same_cpu [OF 2(1)]
      vmm_get_or_create_pml_same_cpu [OF 3(1)] by (simp add: same_cpu_def)
  moreover have "pmm_free_pages s3 \<subseteq> pmm_free_pages s" using 1(3) 2(3) 3(3) by blast
  ultimately show ?thesis using 1(1) 2(1) 3(1,2)
    by (simp add: vmm_set_pt_value_def vmm_flush_tlb_def same_cpu_def)
qed

text \<open>What a sequence of mappings keeps: the tree only grows into free pages.\<close>

definition vmm_frame :: "'a vmm_state_scheme \<Rightarrow> (nat \<Rightarrow> nat set) \<Rightarrow> 'a vmm_state_scheme \<Rightarrow> (nat \<Rightarrow> nat set) \<Rightarrow> bool" where
  "vmm_frame s T t T' \<longleftrightarrow> pmm_pages t = pmm_pages s \<and> pmm_free_pages t \<subseteq> pmm_free_pages s
     \<and> (\<forall>k. T k \<subseteq> T' k \<and> T' k \<subseteq> T k \<union> pmm_free_pages s)
     \<and> (\<forall>a. unat a div 4096 \<notin> pmm_free_pages s \<longrightarrow> (\<forall>k. unat a div 4096 \<notin> T k) \<longrightarrow> kmem t a = kmem s a)"

lemma vmm_ext_frame: "vmm_ext s T t T' \<Longrightarrow> vmm_frame s T t T'"
  unfolding vmm_ext_def vmm_frame_def by blast

lemma vmm_frame_refl: "vmm_frame s T s T"
  by (simp add: vmm_frame_def)

lemma vmm_frame_trans:
  assumes "vmm_frame s T t T'" "vmm_frame t T' u T''"
  shows "vmm_frame s T u T''"
proof -
  have 1: "T k \<subseteq> T' k" "T' k \<subseteq> T k \<union> pmm_free_pages s" "pmm_free_pages t \<subseteq> pmm_free_pages s" for k
    using assms(1) by (simp_all add: vmm_frame_def)
  have 2: "T' k \<subseteq> T'' k" "T'' k \<subseteq> T' k \<union> pmm_free_pages t" "pmm_free_pages u \<subseteq> pmm_free_pages t" for k
    using assms(2) by (simp_all add: vmm_frame_def)
  have "kmem u a = kmem s a" if "unat a div 4096 \<notin> pmm_free_pages s" "\<forall>k. unat a div 4096 \<notin> T k" for a
  proof -
    have "unat a div 4096 \<notin> pmm_free_pages t" using that 1(3) by blast
    moreover have "\<forall>k. unat a div 4096 \<notin> T' k" using that 1(2) by blast
    ultimately show ?thesis using assms that by (simp add: vmm_frame_def)
  qed
  moreover have "T k \<subseteq> T'' k" "T'' k \<subseteq> T k \<union> pmm_free_pages s" for k using 1(1,2) [of k] 1(3) 2(1,2) [of k] by auto
  ultimately show ?thesis using assms 1(3) 2(3) by (simp add: vmm_frame_def)
qed

text \<open>The three calls of \<open>vmm_get_or_create_pml\<close> in \<open>vmm_set_pt_value\<close>.\<close>

lemma vmm_upper_tables:
  assumes inv: "vmm_inv s r T" and p: "table_ptr p r" and fl: "flags_ok flags"
    and goc: "vmm_get_or_create_pml s p (pml4_index v) flags = Inr (p1, s1)"
      "vmm_get_or_create_pml s1 p1 (pdpt_index v) flags = Inr (p2, s2)"
      "vmm_get_or_create_pml s2 p2 (pd_index v) flags = Inr (p3, s3)"
    and ne: "pmm_free_pages s3 \<noteq> {}"
  shows "\<exists>c T'. p3 = page_addr c \<and> vmm_inv s3 r T' \<and> pt_path (kmem s3) r (upper_indices v) = Some c
    \<and> vmm_ext s T s3 T'"
proof -
  have wf: "pmm_wf s" using inv by (simp add: vmm_inv_def)
  note n1 = vmm_get_or_create_pml_total [OF wf, of p "pml4_index v" flags, unfolded goc(1), simplified]
  note n2 = vmm_get_or_create_pml_total [OF conjunct1 [OF n1], of p1 "pdpt_index v" flags, unfolded goc(2), simplified]
  note n3 = vmm_get_or_create_pml_total [OF conjunct1 [OF n2], of p2 "pd_index v" flags, unfolded goc(3), simplified]
  have ne': "pmm_free_pages s \<noteq> {}" "pmm_free_pages s1 \<noteq> {}" "pmm_free_pages s2 \<noteq> {}"
    using n1 n2 n3 ne by blast+
  have r: "r \<in> T (Suc 2)" using inv by (simp add: vmm_inv_def numeral_3_eq_3 [symmetric])
  obtain c1 T1 where 1: "p1 = page_addr c1" "vmm_inv s1 r T1" "c1 \<in> T1 2"
      "pt_path (kmem s1) r [unat (pml4_index v)] = Some c1" "vmm_ext s T s1 T1"
    using vmm_walk_step [OF inv _ r _ _ _ p fl ne'(1) index_less(1) [of v], of "[]"] goc(1) by auto
  obtain c2 T2 where 2: "p2 = page_addr c2" "vmm_inv s2 r T2" "c2 \<in> T2 1"
      "pt_path (kmem s2) r [unat (pml4_index v), unat (pdpt_index v)] = Some c2" "vmm_ext s1 T1 s2 T2"
    using vmm_walk_step [OF 1(2,4) _ _ _ _ _ fl ne'(2) index_less(2) [of v], of 1 p1] goc(2) 1(1,3) index_less(1) [of v]
    by (auto simp: numeral_2_eq_2)
  obtain c3 T3 where 3: "p3 = page_addr c3" "vmm_inv s3 r T3"
      "pt_path (kmem s3) r (upper_indices v) = Some c3" "vmm_ext s2 T2 s3 T3"
    using vmm_walk_step [OF 2(2,4) _ _ _ _ _ fl ne'(3) index_less(3) [of v], of 0 p2] goc(3) 2(1,3) index_less(1,2) [of v]
    by (auto simp: upper_indices_def)
  then show ?thesis using vmm_ext_trans [OF vmm_ext_trans [OF 1(5) 2(5)] 3(4)] by blast
qed

lemma vmm_ext_translate:
  assumes "vmm_inv s r T" "vmm_ext s T t T'"
  shows "vmm_translate (kmem t) r v = vmm_translate (kmem s) r v"
  unfolding vmm_translate_def
  using vmm_extD(5) [OF assms(2), of r 3 "va_indices v"] va_indices_less [of _ v] assms(1)
  by (simp add: va_indices_def vmm_inv_def)

lemma vmm_set_pt_value_ok:
  assumes inv: "vmm_inv s r T" and p: "table_ptr p r" and fl: "flags_ok flags"
    and t: "vmm_set_pt_value s p v w flags pat = Inr t" and ne: "pmm_free_pages t \<noteq> {}"
  shows "\<exists>T'. vmm_inv t r T' \<and> vmm_frame s T t T'
    \<and> (\<forall>v'. vmm_translate (kmem t) r v' =
          (if vpage v' = vpage v then Some (w OR flags OR vmm_pat_cache_to_flags pat) else vmm_translate (kmem s) r v'))"
proof -
  obtain p1 s1 p2 s2 p3 s3 where goc: "vmm_get_or_create_pml s p (pml4_index v) flags = Inr (p1, s1)"
      "vmm_get_or_create_pml s1 p1 (pdpt_index v) flags = Inr (p2, s2)"
      "vmm_get_or_create_pml s2 p2 (pd_index v) flags = Inr (p3, s3)"
    and t': "t = vmm_flush_tlb v (s3\<lparr>kmem := store64 (kmem s3) (kaddr (p3 + 8 * pt_index v))
      (w OR flags OR vmm_pat_cache_to_flags pat)\<rparr>)"
    using t by (auto simp: vmm_set_pt_value_def rbind_eq_Inr)
  have "pmm_free_pages s3 \<noteq> {}" using ne t' by (simp add: vmm_flush_tlb_def)
  from vmm_upper_tables [OF inv p fl goc this] obtain c3 T3 where 3: "p3 = page_addr c3" "vmm_inv s3 r T3"
      "pt_path (kmem s3) r (upper_indices v) = Some c3" and ext: "vmm_ext s T s3 T3"
    by blast
  define u where "u = s3\<lparr>kmem := store64 (kmem s3) (cell c3 (unat (pt_index v))) (w OR flags OR vmm_pat_cache_to_flags pat)\<rparr>"
  note leaf = vmm_set_leaf [OF 3(2,3) u_def]
  have c31: "c3 < 2 ^ 31" using 3(2) leaf(1) tables_okD(2) by (auto simp: vmm_inv_def)
  have "kaddr (p3 + 8 * pt_index v) = cell c3 (unat (pt_index v))"
    using kaddr_cell [OF table_ptr_page_addr c31 index_less(4) [of v]] by (simp add: 3(1))
  then have tu: "t = vmm_flush_tlb v u" using t' by (simp add: u_def)
  have "bit (w OR flags OR vmm_pat_cache_to_flags pat) 0" using fl by (simp add: flags_ok_def bit_simps)
  then have "vmm_translate (kmem t) r v' =
      (if vpage v' = vpage v then Some (w OR flags OR vmm_pat_cache_to_flags pat) else vmm_translate (kmem s) r v')" for v'
    using leaf(3) [of v'] vmm_ext_translate [OF inv ext] by (simp add: tu vmm_flush_tlb_def leaf_of_def)
  moreover have "vmm_inv t r T3" using leaf(2) by (simp add: tu vmm_flush_tlb_def vmm_inv_def)
  moreover have "vmm_frame s3 T3 t T3" using leaf(4) by (simp add: vmm_frame_def tu vmm_flush_tlb_def u_def)
  then have "vmm_frame s T t T3" using vmm_frame_trans [OF vmm_ext_frame [OF ext]] by blast
  ultimately show ?thesis by blast
qed

section \<open>Ranges\<close>

lemma unat_vpage: "unat (vpage x) = unat x div 4096 mod 2 ^ 36"
proof -
  have "unat (vpage x) = take_bit 36 (drop_bit 12 (unat x))"
    by (simp add: vpage_def unsigned_take_bit_eq unsigned_drop_bit_eq drop_bit_take_bit)
  then show ?thesis by (simp add: take_bit_eq_mod drop_bit_eq_div)
qed

lemma vpage_offset:
  assumes "unat i mod 4096 = 0"
  shows "unat (vpage (i + offset)) = (unat i div 4096 + unat offset div 4096) mod 2 ^ 36"
proof -
  have fold: "x mod 2 ^ 64 div 4096 mod 2 ^ 36 = x div 4096 mod (2 ^ 36 :: nat)" for x
  proof -
    have "take_bit 36 (drop_bit 12 (take_bit 64 x)) = take_bit 36 (drop_bit 12 x)"
      by (simp add: drop_bit_take_bit)
    then show ?thesis by (simp add: take_bit_eq_mod drop_bit_eq_div)
  qed
  have "unat i = unat i div 4096 * 4096" using assms by auto
  then have "(unat i + unat offset) div 4096 = unat i div 4096 + unat offset div 4096"
    by (metis div_mult_self3 zero_neq_numeral)
  moreover have "unat (i + offset) = (unat i + unat offset) mod 2 ^ 64" by (simp add: unat_word_ariths)
  ultimately show ?thesis by (simp only: unat_vpage fold)
qed

lemma mod_add_inj:
  fixes x y z M :: nat
  assumes "(x + z) mod M = (y + z) mod M" "x < M" "y < M"
  shows "x = y"
proof -
  have "y = x" if "x \<le> y" "(x + z) mod M = (y + z) mod M" "y < M" for x y :: nat
  proof -
    have "M dvd (y + z) - (x + z)" using that by (intro mod_eq_dvd_iff_nat [THEN iffD1]) auto
    then have "M dvd y - x" by simp
    then show ?thesis using that(1,3) by (metis dvd_imp_le le_neq_implies_less less_imp_diff_less not_less zero_less_diff)
  qed
  from this [of x y, OF _ assms(1,3)] this [of y x, OF _ assms(1) [symmetric] assms(2)] show ?thesis
    using nat_le_linear [of x y] by metis
qed

lemma vpage_offset_inj:
  assumes "unat i mod 4096 = 0" "unat j mod 4096 = 0" "unat i < 2 ^ 48" "unat j < 2 ^ 48"
    and eq: "vpage (i + offset) = vpage (j + offset)"
  shows "i = j"
proof -
  have "(unat i div 4096 + unat offset div 4096) mod 2 ^ 36 = (unat j div 4096 + unat offset div 4096) mod 2 ^ 36"
    using arg_cong [OF eq, of unat] assms(1,2) by (simp only: vpage_offset)
  moreover have "unat i div 4096 < 2 ^ 36" "unat j div 4096 < 2 ^ 36" using assms(3,4) by simp_all
  ultimately have "unat i div 4096 = unat j div 4096" by (rule mod_add_inj)
  moreover have "unat i = unat i div 4096 * 4096" "unat j = unat j div 4096 * 4096" using assms(1,2) by auto
  ultimately have "unat i = unat j" by argo
  then show ?thesis by (simp only: word_unat_eq_iff)
qed

lemma vmm_map_page_total:
  "pmm_wf s \<Longrightarrow> \<exists>t. vmm_map_page s p phys v flags pat = Inr t \<and> pmm_wf t \<and> pmm_free_pages t \<subseteq> pmm_free_pages s
     \<and> tlb_flushes t = ALIGN_DOWN v PAGE_SIZE # tlb_flushes s \<and> root_page_table t = root_page_table s \<and> cr3 t = cr3 s"
  unfolding vmm_map_page_def by (rule vmm_set_pt_value_total)

lemma vmm_map_range_loop_total:
  "pmm_wf s \<Longrightarrow> \<exists>t. vmm_map_range_loop s p i bound offset flags pat = Inr t \<and> pmm_wf t
     \<and> pmm_free_pages t \<subseteq> pmm_free_pages s \<and> root_page_table t = root_page_table s \<and> cr3 t = cr3 s"
proof (induction s p i bound offset flags pat rule: vmm_map_range_loop.induct)
  case (1 s p i bound offset flags pat)
  show ?case
  proof (cases "i < ALIGN_UP bound PAGE_SIZE")
    case True
    obtain u where u: "vmm_map_page s p i (i + offset) flags pat = Inr u" "pmm_wf u"
        "pmm_free_pages u \<subseteq> pmm_free_pages s" "root_page_table u = root_page_table s" "cr3 u = cr3 s"
      using vmm_map_page_total [OF 1(2)] by blast
    from 1(1) [OF True u(1,2)] u True show ?thesis
      by (subst vmm_map_range_loop.simps) auto
  next
    case False
    with 1(2) show ?thesis by (subst vmm_map_range_loop.simps) auto
  qed
qed

lemma vmm_map_page_ok:
  assumes "vmm_inv s r T" "table_ptr p r" "flags_ok flags"
    and "vmm_map_page s p phys virt flags pat = Inr t" "pmm_free_pages t \<noteq> {}"
  shows "\<exists>T'. vmm_inv t r T' \<and> vmm_frame s T t T'
    \<and> (\<forall>v. vmm_translate (kmem t) r v =
          (if vpage v = vpage virt then Some (phys OR flags OR vmm_pat_cache_to_flags pat) else vmm_translate (kmem s) r v))"
  using vmm_set_pt_value_ok [OF assms(1-3) _ assms(5)] assms(4) unfolding vmm_map_page_def by fastforce

text \<open>The pages of a range: page-aligned addresses from \<open>i\<close> up to the rounded bound.\<close>

definition range_page :: "u64 \<Rightarrow> u64 \<Rightarrow> u64 \<Rightarrow> bool" where
  "range_page i bound j \<longleftrightarrow> i \<le> j \<and> j < ALIGN_UP bound PAGE_SIZE \<and> unat j mod 4096 = 0"

lemma range_page_step:
  assumes "i < ALIGN_UP bound PAGE_SIZE" "unat i mod 4096 = 0"
  shows "range_page i bound j \<longleftrightarrow> j = i \<or> range_page (i + PAGE_SIZE) bound j"
    and "unat (i + PAGE_SIZE) mod 4096 = 0"
    and "range_page (i + PAGE_SIZE) bound j \<Longrightarrow> j \<noteq> i"
proof -
  note st = range_step(2) [OF assms(1)]
  show mod: "unat (i + PAGE_SIZE) mod 4096 = 0" using assms(2) by (simp only: st) simp
  show "range_page (i + PAGE_SIZE) bound j \<Longrightarrow> j \<noteq> i"
    unfolding range_page_def word_le_nat_alt st by auto
  have "unat i + 4096 \<le> unat j" if "unat i \<le> unat j" "unat j mod 4096 = 0" "j \<noteq> i"
  proof -
    have "unat i < unat j" using that(1,3) by (auto simp: word_unat_eq_iff)
    then show ?thesis using that(2) assms(2) by (auto elim!: dvdE simp: mod_eq_0_iff_dvd)
  qed
  then show "range_page i bound j \<longleftrightarrow> j = i \<or> range_page (i + PAGE_SIZE) bound j"
    using assms unfolding range_page_def word_le_nat_alt st by auto
qed

lemma vmm_map_range_loop_ok:
  "vmm_inv s r T \<Longrightarrow> table_ptr p r \<Longrightarrow> flags_ok flags \<Longrightarrow> unat i mod 4096 = 0 \<Longrightarrow>
   ALIGN_UP bound PAGE_SIZE \<le> 0x1000000000000 \<Longrightarrow>
   vmm_map_range_loop s p i bound offset flags pat = Inr t \<Longrightarrow> pmm_free_pages t \<noteq> {} \<Longrightarrow>
   \<exists>T'. vmm_inv t r T' \<and> vmm_frame s T t T'
     \<and> (\<forall>j v. range_page i bound j \<longrightarrow> vpage v = vpage (j + offset) \<longrightarrow>
          vmm_translate (kmem t) r v = Some (j OR flags OR vmm_pat_cache_to_flags pat))
     \<and> (\<forall>v. (\<forall>j. range_page i bound j \<longrightarrow> vpage v \<noteq> vpage (j + offset)) \<longrightarrow>
          vmm_translate (kmem t) r v = vmm_translate (kmem s) r v)"
proof (induction s p i bound offset flags pat arbitrary: T rule: vmm_map_range_loop.induct)
  case (1 s p i bound offset flags pat)
  show ?case
  proof (cases "i < ALIGN_UP bound PAGE_SIZE")
    case False
    then have "t = s" "\<not> range_page i bound j" for j
      using 1(7) by (subst (asm) vmm_map_range_loop.simps, simp, simp add: range_page_def word_le_nat_alt word_less_nat_alt)
    with 1(2) vmm_frame_refl show ?thesis by blast
  next
    case True
    obtain u where u: "vmm_map_page s p i (i + offset) flags pat = Inr u"
        "vmm_map_range_loop u p (i + PAGE_SIZE) bound offset flags pat = Inr t"
      using 1(7) True by (subst (asm) vmm_map_range_loop.simps) (auto simp: rbind_eq_Inr)
    have wf: "pmm_wf u"
      using vmm_map_page_total [of s p i "i + offset" flags pat] 1(2) u(1) by (auto simp: vmm_inv_def)
    have ne: "pmm_free_pages u \<noteq> {}"
      using vmm_map_range_loop_total [OF wf, of p "i + PAGE_SIZE" bound offset flags pat] u(2) 1(8) by auto
    from vmm_map_page_ok [OF 1(2-4) u(1) ne] obtain T1 where T1: "vmm_inv u r T1" "vmm_frame s T u T1"
      "\<And>v. vmm_translate (kmem u) r v =
          (if vpage v = vpage (i + offset) then Some (i OR flags OR vmm_pat_cache_to_flags pat) else vmm_translate (kmem s) r v)"
      by blast
    note step = range_page_step [OF True 1(5)]
    from 1(1) [OF True u(1) T1(1) 1(3,4) step(2) 1(6) u(2) 1(8)] obtain T2 where
      T2: "vmm_inv t r T2" "vmm_frame u T1 t T2"
      and hit: "\<And>j v. range_page (i + PAGE_SIZE) bound j \<Longrightarrow> vpage v = vpage (j + offset) \<Longrightarrow>
          vmm_translate (kmem t) r v = Some (j OR flags OR vmm_pat_cache_to_flags pat)"
      and miss: "\<And>v. (\<And>j. range_page (i + PAGE_SIZE) bound j \<Longrightarrow> vpage v \<noteq> vpage (j + offset)) \<Longrightarrow>
          vmm_translate (kmem t) r v = vmm_translate (kmem u) r v"
      by blast
    have inj: "vpage (i + offset) \<noteq> vpage (j + offset)" if "range_page (i + PAGE_SIZE) bound j" for j
      using vpage_offset_inj [OF 1(5), of j offset] step(3) [OF that] that True 1(6)
      by (auto simp: range_page_def word_less_nat_alt word_le_nat_alt)
    show ?thesis
    proof (intro exI [of _ T2] conjI allI impI)
      show "vmm_frame s T t T2" by (rule vmm_frame_trans [OF T1(2) T2(2)])
      show "vmm_translate (kmem t) r v = Some (j OR flags OR vmm_pat_cache_to_flags pat)"
        if "range_page i bound j" "vpage v = vpage (j + offset)" for j v
        using that hit [of j v] miss [of v] inj T1(3) [of v] step(1) [of j] by auto
      show "vmm_translate (kmem t) r v = vmm_translate (kmem s) r v"
        if v: "\<forall>j. range_page i bound j \<longrightarrow> vpage v \<noteq> vpage (j + offset)" for v
      proof -
        have "vpage v \<noteq> vpage (i + offset)" using v step(1) [of i] by blast
        moreover have "vmm_translate (kmem t) r v = vmm_translate (kmem u) r v" using v step(1) by (intro miss) blast
        ultimately show ?thesis using T1(3) [of v] by simp
      qed
    qed (rule T2(1))
  qed
qed

section \<open>Unmapping\<close>

text \<open>When the upper tables exist, any flags reach the entry of the last level and no page is taken.\<close>

lemma vmm_get_or_create_pml_present:
  assumes ok: "tables_ok (kmem s) T" and f: "f \<in> T (Suc l)" "unat ix < 512" and ptr: "table_ptr p f"
    and path: "pt_path (kmem s) f [unat ix] = Some c"
  shows "vmm_get_or_create_pml s p ix flags = Inr (page_addr c, s)"
proof -
  have b: "bit (pt_entry (kmem s) f (unat ix)) 0" "frame_of (pt_entry (kmem s) f (unat ix)) = c"
    using path by (auto split: if_splits)
  have "kaddr (p + 8 * ix) = cell f (unat ix)"
    using kaddr_cell [OF ptr tables_okD(2) [OF ok f(1)] f(2)] by simp
  with b tables_okD(4) [OF ok f b(1)] show ?thesis
    by (simp add: vmm_get_or_create_pml_def pt_entry_def bit_0_iff_and)
qed

lemma pt_path_Cons: "pt_path m f (i # is) = Some c \<longleftrightarrow> (\<exists>d. pt_path m f [i] = Some d \<and> pt_path m d is = Some c)"
  by auto

lemma vmm_set_pt_value_present:
  assumes inv: "vmm_inv s r T" and ptr: "table_ptr p r" and path: "pt_path (kmem s) r (upper_indices v) = Some c"
  shows "vmm_set_pt_value s p v w flags pat = Inr (vmm_flush_tlb v
    (s\<lparr>kmem := store64 (kmem s) (cell c (unat (pt_index v))) (w OR flags OR vmm_pat_cache_to_flags pat)\<rparr>))"
proof -
  have ok: "tables_ok (kmem s) T" and r: "r \<in> T (Suc 2)" using inv by (auto simp: vmm_inv_def numeral_3_eq_3 [symmetric])
  obtain d e where d: "pt_path (kmem s) r [unat (pml4_index v)] = Some d" "pt_path (kmem s) d [unat (pdpt_index v)] = Some e"
      "pt_path (kmem s) e [unat (pd_index v)] = Some c"
    using path unfolding upper_indices_def pt_path_Cons [of _ _ _ "_ # _"] by blast
  have dT: "d \<in> T (Suc 1)" using pt_path_level [OF ok _ _ d(1), of "Suc 1"] r index_less(1) [of v] by (simp add: numeral_3_eq_3)
  have eT: "e \<in> T (Suc 0)" using pt_path_level [OF ok _ _ d(2), of "Suc 0"] dT index_less(2) [of v] by simp
  have cT: "c \<in> T 0" using pt_path_level [OF ok _ _ d(3), of 0] eT index_less(3) [of v] by simp
  have "kaddr (page_addr c + 8 * pt_index v) = cell c (unat (pt_index v))"
    using kaddr_cell [OF table_ptr_page_addr tables_okD(2) [OF ok cT] index_less(4) [of v]] by simp
  then show ?thesis
    using vmm_get_or_create_pml_present [OF ok r index_less(1) ptr d(1)]
      vmm_get_or_create_pml_present [OF ok dT index_less(2) _ d(2)]
      vmm_get_or_create_pml_present [OF ok eT index_less(3) _ d(3)]
    by (simp add: vmm_set_pt_value_def)
qed

lemma vmm_translate_upper:
  "vmm_translate m r v = Some e \<Longrightarrow> \<exists>c. pt_path m r (upper_indices v) = Some c"
  by (auto simp: vmm_translate_def va_indices_split pt_walk_path split: option.splits)

lemma upper_indices_ALIGN_DOWN [simp]:
  "upper_indices (ALIGN_DOWN v PAGE_SIZE) = upper_indices v" "pt_index (ALIGN_DOWN v PAGE_SIZE) = pt_index v"
  using va_indices_ALIGN_DOWN [of v] by (simp_all add: va_indices_split word_unat_eq_iff)

lemma vmm_unmap_page_present:
  assumes "vmm_inv s r T" "table_ptr p r" "pt_path (kmem s) r (upper_indices v) = Some c"
  shows "vmm_unmap_page s p v = Inr (vmm_flush_tlb (ALIGN_DOWN v PAGE_SIZE)
    (s\<lparr>kmem := store64 (kmem s) (cell c (unat (pt_index v))) 0\<rparr>))"
  using vmm_set_pt_value_present [OF assms(1,2), of "ALIGN_DOWN v PAGE_SIZE" c] assms(3)
  by (simp add: vmm_unmap_page_def)

section \<open>A fresh root\<close>

lemma fresh_root_inv:
  assumes "pmm_wf s" "pmm_free_pages s \<noteq> {}"
  shows "\<exists>r u. r \<in> pmm_free_pages s \<and> pmm_allocz s 1 = Inr (page_addr r, u)
    \<and> vmm_inv u r (\<lambda>l. if l = 3 then {r} else {}) \<and> (\<forall>v. vmm_translate (kmem u) r v = None)"
proof -
  obtain r u where r: "r \<in> pmm_free_pages s" "pmm_allocz s 1 = Inr (page_addr r, u)"
    and u: "pmm_wf u" "pmm_pages u = pmm_pages s" "pmm_free_pages u = pmm_free_pages s - {r}"
      "kmem u = memset (kmem s) (page_addr r) 0 4096"
    using pg.allocz1_some [OF assms] by blast
  have r31: "0 < r" "r < pmm_pages s" "r < 2 ^ 31"
    using pg.avail_page [OF assms(1) r(1)] vmm_pages_small [OF assms(1)] by auto
  have zero: "pt_entry (kmem u) r i = 0" if "i < 512" for i
    using pt_entry_cleared [OF r31(3,3) that] by (simp add: u(4))
  then have "vmm_inv u r (\<lambda>l. if l = 3 then {r} else {})"
    using u r31 by (auto simp: vmm_inv_def tables_ok_def)
  moreover have "vmm_translate (kmem u) r v = None" for v
    unfolding vmm_translate_def using zero va_indices_less [of _ v] by (intro pt_walk_empty_table) auto
  ultimately show ?thesis using r by blast
qed

section \<open>How many pages mapping takes\<close>

lemma pmm_allocz1_card:
  assumes "pmm_wf s" "pmm_allocz s 1 = Inr (p, t)"
  shows "card (pmm_free_pages s) \<le> Suc (card (pmm_free_pages t))"
proof (cases "pmm_free_pages s = {}")
  case False
  obtain j where "j \<in> pmm_free_pages s" "pmm_free_pages t = pmm_free_pages s - {j}"
    using pg.allocz1_some [OF assms(1) False] assms(2) by auto
  then show ?thesis by simp
qed simp

lemma vmm_get_or_create_pml_card:
  assumes "pmm_wf s" "vmm_get_or_create_pml s p i flags = Inr (q, t)"
  shows "pmm_wf t \<and> card (pmm_free_pages s) \<le> Suc (card (pmm_free_pages t))"
proof -
  have "pmm_wf t" using vmm_get_or_create_pml_total [OF assms(1), of p i flags] assms(2) by auto
  moreover have "card (pmm_free_pages s) \<le> Suc (card (pmm_free_pages t))"
  proof (cases "load64 (kmem s) (kaddr (p + 8 * i)) AND 1 = 0")
    case True
    then obtain q u where "pmm_allocz s 1 = Inr (q, u)" "pmm_free_pages t = pmm_free_pages u"
      using assms(2) by (auto simp: vmm_get_or_create_pml_def Let_def rbind_eq_Inr)
    with pmm_allocz1_card [OF assms(1)] show ?thesis by metis
  next
    case False
    then show ?thesis using assms(2) by (simp add: vmm_get_or_create_pml_def)
  qed
  ultimately show ?thesis ..
qed

lemma vmm_map_page_card:
  assumes "pmm_wf s" "vmm_map_page s p phys v flags pat = Inr t"
  shows "card (pmm_free_pages s) \<le> card (pmm_free_pages t) + 3"
proof -
  let ?v = "ALIGN_DOWN v PAGE_SIZE"
  obtain p1 s1 p2 s2 p3 s3 where goc: "vmm_get_or_create_pml s p (pml4_index ?v) flags = Inr (p1, s1)"
      "vmm_get_or_create_pml s1 p1 (pdpt_index ?v) flags = Inr (p2, s2)"
      "vmm_get_or_create_pml s2 p2 (pd_index ?v) flags = Inr (p3, s3)"
    and t: "pmm_free_pages t = pmm_free_pages s3"
    using assms(2) by (auto simp: vmm_map_page_def vmm_set_pt_value_def vmm_flush_tlb_def rbind_eq_Inr)
  note 1 = vmm_get_or_create_pml_card [OF assms(1) goc(1)]
  note 2 = vmm_get_or_create_pml_card [OF conjunct1 [OF 1] goc(2)]
  note 3 = vmm_get_or_create_pml_card [OF conjunct1 [OF 2] goc(3)]
  from 1 2 3 show ?thesis unfolding t by linarith
qed

text \<open>
  Pages of the same 2 MiB block share their upper tables, so a range takes at most three pages for
  each block it meets.
\<close>

definition vblock :: "u64 \<Rightarrow> nat" where "vblock v = unat (vpage v) div 512"

lemma vblock_upper: "vblock v = vblock w \<Longrightarrow> upper_indices v = upper_indices w"
proof -
  assume "vblock v = vblock w"
  then have eq: "drop_bit 9 (vpage v) = drop_bit 9 (vpage w)"
    by (simp add: vblock_def word_unat_eq_iff unat_drop_bit_eq drop_bit_eq_div unat_div)
  have "bit v (n + 21) = bit w (n + 21)" if "n < 27" for n
    using arg_cong [OF eq, of "\<lambda>x. bit x n"] that
    by (auto simp: vpage_def bit_simps add.commute dest: bit_imp_le_length)
  then have b: "bit v k = bit w k" if "21 \<le> k" "k < 48" for k
  proof -
    have "k = (k - 21) + 21" "k - 21 < 27" using that by simp_all
    with \<open>\<And>n. n < 27 \<Longrightarrow> bit v (n + 21) = bit w (n + 21)\<close> show ?thesis by metis
  qed
  have "pml4_index v = pml4_index w" "pdpt_index v = pdpt_index w" "pd_index v = pd_index w"
    by (rule bit_word_eqI, auto simp: index_bits b)+
  then show ?thesis by (simp add: upper_indices_def)
qed

definition has_upper :: "'a vmm_state_scheme \<Rightarrow> nat \<Rightarrow> u64 \<Rightarrow> bool" where
  "has_upper s r v \<longleftrightarrow> pt_path (kmem s) r (upper_indices v) \<noteq> None"

lemma vmm_map_page_cost:
  assumes "vmm_inv s r T" "table_ptr p r" "vmm_map_page s p phys v flags pat = Inr t"
  shows "card (pmm_free_pages s) \<le> card (pmm_free_pages t) + (if has_upper s r v then 0 else 3)"
proof (cases "has_upper s r v")
  case True
  then obtain c where "pt_path (kmem s) r (upper_indices (ALIGN_DOWN v PAGE_SIZE)) = Some c" by (auto simp: has_upper_def)
  from vmm_set_pt_value_present [OF assms(1,2) this] assms(3) have "pmm_free_pages t = pmm_free_pages s"
    by (auto simp: vmm_map_page_def vmm_flush_tlb_def)
  then show ?thesis by simp
next
  case False
  moreover have "pmm_wf s" using assms(1) by (simp add: vmm_inv_def)
  ultimately show ?thesis using vmm_map_page_card [OF _ assms(3)] by simp
qed

text \<open>The blocks that \<open>n\<close> pages meet, from page \<open>x\<close> of a block on, when the first block may have its tables.\<close>

definition block_count :: "nat \<Rightarrow> nat \<Rightarrow> bool \<Rightarrow> nat" where
  "block_count x n known = (x + n - 1) div 512 + (if 0 < n \<and> \<not> known then 1 else 0)"

lemma block_count_step:
  assumes "0 < n" "x < 512" "x < 511 \<longrightarrow> k"
  shows "block_count ((x + 1) mod 512) (n - 1) k + (if known then 0 else 1) \<le> block_count x n known"
proof (cases "x < 511")
  case True
  then show ?thesis using assms by (simp add: block_count_def)
next
  case False
  then have x: "x = 511" using assms(2) by simp
  show ?thesis
  proof (cases "n = 1")
    case False
    then obtain m where "n = Suc (Suc m)" using assms(1) by (cases n; cases "n - 1") auto
    then show ?thesis using x div_add_self1 [of 512 m] by (simp add: block_count_def)
  qed (simp add: block_count_def x)
qed

lemma div_512_Suc: "w mod 512 < 511 \<Longrightarrow> w < 2 ^ 36 \<Longrightarrow> (w + 1) mod 2 ^ 36 div 512 = w div (512 :: nat)"
proof -
  assume w: "w mod 512 < 511" "w < 2 ^ 36"
  have "w \<noteq> 2 ^ 36 - 1" using w(1) by auto
  then have "(w + 1) mod 2 ^ 36 = w + 1" using w(2) by simp
  moreover have "Suc w mod 512 \<noteq> 0" using w(1) by (simp add: mod_Suc)
  ultimately show ?thesis by (simp add: div_Suc)
qed

lemma ALIGN_UP_mod: "unat (ALIGN_UP bound PAGE_SIZE) mod 4096 = 0"
  using unat_and_not_mask [of 12 "bound + PAGE_SIZE - 1"] by (simp add: ALIGN_UP_def mask_4095)

lemma vmm_map_range_loop_cost:
  "vmm_inv s r T \<Longrightarrow> table_ptr p r \<Longrightarrow> flags_ok flags \<Longrightarrow> unat i mod 4096 = 0 \<Longrightarrow>
   vmm_map_range_loop s p i bound offset flags pat = Inr t \<Longrightarrow>
   n = (unat (ALIGN_UP bound PAGE_SIZE) - unat i) div 4096 \<Longrightarrow> x = unat (vpage (i + offset)) mod 512 \<Longrightarrow>
   3 * block_count x n (has_upper s r (i + offset)) < card (pmm_free_pages s) \<Longrightarrow>
   card (pmm_free_pages s) \<le> card (pmm_free_pages t) + 3 * block_count x n (has_upper s r (i + offset))"
proof (induction s p i bound offset flags pat arbitrary: T n x rule: vmm_map_range_loop.induct)
  case (1 s p i bound offset flags pat)
  show ?case
  proof (cases "i < ALIGN_UP bound PAGE_SIZE")
    case False
    then have "t = s" using 1(6) by (subst (asm) vmm_map_range_loop.simps) simp
    then show ?thesis by simp
  next
    case True
    let ?k = "has_upper s r (i + offset)"
    obtain u where u: "vmm_map_page s p i (i + offset) flags pat = Inr u"
        "vmm_map_range_loop u p (i + PAGE_SIZE) bound offset flags pat = Inr t"
      using 1(6) True by (subst (asm) vmm_map_range_loop.simps) (auto simp: rbind_eq_Inr)
    note st = range_step(2) [OF True] and al = range_page_step(2) [OF True 1(5)]
    define A where "A = unat (ALIGN_UP bound PAGE_SIZE)"
    have A: "A mod 4096 = 0" "unat i < A" using ALIGN_UP_mod True by (auto simp: A_def word_less_nat_alt)
    then obtain a b where ab: "A = 4096 * a" "unat i = 4096 * b" using 1(5) by (auto elim!: dvdE simp: mod_eq_0_iff_dvd)
    have n: "n = a - b" "b < a" using 1(7) ab A(2) by (simp_all add: A_def [symmetric] flip: diff_mult_distrib2)
    have n': "(A - unat (i + PAGE_SIZE)) div 4096 = n - 1"
      unfolding st ab n using div_mult_self1_is_m [of 4096 "a - Suc b"] by (simp add: diff_mult_distrib2)
    have vp: "unat (vpage (i + PAGE_SIZE + offset)) = (unat (vpage (i + offset)) + 1) mod 2 ^ 36"
      unfolding vpage_offset [OF al] vpage_offset [OF 1(5)] st by (simp add: ab mod_Suc_eq)
    then have x': "unat (vpage (i + PAGE_SIZE + offset)) mod 512 = (x + 1) mod 512"
      using 1(8) by (simp add: mod_mod_cancel mod_Suc_eq)
    have cost: "card (pmm_free_pages s) \<le> card (pmm_free_pages u) + (if ?k then 0 else 3)"
      by (rule vmm_map_page_cost [OF 1(2,3) u(1)])
    have xs: "x < 512" using 1(8) by simp
    have "0 < card (pmm_free_pages u)"
      using cost 1(9) n block_count_def [of x n ?k] by (auto split: if_splits)
    then have "pmm_free_pages u \<noteq> {}" by auto
    from vmm_map_page_ok [OF 1(2-4) u(1) this] obtain T1 where T1: "vmm_inv u r T1"
      "vmm_translate (kmem u) r (i + offset) = Some (i OR flags OR vmm_pat_cache_to_flags pat)"
      by auto
    let ?k' = "has_upper u r (i + PAGE_SIZE + offset)"
    have known: "x < 511 \<longrightarrow> ?k'"
    proof
      assume "x < 511"
      then have "vblock (i + PAGE_SIZE + offset) = vblock (i + offset)"
        using 1(8) div_512_Suc [of "unat (vpage (i + offset))"] unat_vpage [of "i + offset"] by (simp add: vblock_def vp)
      from vblock_upper [OF this] show ?k'
        using vmm_translate_upper [OF T1(2)] by (auto simp: has_upper_def)
    qed
    note step = block_count_step [OF _ xs known, of n ?k]
    have less: "3 * block_count ((x + 1) mod 512) (n - 1) ?k' < card (pmm_free_pages u)"
      using step n cost 1(9) by (auto split: if_splits)
    have "card (pmm_free_pages u) \<le> card (pmm_free_pages t) + 3 * block_count ((x + 1) mod 512) (n - 1) ?k'"
      using 1(1) [OF True u(1) T1(1) 1(3,4) al u(2) _ _ less] n' x' by (simp add: A_def)
    then show ?thesis using step n cost by (auto split: if_splits)
  qed
qed

lemma block_count_bound: "block_count x n k \<le> n div 512 + 2" if "x < 512"
proof -
  have "(x + n - 1) div 512 \<le> (n + 512) div 512" using that by (intro div_le_mono) simp
  also have "\<dots> = n div 512 + 1" by simp
  finally show ?thesis by (simp add: block_count_def)
qed

lemma vmm_map_range_loop_left:
  assumes "vmm_inv s r T" "table_ptr p r" "flags_ok flags" "unat i mod 4096 = 0"
    and t: "vmm_map_range_loop s p i bound offset flags pat = Inr t"
    and enough: "3 * ((unat (ALIGN_UP bound PAGE_SIZE) - unat i) div 0x200000 + 2) < card (pmm_free_pages s)"
  shows "pmm_free_pages t \<noteq> {}"
proof -
  let ?D = "unat (ALIGN_UP bound PAGE_SIZE) - unat i" and ?x = "unat (vpage (i + offset)) mod 512"
  have "?D div 4096 div 512 = ?D div 0x200000" by (simp only: div_mult2_eq [symmetric]) simp
  then have "3 * block_count ?x (?D div 4096) k < card (pmm_free_pages s)" for k
    using enough block_count_bound [of ?x "?D div 4096" k] by simp
  from vmm_map_range_loop_cost [OF assms(1-4) t refl refl this] this [of "has_upper s r (i + offset)"] show ?thesis by auto
qed

lemma block_count_aligned: "block_count 0 n k \<le> (n + 511) div 512"
proof (cases n)
  case (Suc m)
  have "(Suc m + 511) div 512 = Suc (m div 512)" using div_add_self1 [of 512 m] by (simp add: add.commute)
  then show ?thesis using Suc by (simp add: block_count_def)
qed (simp add: block_count_def)

section \<open>Windows\<close>

text \<open>
  A window maps the consecutive virtual pages from number \<open>c\<close> on to the physical pages from 0
  on. A range mapped from 0 with a fixed offset is such a window.
\<close>

definition page_count_of :: "u64 \<Rightarrow> nat" where
  "page_count_of bound = unat (ALIGN_UP bound PAGE_SIZE) div 4096"

definition window_at :: "u64 \<Rightarrow> nat \<Rightarrow> bool" where
  "window_at offset c \<longleftrightarrow> unat offset div 4096 mod 2 ^ 36 = c"

lemma window_vpage:
  assumes "window_at offset c" "unat j mod 4096 = 0" "c + unat j div 4096 < 2 ^ 36"
  shows "unat (vpage (j + offset)) = c + unat j div 4096"
proof -
  have "unat (vpage (j + offset)) = (unat j div 4096 + unat offset div 4096 mod 2 ^ 36) mod 2 ^ 36"
    by (simp only: vpage_offset [OF assms(2)] mod_add_right_eq)
  also have "\<dots> = c + unat j div 4096" using assms(1,3) unfolding window_at_def by (simp add: add.commute)
  finally show ?thesis .
qed

lemma range_page_from_0:
  "range_page 0 bound j \<longleftrightarrow> unat j mod 4096 = 0 \<and> unat j div 4096 < page_count_of bound"
proof -
  have "unat (ALIGN_UP bound PAGE_SIZE) mod 4096 = 0"
    using unat_and_not_mask [of 12 "bound + PAGE_SIZE - 1"] by (simp add: ALIGN_UP_def mask_4095)
  then have up: "unat (ALIGN_UP bound PAGE_SIZE) = page_count_of bound * 4096"
    unfolding page_count_of_def by auto
  have "unat j < page_count_of bound * 4096 \<longleftrightarrow> unat j div 4096 < page_count_of bound" if "unat j mod 4096 = 0"
    using that by (auto elim!: dvdE simp: mod_eq_0_iff_dvd)
  then show ?thesis by (auto simp: range_page_def word_less_nat_alt up)
qed

lemma vmm_map_range_window:
  assumes inv: "vmm_inv s r T" and p: "table_ptr p r" and fl: "flags_ok flags"
    and w: "window_at offset c" "c + page_count_of bound \<le> 2 ^ 36"
    and t: "vmm_map_range s p 0 bound offset flags pat = Inr t" and ne: "pmm_free_pages t \<noteq> {}"
  shows "\<exists>T'. vmm_inv t r T' \<and> vmm_frame s T t T'
    \<and> (\<forall>v. vmm_translate (kmem t) r v = (if c \<le> unat (vpage v) \<and> unat (vpage v) < c + page_count_of bound
         then Some (page_addr (unat (vpage v) - c) OR flags OR vmm_pat_cache_to_flags pat)
         else vmm_translate (kmem s) r v))"
proof -
  have up: "ALIGN_UP bound PAGE_SIZE \<le> 0x1000000000000"
  proof -
    have "unat (ALIGN_UP bound PAGE_SIZE) div 4096 < 2 ^ 36 + 1" using w(2) by (simp add: page_count_of_def)
    moreover have "unat (ALIGN_UP bound PAGE_SIZE) mod 4096 = 0"
      using unat_and_not_mask [of 12 "bound + PAGE_SIZE - 1"] by (simp add: ALIGN_UP_def mask_4095)
    ultimately have "unat (ALIGN_UP bound PAGE_SIZE) \<le> 2 ^ 48" by (auto elim!: dvdE simp: mod_eq_0_iff_dvd)
    then show ?thesis by (simp add: word_le_nat_alt)
  qed
  have t': "vmm_map_range_loop s p 0 bound offset flags pat = Inr t"
    using t by (simp add: vmm_map_range_def ALIGN_DOWN_def)
  obtain T' where T': "vmm_inv t r T'" "vmm_frame s T t T'"
    and hit: "\<And>j v. range_page 0 bound j \<Longrightarrow> vpage v = vpage (j + offset) \<Longrightarrow>
          vmm_translate (kmem t) r v = Some (j OR flags OR vmm_pat_cache_to_flags pat)"
    and miss: "\<And>v. (\<And>j. range_page 0 bound j \<Longrightarrow> vpage v \<noteq> vpage (j + offset)) \<Longrightarrow>
          vmm_translate (kmem t) r v = vmm_translate (kmem s) r v"
    using vmm_map_range_loop_ok [OF inv p fl _ up t' ne] by auto
  have vp: "unat (vpage (j + offset)) = c + unat j div 4096" if "range_page 0 bound j" for j
    using that w by (intro window_vpage) (auto simp: range_page_from_0)
  have "vmm_translate (kmem t) r v = Some (page_addr (unat (vpage v) - c) OR flags OR vmm_pat_cache_to_flags pat)"
    if v: "c \<le> unat (vpage v)" "unat (vpage v) < c + page_count_of bound" for v
  proof (rule hit)
    have k: "unat (page_addr (unat (vpage v) - c)) = (unat (vpage v) - c) * 4096"
      using v w(2) by (intro unat_page_addr) simp
    then show rp: "range_page 0 bound (page_addr (unat (vpage v) - c))" using v by (simp add: range_page_from_0)
    show "vpage v = vpage (page_addr (unat (vpage v) - c) + offset)"
      using vp [OF rp] v by (simp add: word_unat_eq_iff k)
  qed
  moreover have "vmm_translate (kmem t) r v = vmm_translate (kmem s) r v"
    if v: "\<not> (c \<le> unat (vpage v) \<and> unat (vpage v) < c + page_count_of bound)" for v
    using v vp by (intro miss) (auto simp: range_page_from_0)
  ultimately show ?thesis using T' by (intro exI [of _ T']) simp
qed

definition table_pages :: "nat \<Rightarrow> nat" where
  "table_pages n = 3 * ((n + 511) div 512)"

lemma vmm_map_range_cost:
  assumes inv: "vmm_inv s r T" and p: "table_ptr p r" "flags_ok flags"
    and w: "window_at offset c" "c mod 512 = 0" and enough: "table_pages (page_count_of bound) < card (pmm_free_pages s)"
  shows "\<exists>t. vmm_map_range s p 0 bound offset flags pat = Inr t
    \<and> card (pmm_free_pages s) \<le> card (pmm_free_pages t) + table_pages (page_count_of bound)
    \<and> root_page_table t = root_page_table s \<and> cr3 t = cr3 s"
proof -
  have "pmm_wf s" using inv by (simp add: vmm_inv_def)
  then obtain t where t: "vmm_map_range_loop s p 0 bound offset flags pat = Inr t"
      "root_page_table t = root_page_table s" "cr3 t = cr3 s"
    using vmm_map_range_loop_total by blast
  let ?k = "has_upper s r (0 + offset)"
  have x: "unat (vpage (0 + offset)) mod 512 = 0" using w by (simp add: unat_vpage window_at_def)
  have b: "3 * block_count 0 (page_count_of bound) ?k \<le> table_pages (page_count_of bound)"
    unfolding table_pages_def using block_count_aligned [of "page_count_of bound" ?k] by simp
  have "card (pmm_free_pages s) \<le> card (pmm_free_pages t) + 3 * block_count 0 (page_count_of bound) ?k"
    using vmm_map_range_loop_cost [OF inv p _ t(1) refl refl] b enough x by (simp add: page_count_of_def)
  then show ?thesis using t b by (simp add: vmm_map_range_def ALIGN_DOWN_def)
qed

abbreviation vmm_map_memmap_entry ::
  "u64 \<Rightarrow> stivale2_mmap_entry \<Rightarrow> 'a vmm_state_scheme \<Rightarrow> 'a vmm_state_scheme result" where
  "vmm_map_memmap_entry root \<equiv> \<lambda>current_entry s. vmm_map_range s root 0 (mmap_length current_entry) HIGHER_HALF_DATA
     (privilege_flags KERNEL_READ_WRITE) PAT_UNCACHEABLE"

definition memmap_table_pages :: "stivale2_mmap_entry list \<Rightarrow> nat" where
  "memmap_table_pages es = sum_list (map (\<lambda>e. table_pages (page_count_of (mmap_length e))) es)"

text \<open>The page number where each window of \<open>vmm_init\<close> starts.\<close>

lemma kernel_windows:
  "window_at 0 0" "window_at HIGHER_HALF_DATA (2 ^ 35)" "window_at HEAP_START_ADDR (2 ^ 35 + 2 ^ 32)"
  "window_at HIGHER_HALF_CODE (2 ^ 36 - 2 ^ 19)"
  by (simp_all add: window_at_def HIGHER_HALF_DATA_def HEAP_START_ADDR_def HIGHER_HALF_CODE_def)

lemma kernel_window_sizes:
  "page_count_of (4 * GiB) = 2 ^ 20" "page_count_of HEAP_MAX_SIZE = 2 ^ 20" "page_count_of (2 * GiB) = 2 ^ 19"
  by (simp_all add: page_count_of_def HEAP_MAX_SIZE_def GiB_def ALIGN_UP_def)

lemma vmm_map_memmap_total:
  assumes "table_ptr root r" "\<forall>e\<in>set es. page_count_of (mmap_length e) \<le> 2 ^ 32"
  shows "vmm_inv s r T \<Longrightarrow> memmap_table_pages es < card (pmm_free_pages s) \<Longrightarrow>
    \<exists>t. rfold (vmm_map_memmap_entry root) es s = Inr t
    \<and> card (pmm_free_pages s) \<le> card (pmm_free_pages t) + memmap_table_pages es
    \<and> root_page_table t = root_page_table s \<and> cr3 t = cr3 s"
  using assms(2)
proof (induction es arbitrary: s T)
  case Nil
  then show ?case by (simp add: memmap_table_pages_def)
next
  case (Cons e es)
  let ?n = "table_pages (page_count_of (mmap_length e))"
  have n: "?n + memmap_table_pages es < card (pmm_free_pages s)" using Cons.prems(2) by (simp add: memmap_table_pages_def)
  obtain u where u: "vmm_map_memmap_entry root e s = Inr u" "card (pmm_free_pages s) \<le> card (pmm_free_pages u) + ?n"
      "root_page_table u = root_page_table s" "cr3 u = cr3 s"
    using vmm_map_range_cost [OF Cons.prems(1) assms(1) privilege_flags_ok kernel_windows(2), of "mmap_length e" KERNEL_READ_WRITE] n
    by (auto simp del: privilege_flags.simps)
  have "pmm_free_pages u \<noteq> {}" using u(2) n by auto
  then obtain T' where "vmm_inv u r T'"
    using vmm_map_range_window [OF Cons.prems(1) assms(1) privilege_flags_ok kernel_windows(2) _ u(1)] Cons.prems(3) by auto
  from Cons.IH [OF this] obtain t where "rfold (vmm_map_memmap_entry root) es u = Inr t"
      "card (pmm_free_pages u) \<le> card (pmm_free_pages t) + memmap_table_pages es"
      "root_page_table t = root_page_table u" "cr3 t = cr3 u"
    using u(2) n Cons.prems(3) by auto
  then show ?case using u by (simp add: memmap_table_pages_def)
qed

lemma vmm_map_range_mono:
  "pmm_wf s \<Longrightarrow> vmm_map_range s p start bound offset flags pat = Inr t \<Longrightarrow> pmm_wf t \<and> pmm_free_pages t \<subseteq> pmm_free_pages s"
  using vmm_map_range_loop_total [of s p "ALIGN_DOWN start PAGE_SIZE" bound offset flags pat] by (auto simp: vmm_map_range_def)

lemma vmm_map_memmap_mono:
  "pmm_wf s \<Longrightarrow> rfold (vmm_map_memmap_entry root) es s = Inr t \<Longrightarrow> pmm_free_pages t \<subseteq> pmm_free_pages s"
proof (induction es arbitrary: s)
  case (Cons e es)
  then obtain u where u: "vmm_map_memmap_entry root e s = Inr u" "rfold (vmm_map_memmap_entry root) es u = Inr t"
    by (auto simp: rbind_eq_Inr)
  from vmm_map_range_mono [OF Cons.prems(1) u(1)] Cons.IH [OF _ u(2)] show ?case by blast
qed simp

lemma vmm_map_memmap_ok:
  assumes "table_ptr root r" "\<forall>e\<in>set es. page_count_of (mmap_length e) \<le> 2 ^ 32"
  shows "vmm_inv s r T \<Longrightarrow> rfold (vmm_map_memmap_entry root) es s = Inr t \<Longrightarrow> pmm_free_pages t \<noteq> {} \<Longrightarrow>
    \<exists>T'. vmm_inv t r T' \<and>
      (\<forall>v. vmm_translate (kmem t) r v =
        (if 2 ^ 35 \<le> unat (vpage v) \<and> (\<exists>e\<in>set es. unat (vpage v) < 2 ^ 35 + page_count_of (mmap_length e))
         then Some (page_addr (unat (vpage v) - 2 ^ 35) OR privilege_flags KERNEL_READ_WRITE OR vmm_pat_cache_to_flags PAT_UNCACHEABLE)
         else vmm_translate (kmem s) r v))"
  using assms(2)
proof (induction es arbitrary: s T)
  case Nil
  then show ?case by auto
next
  case (Cons e es)
  obtain u where u: "vmm_map_memmap_entry root e s = Inr u" "rfold (vmm_map_memmap_entry root) es u = Inr t"
    using Cons.prems(2) by (auto simp: rbind_eq_Inr)
  have "pmm_wf u" using vmm_map_range_mono [OF _ u(1)] Cons.prems(1) by (simp add: vmm_inv_def)
  then have ne: "pmm_free_pages u \<noteq> {}" using vmm_map_memmap_mono [OF _ u(2)] Cons.prems(3) by auto
  have small: "2 ^ 35 + page_count_of (mmap_length e) \<le> 2 ^ 36" using Cons.prems(4) by auto
  obtain T1 where T1: "vmm_inv u r T1"
    "\<forall>v. vmm_translate (kmem u) r v = (if 2 ^ 35 \<le> unat (vpage v) \<and> unat (vpage v) < 2 ^ 35 + page_count_of (mmap_length e)
         then Some (page_addr (unat (vpage v) - 2 ^ 35) OR privilege_flags KERNEL_READ_WRITE OR vmm_pat_cache_to_flags PAT_UNCACHEABLE)
         else vmm_translate (kmem s) r v)"
    using vmm_map_range_window [OF Cons.prems(1) assms(1) privilege_flags_ok kernel_windows(2) small u(1) ne] by blast
  obtain T2 where T2: "vmm_inv t r T2"
    "\<forall>v. vmm_translate (kmem t) r v =
        (if 2 ^ 35 \<le> unat (vpage v) \<and> (\<exists>e\<in>set es. unat (vpage v) < 2 ^ 35 + page_count_of (mmap_length e))
         then Some (page_addr (unat (vpage v) - 2 ^ 35) OR privilege_flags KERNEL_READ_WRITE OR vmm_pat_cache_to_flags PAT_UNCACHEABLE)
         else vmm_translate (kmem u) r v)"
    using Cons.IH [OF T1(1) u(2) Cons.prems(3)] Cons.prems(4) by auto
  show ?case by (intro exI [of _ T2] conjI) (simp_all only: T2 T1 list.set bex_simps split: if_split, auto)
qed

section \<open>The tables after vmm_init\<close>

definition kernel_pointers :: "u64 \<Rightarrow> u64 set" where
  "kernel_pointers x = {x, PHYS_TO_HIGHER_HALF_DATA x, x + HEAP_START_ADDR}
     \<union> (if unat x < 2 ^ 31 then {PHYS_TO_HIGHER_HALF_CODE x} else {})"

lemma kaddr_kernel_pointers:
  assumes "unat x < 2 ^ 32" "v \<in> kernel_pointers x"
  shows "kaddr v = x"
proof -
  have "kaddr (x + HEAP_START_ADDR) = x"
    using assms(1) by (simp add: kaddr_def HIGHER_HALF_CODE_def HEAP_START_ADDR_def word_le_nat_alt unat_word_ariths)
  moreover have "kaddr (PHYS_TO_HIGHER_HALF_CODE x) = x" if "unat x < 2 ^ 31"
    using that by (simp add: kaddr_def PHYS_TO_HIGHER_HALF_CODE_def HIGHER_HALF_CODE_def HIGHER_HALF_CODE_TO_PHYS_def
        word_le_nat_alt unat_word_ariths)
  ultimately show ?thesis
    using assms kaddr_low [of x] kaddr_higher_half [of x] by (auto simp: kernel_pointers_def split: if_splits)
qed

lemma window_vpage_byte:
  assumes "window_at offset c" "unat offset mod 4096 = 0" "c + unat x div 4096 < 2 ^ 36"
  shows "unat (vpage (x + offset)) = c + unat x div 4096"
proof -
  have "unat (vpage (offset + x)) = (unat offset div 4096 mod 2 ^ 36 + unat x div 4096) mod 2 ^ 36"
    by (simp only: vpage_offset [OF assms(2)] mod_add_left_eq)
  then show ?thesis using assms(1,3) unfolding window_at_def by (simp add: add.commute)
qed

lemma kernel_pointers_vpage:
  assumes "unat x < 2 ^ 32" "v \<in> kernel_pointers x"
  shows "unat (vpage v) = unat x div 4096 \<or> unat (vpage v) = 2 ^ 35 + unat x div 4096
    \<or> unat (vpage v) = 2 ^ 35 + 2 ^ 32 + unat x div 4096
    \<or> unat (vpage v) = 2 ^ 36 - 2 ^ 19 + unat x div 4096 \<and> unat x div 4096 < 2 ^ 19"
proof -
  have k: "unat x div 4096 < 2 ^ 20" using assms(1) by simp
  have "unat (vpage x) = unat x div 4096"
    using window_vpage_byte [OF kernel_windows(1), of x] k by simp
  moreover have "unat (vpage (PHYS_TO_HIGHER_HALF_DATA x)) = 2 ^ 35 + unat x div 4096"
    unfolding PHYS_TO_HIGHER_HALF_DATA_def using k
    by (intro window_vpage_byte kernel_windows) (simp_all add: HIGHER_HALF_DATA_def)
  moreover have "unat (vpage (x + HEAP_START_ADDR)) = 2 ^ 35 + 2 ^ 32 + unat x div 4096"
    using k by (intro window_vpage_byte kernel_windows) (simp_all add: HEAP_START_ADDR_def)
  moreover have "unat (vpage (PHYS_TO_HIGHER_HALF_CODE x)) = 2 ^ 36 - 2 ^ 19 + unat x div 4096" if "unat x < 2 ^ 31"
    unfolding PHYS_TO_HIGHER_HALF_CODE_def using that
    by (intro window_vpage_byte kernel_windows) (simp_all add: HIGHER_HALF_CODE_def)
  ultimately show ?thesis using assms(2) by (auto simp: kernel_pointers_def split: if_splits)
qed

text \<open>The mapping part of \<open>vmm_init\<close>, from a fresh root to the last entry of the memory map.\<close>

definition vmm_map_kernel ::
  "u64 \<Rightarrow> stivale2_mmap_entry list \<Rightarrow> 'a vmm_state_scheme \<Rightarrow> 'a vmm_state_scheme result" where
  "vmm_map_kernel root memory_map s =
     rbind (vmm_map_range s root 0 (4 * GiB) 0 (privilege_flags KERNEL_READ_WRITE) PAT_UNCACHEABLE) (\<lambda>s.
     rbind (vmm_map_range s root 0 (4 * GiB) HIGHER_HALF_DATA (privilege_flags KERNEL_READ_WRITE) PAT_UNCACHEABLE) (\<lambda>s.
     rbind (vmm_map_range s root 0 HEAP_MAX_SIZE HEAP_START_ADDR (privilege_flags KERNEL_READ_WRITE) PAT_UNCACHEABLE) (\<lambda>s.
     rbind (vmm_map_range s root 0 (2 * GiB) HIGHER_HALF_CODE (privilege_flags KERNEL_READ) PAT_UNCACHEABLE) (\<lambda>s.
       rfold (vmm_map_memmap_entry root) memory_map s))))"

lemma vmm_map_window:
  assumes inv: "vmm_inv s r T" and p: "table_ptr root r" and w: "window_at offset c" "c + n \<le> 2 ^ 36" "c mod 512 = 0"
    and n: "page_count_of bound = n" and enough: "table_pages n + m < card (pmm_free_pages s)"
  shows "\<exists>t T'. vmm_map_range s root 0 bound offset (privilege_flags pr) PAT_UNCACHEABLE = Inr t \<and> vmm_inv t r T'
    \<and> m < card (pmm_free_pages t) \<and> root_page_table t = root_page_table s \<and> cr3 t = cr3 s
    \<and> (\<forall>v. vmm_translate (kmem t) r v = (if c \<le> unat (vpage v) \<and> unat (vpage v) < c + n
         then Some (page_addr (unat (vpage v) - c) OR privilege_flags pr) else vmm_translate (kmem s) r v))"
proof -
  obtain t where
    t: "vmm_map_range s root 0 bound offset (privilege_flags pr) PAT_UNCACHEABLE = Inr t"
      "card (pmm_free_pages s) \<le> card (pmm_free_pages t) + table_pages n" "root_page_table t = root_page_table s" "cr3 t = cr3 s"
    using vmm_map_range_cost [OF inv p privilege_flags_ok w(1,3), of bound pr PAT_UNCACHEABLE] n enough by auto
  have m: "m < card (pmm_free_pages t)" using t(2) enough by linarith
  then have "pmm_free_pages t \<noteq> {}" by auto
  from vmm_map_range_window [OF inv p privilege_flags_ok w(1) _ t(1) this] w(2) n obtain T' where
    "vmm_inv t r T'" "\<And>v. vmm_translate (kmem t) r v = (if c \<le> unat (vpage v) \<and> unat (vpage v) < c + n
         then Some (page_addr (unat (vpage v) - c) OR privilege_flags pr OR 0) else vmm_translate (kmem s) r v)"
    unfolding vmm_pat_cache_to_flags.simps by blast
  with t m show ?thesis by (intro exI [of _ t] exI [of _ T']) simp
qed

lemma vmm_map_kernel_ok:
  assumes inv: "vmm_inv s r T" and p: "table_ptr root r"
    and es: "\<forall>e\<in>set es. page_count_of (mmap_length e) \<le> 2 ^ 32"
    and enough: "21504 + memmap_table_pages es + k < card (pmm_free_pages s)"
  shows "\<exists>t T'. vmm_map_kernel root es s = Inr t \<and> vmm_inv t r T' \<and> k < card (pmm_free_pages t)
    \<and> root_page_table t = root_page_table s \<and> cr3 t = cr3 s
    \<and> (\<forall>x v. unat x < 2 ^ 32 \<longrightarrow> v \<in> kernel_pointers x \<longrightarrow>
         (\<exists>fl. flags_ok fl \<and> vmm_translate (kmem t) r v = Some (page_addr (unat x div 4096) OR fl)))"
proof -
  let ?rw = "privilege_flags KERNEL_READ_WRITE" and ?ro = "privilege_flags KERNEL_READ"
  let ?m = "memmap_table_pages es + k"
  obtain s1 T1 where 1: "vmm_map_range s root 0 (4 * GiB) 0 ?rw PAT_UNCACHEABLE = Inr s1" "vmm_inv s1 r T1"
      "15360 + ?m < card (pmm_free_pages s1)" "root_page_table s1 = root_page_table s" "cr3 s1 = cr3 s"
      "\<And>v. vmm_translate (kmem s1) r v = (if 0 \<le> unat (vpage v) \<and> unat (vpage v) < 0 + 2 ^ 20
         then Some (page_addr (unat (vpage v) - 0) OR ?rw) else vmm_translate (kmem s) r v)"
    using vmm_map_window [OF inv p kernel_windows(1) _ _ kernel_window_sizes(1), of "15360 + ?m" KERNEL_READ_WRITE] enough
    by (auto simp: table_pages_def simp del: privilege_flags.simps)
  obtain s2 T2 where 2: "vmm_map_range s1 root 0 (4 * GiB) HIGHER_HALF_DATA ?rw PAT_UNCACHEABLE = Inr s2" "vmm_inv s2 r T2"
      "9216 + ?m < card (pmm_free_pages s2)" "root_page_table s2 = root_page_table s1" "cr3 s2 = cr3 s1"
      "\<And>v. vmm_translate (kmem s2) r v = (if 2 ^ 35 \<le> unat (vpage v) \<and> unat (vpage v) < 2 ^ 35 + 2 ^ 20
         then Some (page_addr (unat (vpage v) - 2 ^ 35) OR ?rw) else vmm_translate (kmem s1) r v)"
    using vmm_map_window [OF 1(2) p kernel_windows(2) _ _ kernel_window_sizes(1), of "9216 + ?m" KERNEL_READ_WRITE] 1(3)
    by (auto simp: table_pages_def simp del: privilege_flags.simps)
  obtain s3 T3 where 3: "vmm_map_range s2 root 0 HEAP_MAX_SIZE HEAP_START_ADDR ?rw PAT_UNCACHEABLE = Inr s3" "vmm_inv s3 r T3"
      "3072 + ?m < card (pmm_free_pages s3)" "root_page_table s3 = root_page_table s2" "cr3 s3 = cr3 s2"
      "\<And>v. vmm_translate (kmem s3) r v = (if 2 ^ 35 + 2 ^ 32 \<le> unat (vpage v) \<and> unat (vpage v) < 2 ^ 35 + 2 ^ 32 + 2 ^ 20
         then Some (page_addr (unat (vpage v) - (2 ^ 35 + 2 ^ 32)) OR ?rw) else vmm_translate (kmem s2) r v)"
    using vmm_map_window [OF 2(2) p kernel_windows(3) _ _ kernel_window_sizes(2), of "3072 + ?m" KERNEL_READ_WRITE] 2(3)
    by (auto simp: table_pages_def simp del: privilege_flags.simps)
  obtain s4 T4 where 4: "vmm_map_range s3 root 0 (2 * GiB) HIGHER_HALF_CODE ?ro PAT_UNCACHEABLE = Inr s4" "vmm_inv s4 r T4"
      "?m < card (pmm_free_pages s4)" "root_page_table s4 = root_page_table s3" "cr3 s4 = cr3 s3"
      "\<And>v. vmm_translate (kmem s4) r v = (if 2 ^ 36 - 2 ^ 19 \<le> unat (vpage v) \<and> unat (vpage v) < 2 ^ 36 - 2 ^ 19 + 2 ^ 19
         then Some (page_addr (unat (vpage v) - (2 ^ 36 - 2 ^ 19)) OR ?ro) else vmm_translate (kmem s3) r v)"
    using vmm_map_window [OF 3(2) p kernel_windows(4) _ _ kernel_window_sizes(3), of ?m KERNEL_READ] 3(3)
    by (auto simp: table_pages_def simp del: privilege_flags.simps)
  obtain t where t: "rfold (vmm_map_memmap_entry root) es s4 = Inr t" "k < card (pmm_free_pages t)"
      "root_page_table t = root_page_table s4" "cr3 t = cr3 s4"
    using vmm_map_memmap_total [OF p es 4(2)] 4(3) by auto
  have ne: "pmm_free_pages t \<noteq> {}" using t(2) by auto
  obtain T5 where T5: "vmm_inv t r T5" "\<And>v. vmm_translate (kmem t) r v =
        (if 2 ^ 35 \<le> unat (vpage v) \<and> (\<exists>e\<in>set es. unat (vpage v) < 2 ^ 35 + page_count_of (mmap_length e))
         then Some (page_addr (unat (vpage v) - 2 ^ 35) OR ?rw OR 0) else vmm_translate (kmem s4) r v)"
    using vmm_map_memmap_ok [OF p es 4(2) t(1) ne] unfolding vmm_pat_cache_to_flags.simps by blast
  have high: "\<not> (\<exists>e\<in>set es. n < 2 ^ 35 + page_count_of (mmap_length e))" if "2 ^ 35 + 2 ^ 32 \<le> n" for n
    using es that by force
  have "\<exists>fl. flags_ok fl \<and> vmm_translate (kmem t) r v = Some (page_addr (unat x div 4096) OR fl)"
    if x: "unat x < 2 ^ 32" "v \<in> kernel_pointers x" for x v
  proof -
    have k: "unat x div 4096 < 2 ^ 20" using x(1) by simp
    have ok: "flags_ok ?rw" "flags_ok ?ro" by (rule privilege_flags_ok)+
    show ?thesis
      using kernel_pointers_vpage [OF x] k high [of "unat (vpage v)"] ok
      unfolding T5(2) 4(6) 3(6) 2(6) 1(6) by (elim disjE conjE) (auto simp del: privilege_flags.simps)
  qed
  then show ?thesis using 1 2 3 4 t T5(1) by (auto simp: vmm_map_kernel_def)
qed

lemma vmm_unmap_range_loop_ok:
  "vmm_inv s r T \<Longrightarrow> table_ptr p r \<Longrightarrow> unat i mod 4096 = 0 \<Longrightarrow>
   \<forall>j. range_page i bound j \<longrightarrow> vmm_translate (kmem s) r j \<noteq> None \<Longrightarrow>
   ALIGN_UP bound PAGE_SIZE \<le> 0x1000000000000 \<Longrightarrow>
   \<exists>t. vmm_unmap_range_loop s p i bound = Inr t \<and> vmm_inv t r T \<and> pmm_free_pages t = pmm_free_pages s
     \<and> (\<forall>v. vmm_translate (kmem t) r v =
          (if \<exists>j. range_page i bound j \<and> vpage v = vpage j then None else vmm_translate (kmem s) r v))"
proof (induction s p i bound rule: vmm_unmap_range_loop.induct)
  case (1 s p i bound)
  show ?case
  proof (cases "i < ALIGN_UP bound PAGE_SIZE")
    case False
    then have "\<not> range_page i bound j" for j by (auto simp: range_page_def)
    with False 1(2) show ?thesis by (subst vmm_unmap_range_loop.simps) simp
  next
    case True
    note step = range_page_step [OF True 1(4)]
    have "vmm_translate (kmem s) r i \<noteq> None" using 1(5) step(1) [of i] by blast
    then obtain c where c: "pt_path (kmem s) r (upper_indices i) = Some c" using vmm_translate_upper by blast
    define u where "u = s\<lparr>kmem := store64 (kmem s) (cell c (unat (pt_index i))) 0\<rparr>"
    define u' where "u' = vmm_flush_tlb (ALIGN_DOWN i PAGE_SIZE) u"
    have unmap: "vmm_unmap_page s p i = Inr u'"
      using vmm_unmap_page_present [OF 1(2,3) c] by (simp add: u'_def u_def)
    note leaf = vmm_set_leaf [OF 1(2) c u_def]
    have inv: "vmm_inv u' r T" using leaf(2) by (simp add: u'_def vmm_flush_tlb_def vmm_inv_def)
    have tr: "vmm_translate (kmem u') r v = (if vpage v = vpage i then None else vmm_translate (kmem s) r v)" for v
      using leaf(3) [of v] by (simp add: u'_def vmm_flush_tlb_def leaf_of_def)
    have inj: "vpage j \<noteq> vpage i" if "range_page (i + PAGE_SIZE) bound j" for j
      using vpage_offset_inj [of j i 0] 1(4,6) that step(3) [OF that] True
      by (auto simp: range_page_def word_less_nat_alt word_le_nat_alt)
    have "\<forall>j. range_page (i + PAGE_SIZE) bound j \<longrightarrow> vmm_translate (kmem u') r j \<noteq> None"
      using 1(5) inj step(1) by (simp add: tr)
    from 1(1) [OF True unmap inv 1(3) step(2) this 1(6)] obtain t where
      t: "vmm_unmap_range_loop u' p (i + PAGE_SIZE) bound = Inr t" "vmm_inv t r T" "pmm_free_pages t = pmm_free_pages u'"
        "\<And>v. vmm_translate (kmem t) r v =
          (if \<exists>j. range_page (i + PAGE_SIZE) bound j \<and> vpage v = vpage j then None else vmm_translate (kmem u') r v)"
      by blast
    have "vmm_unmap_range_loop s p i bound = Inr t"
      using True unmap t(1) by (subst vmm_unmap_range_loop.simps) simp
    moreover have "pmm_free_pages u' = pmm_free_pages s" by (simp add: u'_def u_def vmm_flush_tlb_def)
    moreover have "vmm_translate (kmem t) r v =
        (if \<exists>j. range_page i bound j \<and> vpage v = vpage j then None else vmm_translate (kmem s) r v)" for v
      unfolding t(4) tr step(1) by auto
    ultimately show ?thesis using t(2,3) by simp
  qed
qed

section \<open>An example machine\<close>

text \<open>
  64 GiB of clear memory, pages 0 and 1 handed out, page 1 holding the empty root table.
\<close>

definition example_machine :: vmm_state where
  "example_machine = \<lparr>kmem = (\<lambda>_. 0), pmm_bitmap = \<lparr>bm_map = 3 # replicate 0x1FFFFF 0, bm_size = 0x200000\<rparr>,
     pmm_bitmap_addr = 0, highest_page_top = 0x1000000000, used_pages_count = 2,
     root_page_table = PHYS_TO_HIGHER_HALF_DATA (page_addr 1), cr3 = 0, msrs = (\<lambda>_. 0), tlb_flushes = []\<rparr>"

lemma example_machine_used: "pmm_used example_machine = {0, 1}"
proof -
  have "i \<in> bitmap_ones \<lparr>bm_map = 3 # replicate n 0, bm_size = z\<rparr> \<longleftrightarrow> i < 2" for i n z
  proof -
    have "bit (3 :: u8) k \<longleftrightarrow> k < 2" for k
    proof -
      have "(3 :: u8) = mask 2" by (simp add: mask_eq_exp_minus_1)
      then show ?thesis by (simp only: bit_mask_iff) auto
    qed
    then show ?thesis
      by (cases "i div 8 = 0") (auto simp: bitmap_ones_def bitmap_cap_def nth_Cons' div_eq_0_iff)
  qed
  from this [of _ "0x1FFFFF"] show ?thesis by (auto simp: pmm_used_def example_machine_def)
qed

lemma example_machine_pages: "pmm_pages example_machine = 2 ^ 24"
  "bitmap_cap (pmm_bitmap example_machine) = 2 ^ 24"
  by (simp_all add: pmm_pages_def example_machine_def bitmap_cap_def)

lemma example_machine_free: "pmm_free_pages example_machine = {2..<2 ^ 24}"
  by (auto simp: pmm_free_pages_def example_machine_used example_machine_pages)

lemma example_machine_inv: "vmm_inv example_machine 1 (\<lambda>l. if l = 3 then {1} else {})"
proof -
  have "pmm_used example_machine \<inter> {..<2 ^ 24} = {0, 1}" by (auto simp: example_machine_used)
  moreover have "used_pages_count example_machine = 2" by (simp add: example_machine_def)
  ultimately have "pmm_wf example_machine"
    by (simp add: pmm_wf_def pmm_inv_def pmm_counter_ok_def example_machine_pages example_machine_free example_machine_used)
  moreover have "pt_entry (kmem example_machine) 1 i = 0" for i
    by (simp add: pt_entry_def example_machine_def load64_def load_word_zero)
  ultimately show ?thesis
    by (auto simp: vmm_inv_def tables_ok_def example_machine_pages example_machine_free)
qed

lemma example_machine_root: "table_ptr (root_page_table example_machine) 1"
  by (simp add: table_ptr_def example_machine_def)

section \<open>Properties\<close>

text \<open>The index into the page attribute table that the hardware forms from bits 7, 4 and 3 of an entry.\<close>

definition pat_index :: "u64 \<Rightarrow> nat" where
  "pat_index e = 4 * of_bool (bit e 7) + 2 * of_bool (bit e 4) + of_bool (bit e 3)"

text \<open>C3. With four free pages left, \<open>vmm_map_page\<close> returns; afterwards the hardware translates every
  address of the mapped virtual page to the given physical page with the given privilege and
  cache bits and every other address as before, the TLB entry of the page has been flushed, and
  no byte outside the tables and the pages that were free has changed.\<close>

theorem vmm_map_page_translates:
  assumes "vmm_inv s r T" and "table_ptr page_table r" and "3 < card (pmm_free_pages s)"
  shows "\<exists>t T'. vmm_map_page s page_table phys_page virt_page (privilege_flags pr) pat_type = Inr t
    \<and> vmm_inv t r T' \<and> vmm_frame s T t T' \<and> tlb_flushes t = ALIGN_DOWN virt_page 4096 # tlb_flushes s
    \<and> (\<forall>v. vmm_translate (kmem t) r v =
          (if vpage v = vpage virt_page then Some (phys_page OR privilege_flags pr OR vmm_pat_cache_to_flags pat_type)
           else vmm_translate (kmem s) r v))"
proof -
  have wf: "pmm_wf s" using assms(1) by (simp add: vmm_inv_def)
  from vmm_map_page_total [OF wf] obtain t where
    t: "vmm_map_page s page_table phys_page virt_page (privilege_flags pr) pat_type = Inr t"
      "tlb_flushes t = ALIGN_DOWN virt_page 4096 # tlb_flushes s" by blast
  have "pmm_free_pages t \<noteq> {}" using vmm_map_page_card [OF wf t(1)] assms(3) by auto
  from vmm_map_page_ok [OF assms(1,2) privilege_flags_ok t(1) this] t show ?thesis by blast
qed

theorem vmm_map_page_translates_witness:
  "\<exists>t T'. vmm_map_page example_machine (root_page_table example_machine) 0xB8000 0x400123
      (privilege_flags KERNEL_READ_WRITE) PAT_WRITE_COMBINING = Inr t
    \<and> vmm_inv t 1 T' \<and> vmm_frame example_machine (\<lambda>l. if l = 3 then {1} else {}) t T'
    \<and> tlb_flushes t = ALIGN_DOWN 0x400123 4096 # tlb_flushes example_machine
    \<and> (\<forall>v. vmm_translate (kmem t) 1 v =
          (if vpage v = vpage 0x400123 then Some (0xB8000 OR privilege_flags KERNEL_READ_WRITE OR vmm_pat_cache_to_flags PAT_WRITE_COMBINING)
           else vmm_translate (kmem example_machine) 1 v))"
  by (rule vmm_map_page_translates [OF example_machine_inv example_machine_root])
    (simp add: example_machine_free)

text \<open>C15. \<open>vmm_map_range\<close> maps every page from the rounded-down start to the rounded-up end at its
  address plus the offset and leaves every other translation alone (end at most \<open>2^48\<close>, three free
  pages for each block of 2 MiB that the range meets, since each may need its own tables).\<close>

theorem vmm_map_range_translates:
  assumes "vmm_inv s r T" and "table_ptr page_table r" and "ALIGN_UP bound 4096 \<le> 0x1000000000000"
    and "3 * ((unat (ALIGN_UP bound 4096) - unat (ALIGN_DOWN start 4096)) div 0x200000 + 2) < card (pmm_free_pages s)"
  shows "\<exists>t T'. vmm_map_range s page_table start bound offset (privilege_flags pr) pat_type = Inr t
    \<and> vmm_inv t r T' \<and> vmm_frame s T t T'
    \<and> (\<forall>j v. range_page (ALIGN_DOWN start 4096) bound j \<longrightarrow> vpage v = vpage (j + offset) \<longrightarrow>
         vmm_translate (kmem t) r v = Some (j OR privilege_flags pr OR vmm_pat_cache_to_flags pat_type))
    \<and> (\<forall>v. (\<forall>j. range_page (ALIGN_DOWN start 4096) bound j \<longrightarrow> vpage v \<noteq> vpage (j + offset)) \<longrightarrow>
         vmm_translate (kmem t) r v = vmm_translate (kmem s) r v)"
proof -
  have wf: "pmm_wf s" using assms(1) by (simp add: vmm_inv_def)
  have al: "unat (ALIGN_DOWN start 4096) mod 4096 = 0" by (simp add: unat_ALIGN_DOWN)
  obtain t where t: "vmm_map_range_loop s page_table (ALIGN_DOWN start 4096) bound offset (privilege_flags pr) pat_type = Inr t"
    using vmm_map_range_loop_total [OF wf] by blast
  have "pmm_free_pages t \<noteq> {}" by (rule vmm_map_range_loop_left [OF assms(1,2) privilege_flags_ok al t assms(4)])
  from vmm_map_range_loop_ok [OF assms(1,2) privilege_flags_ok al assms(3) t this] t show ?thesis
    unfolding vmm_map_range_def by blast
qed

theorem vmm_map_range_translates_witness:
  "\<exists>t T'. vmm_map_range example_machine (root_page_table example_machine) 0x1234 0x3001 HIGHER_HALF_DATA
      (privilege_flags KERNEL_READ) PAT_UNCACHEABLE = Inr t
    \<and> vmm_inv t 1 T' \<and> vmm_frame example_machine (\<lambda>l. if l = 3 then {1} else {}) t T'
    \<and> (\<forall>j v. range_page (ALIGN_DOWN 0x1234 4096) 0x3001 j \<longrightarrow> vpage v = vpage (j + HIGHER_HALF_DATA) \<longrightarrow>
         vmm_translate (kmem t) 1 v = Some (j OR privilege_flags KERNEL_READ OR vmm_pat_cache_to_flags PAT_UNCACHEABLE))
    \<and> (\<forall>v. (\<forall>j. range_page (ALIGN_DOWN 0x1234 4096) 0x3001 j \<longrightarrow> vpage v \<noteq> vpage (j + HIGHER_HALF_DATA)) \<longrightarrow>
         vmm_translate (kmem t) 1 v = vmm_translate (kmem example_machine) 1 v)"
  by (rule vmm_map_range_translates [OF example_machine_inv example_machine_root])
    (simp_all add: example_machine_free ALIGN_UP_def ALIGN_DOWN_def)

text \<open>C16. \<open>vmm_unmap_range\<close> over mapped pages removes exactly their translations and takes no page
  from the frame allocator.\<close>

theorem vmm_unmap_range_forgets:
  assumes "vmm_inv s r T" and "table_ptr page_table r" and "ALIGN_UP bound 4096 \<le> 0x1000000000000"
    and "\<forall>j. range_page (ALIGN_DOWN start 4096) bound j \<longrightarrow> vmm_translate (kmem s) r j \<noteq> None"
  shows "\<exists>t. vmm_unmap_range s page_table start bound = Inr t \<and> vmm_inv t r T \<and> pmm_free_pages t = pmm_free_pages s
    \<and> (\<forall>v. vmm_translate (kmem t) r v =
          (if \<exists>j. range_page (ALIGN_DOWN start 4096) bound j \<and> vpage v = vpage j then None
           else vmm_translate (kmem s) r v))"
  unfolding vmm_unmap_range_def using assms
  by (intro vmm_unmap_range_loop_ok) (simp_all add: unat_ALIGN_DOWN)

lemma example_identity:
  "\<exists>t T'. vmm_map_range example_machine (root_page_table example_machine) 0x1000 0x3000 0
      (privilege_flags KERNEL_READ) PAT_UNCACHEABLE = Inr t \<and> vmm_inv t 1 T'
    \<and> (\<forall>j. range_page (ALIGN_DOWN 0x1000 4096) 0x3000 j \<longrightarrow> vmm_translate (kmem t) 1 j \<noteq> None)"
proof -
  have wf: "pmm_wf example_machine" using example_machine_inv by (simp add: vmm_inv_def)
  have al: "unat (ALIGN_DOWN 0x1000 4096) mod 4096 = 0" by (simp add: unat_ALIGN_DOWN)
  obtain t where t: "vmm_map_range_loop example_machine (root_page_table example_machine) (ALIGN_DOWN 0x1000 4096)
      0x3000 0 (privilege_flags KERNEL_READ) PAT_UNCACHEABLE = Inr t"
    using vmm_map_range_loop_total [OF wf] by blast
  have ne: "pmm_free_pages t \<noteq> {}"
    by (rule vmm_map_range_loop_left [OF example_machine_inv example_machine_root privilege_flags_ok al t])
      (simp add: example_machine_free ALIGN_UP_def ALIGN_DOWN_def)
  have up: "ALIGN_UP 0x3000 PAGE_SIZE \<le> 0x1000000000000" by (simp add: ALIGN_UP_def)
  from vmm_map_range_loop_ok [OF example_machine_inv example_machine_root privilege_flags_ok al up t ne] t
  show ?thesis unfolding vmm_map_range_def by (metis add.right_neutral option.distinct(1))
qed

theorem vmm_unmap_range_forgets_witness:
  "\<exists>s t T. vmm_map_range example_machine (root_page_table example_machine) 0x1000 0x3000 0
      (privilege_flags KERNEL_READ) PAT_UNCACHEABLE = Inr s
    \<and> vmm_unmap_range s (root_page_table example_machine) 0x1000 0x3000 = Inr t \<and> vmm_inv t 1 T
    \<and> pmm_free_pages t = pmm_free_pages s
    \<and> (\<forall>v. vmm_translate (kmem t) 1 v =
          (if \<exists>j. range_page (ALIGN_DOWN 0x1000 4096) 0x3000 j \<and> vpage v = vpage j then None
           else vmm_translate (kmem s) 1 v))"
proof -
  have up: "ALIGN_UP 0x3000 4096 \<le> 0x1000000000000" by (simp add: ALIGN_UP_def)
  obtain s T where s: "vmm_map_range example_machine (root_page_table example_machine) 0x1000 0x3000 0
      (privilege_flags KERNEL_READ) PAT_UNCACHEABLE = Inr s" "vmm_inv s 1 T"
    "\<forall>j. range_page (ALIGN_DOWN 0x1000 4096) 0x3000 j \<longrightarrow> vmm_translate (kmem s) 1 j \<noteq> None"
    using example_identity by blast
  from vmm_unmap_range_forgets [OF s(2) example_machine_root up s(3)] s(1) show ?thesis by blast
qed

lemma vmm_init_ok:
  assumes "pmm_wf s" and "\<forall>e\<in>set memory_map. page_count_of (mmap_length e) \<le> 2 ^ 32"
    and "21505 + memmap_table_pages memory_map + k < card (pmm_free_pages s)"
  shows "\<exists>t r. vmm_init s memory_map = Inr t \<and> cr3 t = page_addr r
    \<and> vmm_get_root_page_table t = PHYS_TO_HIGHER_HALF_DATA (page_addr r) \<and> (\<exists>T. vmm_inv t r T) \<and> k < card (pmm_free_pages t)
    \<and> (\<forall>x v. unat x < 2 ^ 32 \<longrightarrow> v \<in> kernel_pointers x \<longrightarrow>
         kaddr v = x \<and> (\<exists>e. vmm_translate (kmem t) r v = Some e \<and> frame_of e = unat x div 4096))"
proof -
  have ep: "pmm_wf (enable_pat s)" "pmm_free_pages (enable_pat s) = pmm_free_pages s"
    using assms(1) by (simp_all add: enable_pat_def asm_wrmsr_def Let_def)
  have "pmm_free_pages (enable_pat s) \<noteq> {}" using assms(3) ep(2) by auto
  from fresh_root_inv [OF ep(1) this] obtain r u where
    u: "r \<in> pmm_free_pages s" "pmm_allocz (enable_pat s) 1 = Inr (page_addr r, u)"
      "vmm_inv u r (\<lambda>l. if l = 3 then {r} else {})" using ep(2) by auto
  define root where "root = PHYS_TO_HIGHER_HALF_DATA (page_addr r)"
  have inv: "vmm_inv (u\<lparr>root_page_table := root\<rparr>) r (\<lambda>l. if l = 3 then {r} else {})"
    using u(3) by (simp add: vmm_inv_def)
  have card: "21504 + memmap_table_pages memory_map + k < card (pmm_free_pages (u\<lparr>root_page_table := root\<rparr>))"
    using pmm_allocz1_card [OF ep(1) u(2)] assms(3) ep(2) by simp
  have r31: "r < 2 ^ 31" using u(1) vmm_pages_small [OF assms(1)] by (simp add: pmm_free_pages_def)
  have "kaddr root = page_addr r" unfolding root_def using r31 by (intro kaddr_higher_half) (simp add: unat_page_addr)
  moreover have "kaddr 0 = 0" by (simp add: kaddr_low)
  moreover have "page_addr r \<noteq> 0" using pg.page_addr_avail(1) [OF assms(1) u(1)] .
  ultimately have nz: "root \<noteq> 0" by auto
  obtain t T where t: "vmm_map_kernel root memory_map (u\<lparr>root_page_table := root\<rparr>) = Inr t" "vmm_inv t r T"
      "k < card (pmm_free_pages t)" "root_page_table t = root"
      "\<forall>x v. unat x < 2 ^ 32 \<longrightarrow> v \<in> kernel_pointers x \<longrightarrow>
         (\<exists>fl. flags_ok fl \<and> vmm_translate (kmem t) r v = Some (page_addr (unat x div 4096) OR fl))"
    using vmm_map_kernel_ok [OF inv _ assms(2) card, of root] by (auto simp: table_ptr_def root_def)
  have "vmm_init s memory_map = Inr (vmm_load_page_table t root)"
    using u(2) t(1) nz unfolding vmm_init_def vmm_map_kernel_def
    by (auto simp: Let_def root_def [symmetric] rbind_eq_Inr simp del: privilege_flags.simps)
  moreover have "\<exists>e. vmm_translate (kmem t) r v = Some e \<and> frame_of e = unat x div 4096"
    if x: "unat x < 2 ^ 32" "v \<in> kernel_pointers x" for x v
  proof -
    have "unat x div 4096 < 2 ^ 31" using x(1) by simp
    then show ?thesis using t(5) x entry_fields(2) by blast
  qed
  ultimately show ?thesis using t(2-4) kaddr_kernel_pointers
    by (intro exI [of _ "vmm_load_page_table t root"] exI [of _ r])
      (auto simp: vmm_load_page_table_def vmm_get_root_page_table_def root_def vmm_inv_def
        HIGHER_HALF_DATA_TO_PHYS_def PHYS_TO_HIGHER_HALF_DATA_def)
qed

text \<open>C11. After \<open>vmm_init\<close> the paging hardware, loaded with the new root, sends every kernel pointer
  below 4 GiB, in the higher half, in the heap window and in the code window to the byte the
  kernel means by it, whatever memory map entries were mapped on top.\<close>

theorem vmm_init_kernel_windows:
  assumes "pmm_wf s" and "\<forall>e\<in>set memory_map. page_count_of (mmap_length e) \<le> 2 ^ 32"
    and "21505 + memmap_table_pages memory_map < card (pmm_free_pages s)"
  shows "\<exists>t r. vmm_init s memory_map = Inr t \<and> cr3 t = page_addr r
    \<and> vmm_get_root_page_table t = PHYS_TO_HIGHER_HALF_DATA (page_addr r) \<and> (\<exists>T. vmm_inv t r T)
    \<and> (\<forall>x v. unat x < 2 ^ 32 \<longrightarrow> v \<in> kernel_pointers x \<longrightarrow>
         kaddr v = x \<and> (\<exists>e. vmm_translate (kmem t) r v = Some e \<and> frame_of e = unat x div 4096))"
  using vmm_init_ok [OF assms(1,2), of 0] assms(3) by auto

theorem vmm_init_kernel_windows_witness:
  "\<exists>t r. vmm_init example_machine [\<lparr>mmap_base = 0, mmap_length = 0x100000, mmap_type = 1\<rparr>] = Inr t
    \<and> cr3 t = page_addr r
    \<and> vmm_get_root_page_table t = PHYS_TO_HIGHER_HALF_DATA (page_addr r) \<and> (\<exists>T. vmm_inv t r T)
    \<and> (\<forall>x v. unat x < 2 ^ 32 \<longrightarrow> v \<in> kernel_pointers x \<longrightarrow>
         kaddr v = x \<and> (\<exists>e. vmm_translate (kmem t) r v = Some e \<and> frame_of e = unat x div 4096))"
proof (rule vmm_init_kernel_windows)
  show "pmm_wf example_machine" using example_machine_inv by (simp add: vmm_inv_def)
qed (simp_all add: page_count_of_def ALIGN_UP_def memmap_table_pages_def table_pages_def example_machine_free)

text \<open>The cache bits that \<open>vmm_pat_cache_to_flags\<close> puts into a page table entry select, in the
  page attribute table that \<open>enable_pat\<close> has written, the memory type they were made for.\<close>

theorem pat_flags_select_type:
  "take_bit 8 (drop_bit (8 * pat_index (vmm_pat_cache_to_flags ct)) (msrs (enable_pat s) 0x277)) = pat_cache_value ct"
  by (cases ct) (simp_all add: pat_index_def enable_pat_def asm_wrmsr_def Let_def custom_pat_config_def
      bit_simps take_bit_eq_mask mask_eq_exp_minus_1)

text \<open>C17. Unmapping an address that no table covers is not a no-op: it takes pages from the frame
  allocator for tables that it hangs without the present bit.\<close>

theorem vmm_unmap_page_leaks:
  assumes "vmm_inv s r T" and "table_ptr page_table r" and "pmm_free_pages s \<noteq> {}"
    and "\<not> bit (pt_entry (kmem s) r (unat (pml4_index (ALIGN_DOWN virt_page 4096)))) 0"
  shows "\<exists>t. vmm_unmap_page s page_table virt_page = Inr t \<and> pmm_free_pages t \<subset> pmm_free_pages s"
proof -
  let ?v = "ALIGN_DOWN virt_page 4096"
  have wf: "pmm_wf s" and ok: "tables_ok (kmem s) T" and r: "r \<in> T 3" using assms(1) by (auto simp: vmm_inv_def)
  obtain j u where j: "j \<in> pmm_free_pages s" "pmm_allocz s 1 = Inr (page_addr j, u)"
    and u: "pmm_wf u" "pmm_free_pages u = pmm_free_pages s - {j}"
    using pg.allocz1_some [OF wf assms(3)] by blast
  have slot: "kaddr (page_table + 8 * pml4_index ?v) = cell r (unat (pml4_index ?v))"
    using kaddr_cell [OF assms(2) tables_okD(2) [OF ok r] index_less(1) [of ?v]] by simp
  define s1 where "s1 = u\<lparr>kmem := store64 (kmem u) (cell r (unat (pml4_index ?v))) (page_addr j OR 0)\<rparr>"
  have 1: "vmm_get_or_create_pml s page_table (pml4_index ?v) 0 = Inr (page_addr j AND NOT 511, s1)"
    using assms(4) j(2) by (simp add: vmm_get_or_create_pml_def slot bit_0_iff_and pt_entry_def s1_def)
  have "pmm_wf s1" "pmm_free_pages s1 = pmm_free_pages s - {j}" using u by (simp_all add: s1_def)
  moreover from this(1) obtain p2 s2 where 2: "vmm_get_or_create_pml s1 (page_addr j AND NOT 511) (pdpt_index ?v) 0 = Inr (p2, s2)"
      "pmm_wf s2" "pmm_free_pages s2 \<subseteq> pmm_free_pages s1"
    using vmm_get_or_create_pml_total by blast
  moreover obtain p3 s3 where 3: "vmm_get_or_create_pml s2 p2 (pd_index ?v) 0 = Inr (p3, s3)"
      "pmm_free_pages s3 \<subseteq> pmm_free_pages s2"
    using vmm_get_or_create_pml_total [OF 2(2)] by blast
  ultimately have "pmm_free_pages s3 \<subset> pmm_free_pages s" using j(1) by blast
  with 1 2(1) 3(1) show ?thesis
    by (simp add: vmm_unmap_page_def vmm_set_pt_value_def vmm_flush_tlb_def)
qed

theorem vmm_unmap_page_leaks_witness:
  "\<exists>t. vmm_unmap_page example_machine (root_page_table example_machine) 0x400000 = Inr t
    \<and> pmm_free_pages t \<subset> pmm_free_pages example_machine"
proof (rule vmm_unmap_page_leaks [OF example_machine_inv example_machine_root])
  show "pmm_free_pages example_machine \<noteq> {}" by (simp add: example_machine_free)
qed (simp add: pt_entry_def example_machine_def load64_def load_word_zero)

end
