(* ===== verification/Slab.thy ===== *)
theory Slab
  imports PMM
begin

text \<open>
  \<open>memory/dynamic/slab.c\<close>: caches of equally sized buffers. A cache lies at the start of a page of
  its own, a slab at the end of the page that holds its buffers, and a free buffer carries its own
  list node. All three structures are read and written in physical memory at the offsets that the
  declarations of \<open>slab.h\<close> give their fields; the kernel reaches them through the identity map.
\<close>

section \<open>Structures\<close>

text \<open>\<open>slab_bufctl_t\<close> (packed): \<open>next\<close> at 0, the 16-bit \<open>index\<close> at 8, 10 bytes in all.\<close>

definition sizeof_slab_bufctl_t :: u64 where "sizeof_slab_bufctl_t = 10"
definition bufctl_next :: "memory \<Rightarrow> u64 \<Rightarrow> u64" where "bufctl_next m b = load64 m b"
definition bufctl_index :: "memory \<Rightarrow> u64 \<Rightarrow> u16" where "bufctl_index m b = load16 m (b + 8)"
definition set_bufctl_next :: "u64 \<Rightarrow> u64 \<Rightarrow> memory \<Rightarrow> memory" where "set_bufctl_next b v m = store64 m b v"
definition set_bufctl_index :: "u64 \<Rightarrow> u16 \<Rightarrow> memory \<Rightarrow> memory" where "set_bufctl_index b v m = store16 m (b + 8) v"

text \<open>\<open>slab_t\<close>: five 8-byte fields.\<close>

definition sizeof_slab_t :: u64 where "sizeof_slab_t = 40"
definition slab_next :: "memory \<Rightarrow> u64 \<Rightarrow> u64" where "slab_next m a = load64 m a"
definition slab_bufctl_count :: "memory \<Rightarrow> u64 \<Rightarrow> u64" where "slab_bufctl_count m a = load64 m (a + 8)"
definition slab_bufctl_addr :: "memory \<Rightarrow> u64 \<Rightarrow> u64" where "slab_bufctl_addr m a = load64 m (a + 16)"
definition slab_freelist_head :: "memory \<Rightarrow> u64 \<Rightarrow> u64" where "slab_freelist_head m a = load64 m (a + 24)"
definition slab_freelist :: "memory \<Rightarrow> u64 \<Rightarrow> u64" where "slab_freelist m a = load64 m (a + 32)"
definition set_slab_next :: "u64 \<Rightarrow> u64 \<Rightarrow> memory \<Rightarrow> memory" where "set_slab_next a v m = store64 m a v"
definition set_slab_bufctl_count :: "u64 \<Rightarrow> u64 \<Rightarrow> memory \<Rightarrow> memory" where "set_slab_bufctl_count a v m = store64 m (a + 8) v"
definition set_slab_bufctl_addr :: "u64 \<Rightarrow> u64 \<Rightarrow> memory \<Rightarrow> memory" where "set_slab_bufctl_addr a v m = store64 m (a + 16) v"
definition set_slab_freelist_head :: "u64 \<Rightarrow> u64 \<Rightarrow> memory \<Rightarrow> memory" where "set_slab_freelist_head a v m = store64 m (a + 24) v"
definition set_slab_freelist :: "u64 \<Rightarrow> u64 \<Rightarrow> memory \<Rightarrow> memory" where "set_slab_freelist a v m = store64 m (a + 32) v"

text \<open>\<open>slab_cache_t\<close>: five 8-byte fields.\<close>

definition sizeof_slab_cache_t :: u64 where "sizeof_slab_cache_t = 40"
definition cache_name :: "memory \<Rightarrow> u64 \<Rightarrow> u64" where "cache_name m c = load64 m c"
definition cache_slab_size :: "memory \<Rightarrow> u64 \<Rightarrow> u64" where "cache_slab_size m c = load64 m (c + 8)"
definition cache_bufctl_count_max :: "memory \<Rightarrow> u64 \<Rightarrow> u64" where "cache_bufctl_count_max m c = load64 m (c + 16)"
definition cache_slabs_head :: "memory \<Rightarrow> u64 \<Rightarrow> u64" where "cache_slabs_head m c = load64 m (c + 24)"
definition cache_slabs :: "memory \<Rightarrow> u64 \<Rightarrow> u64" where "cache_slabs m c = load64 m (c + 32)"
definition set_cache_name :: "u64 \<Rightarrow> u64 \<Rightarrow> memory \<Rightarrow> memory" where "set_cache_name c v m = store64 m c v"
definition set_cache_slab_size :: "u64 \<Rightarrow> u64 \<Rightarrow> memory \<Rightarrow> memory" where "set_cache_slab_size c v m = store64 m (c + 8) v"
definition set_cache_bufctl_count_max :: "u64 \<Rightarrow> u64 \<Rightarrow> memory \<Rightarrow> memory" where "set_cache_bufctl_count_max c v m = store64 m (c + 16) v"
definition set_cache_slabs_head :: "u64 \<Rightarrow> u64 \<Rightarrow> memory \<Rightarrow> memory" where "set_cache_slabs_head c v m = store64 m (c + 24) v"
definition set_cache_slabs :: "u64 \<Rightarrow> u64 \<Rightarrow> memory \<Rightarrow> memory" where "set_cache_slabs c v m = store64 m (c + 32) v"

lemmas slab_field_defs = bufctl_next_def bufctl_index_def set_bufctl_next_def set_bufctl_index_def
  slab_next_def slab_bufctl_count_def slab_bufctl_addr_def slab_freelist_head_def slab_freelist_def
  set_slab_next_def set_slab_bufctl_count_def set_slab_bufctl_addr_def set_slab_freelist_head_def set_slab_freelist_def
  cache_name_def cache_slab_size_def cache_bufctl_count_max_def cache_slabs_head_def cache_slabs_def
  set_cache_name_def set_cache_slab_size_def set_cache_bufctl_count_max_def set_cache_slabs_head_def set_cache_slabs_def

record slab_flags_t =
  SLAB_PANIC :: bool
  SLAB_AUTO_GROW :: bool
  SLAB_NO_ALIGN :: bool

section \<open>Utility functions\<close>

abbreviation upd_mem :: "(memory \<Rightarrow> memory) \<Rightarrow> 'a pmm_state_scheme \<Rightarrow> 'a pmm_state_scheme" where
  "upd_mem f s \<equiv> s\<lparr>kmem := f (kmem s)\<rparr>"

definition is_power_of_two :: "int \<Rightarrow> bool" where
  "is_power_of_two num \<longleftrightarrow> num > 0 \<and> num AND (num - 1) = 0"

definition slab_create_bufctl_buffer :: "'a pmm_state_scheme \<Rightarrow> (u64 \<times> 'a pmm_state_scheme) result" where
  "slab_create_bufctl_buffer s =
     rbind (pmm_allocz s 1) (\<lambda>(bufctl, s).
       if bufctl = 0 then Inr (0, s)
       else Inr (bufctl, upd_mem (set_bufctl_next bufctl 0) s))"

definition slab_create_slab :: "u64 \<Rightarrow> u64 \<Rightarrow> memory \<Rightarrow> memory" where
  "slab_create_slab cache bufctl m =
     (let slab = (bufctl + 4096) - sizeof_slab_t;
          m = set_slab_next slab 0 m;
          m = set_slab_bufctl_count slab (cache_bufctl_count_max m cache) m;
          m = set_slab_bufctl_addr slab bufctl m;
          m = set_slab_freelist_head slab 0 m;
          m = set_slab_freelist slab 0 m
      in if cache_slabs m cache = 0
         then set_cache_slabs cache slab (set_cache_slabs_head cache slab m)
         else let m = set_slab_next (cache_slabs m cache) slab m
              in set_cache_slabs cache (slab_next m (cache_slabs m cache)) m)"

definition slab_init_bufctls :: "u64 \<Rightarrow> u64 \<Rightarrow> u64 \<Rightarrow> slab_flags_t \<Rightarrow> memory \<Rightarrow> memory" where
  "slab_init_bufctls cache bufctl index flags m =
     (let new_bufctl = bufctl + cache_slab_size m cache * index;
          m = set_bufctl_index new_bufctl (ucast index) m;
          slab = cache_slabs m cache
      in if SLAB_NO_ALIGN flags \<and> new_bufctl AND 0xFFF = 0
         then let m = set_slab_bufctl_count slab (slab_bufctl_count m slab - 1) m
              in set_cache_bufctl_count_max cache (cache_bufctl_count_max m cache - 1) m
         else if slab_freelist m slab = 0
         then set_slab_freelist slab new_bufctl (set_slab_freelist_head slab new_bufctl m)
         else let m = set_bufctl_next (slab_freelist m slab) new_bufctl m
              in set_slab_freelist slab (bufctl_next m (slab_freelist m slab)) m)"

section \<open>Core functions\<close>

fun slab_grow_loop :: "u64 \<Rightarrow> slab_flags_t \<Rightarrow> nat \<Rightarrow> 'a pmm_state_scheme \<Rightarrow> 'a pmm_state_scheme result" where
  "slab_grow_loop cache flags 0 s = Inr s"
| "slab_grow_loop cache flags (Suc n) s =
     rbind (slab_create_bufctl_buffer s) (\<lambda>(bufctl, s).
       if bufctl = 0 \<and> SLAB_PANIC flags then Inl (Panic ''Slab cache grow: Couldn't create bufctl'')
       else if bufctl = 0 then Inr s
       else let s = upd_mem (slab_create_slab cache bufctl) s;
                max_const = cache_bufctl_count_max (kmem s) cache
            in slab_grow_loop cache flags n
                 (upd_mem (fold (\<lambda>j. slab_init_bufctls cache bufctl (of_nat j) flags) [0..<unat max_const]) s))"

definition slab_cache_grow :: "'a pmm_state_scheme \<Rightarrow> u64 \<Rightarrow> u64 \<Rightarrow> slab_flags_t \<Rightarrow> 'a pmm_state_scheme result" where
  "slab_cache_grow s cache count flags =
     (if cache = 0 \<and> SLAB_PANIC flags then Inl (Panic ''Slab cache grow (name missing): Cache doesn't exist'')
      else if cache = 0 then Inr s
      else slab_grow_loop cache flags (unat count)
             (upd_mem (\<lambda>m. set_cache_slabs cache (cache_slabs_head m cache) m) s))"

definition slab_cache_create ::
  "'a pmm_state_scheme \<Rightarrow> u64 \<Rightarrow> u64 \<Rightarrow> slab_flags_t \<Rightarrow> (u64 \<times> 'a pmm_state_scheme) result" where
  "slab_cache_create s name slab_size flags =
     rbind (assert_impl (slab_size \<le> 512) ''slab_size <= 512'') (\<lambda>_.
     rbind (assert_impl (sizeof_slab_bufctl_t \<le> slab_size) ''slab_size >= sizeof(slab_bufctl_t)'') (\<lambda>_.
     rbind (assert_impl (is_power_of_two (sint (ucast slab_size :: 32 word))) ''is_power_of_two(slab_size)'') (\<lambda>_.
     rbind (pmm_allocz s 1) (\<lambda>(cache, s).
       if cache = 0 \<and> SLAB_PANIC flags then Inl (Panic ''Slab cache create: Couldn't allocate memory'')
       else if cache = 0 then Inr (0, s)
       else let s = upd_mem (set_cache_name cache name) s;
                s = upd_mem (set_cache_slab_size cache slab_size) s;
                s = upd_mem (\<lambda>m. set_cache_bufctl_count_max cache
                      ((4096 - sizeof_slab_cache_t) div cache_slab_size m cache) m) s;
                s = upd_mem (set_cache_slabs cache 0) s
            in rbind (slab_cache_grow s cache 1 flags) (\<lambda>s. Inr (cache, s))))))"

text \<open>
  The loops that follow the \<open>next\<close> pointers of the slabs end only when the list does: \<open>None\<close> is
  the loop that never returns. The flag in the result of the first says whether the end was reached.
\<close>

partial_function (option) slab_destroy_loop ::
  "u64 \<Rightarrow> slab_flags_t \<Rightarrow> 'a pmm_state_scheme \<Rightarrow> (bool \<times> 'a pmm_state_scheme) result option" where
  "slab_destroy_loop cache flags s =
     (let m = kmem s; slab = cache_slabs m cache in
      if slab = 0 then Some (Inr (True, s))
      else if slab_bufctl_count m slab \<noteq> cache_bufctl_count_max m cache \<and> SLAB_PANIC flags
      then Some (Inl (Panic ''Slab cache destroy: A slab wasn't compeltely free''))
      else if slab_bufctl_count m slab \<noteq> cache_bufctl_count_max m cache then Some (Inr (False, s))
      else case pmm_free s (slab_freelist_head m slab) 1 of
             Inl e \<Rightarrow> Some (Inl e)
           | Inr s \<Rightarrow> slab_destroy_loop cache flags (upd_mem (set_cache_slabs cache (slab_next (kmem s) slab)) s))"

definition slab_cache_destroy :: "'a pmm_state_scheme \<Rightarrow> u64 \<Rightarrow> slab_flags_t \<Rightarrow> 'a pmm_state_scheme result option" where
  "slab_cache_destroy s cache flags =
     (if cache = 0 \<and> SLAB_PANIC flags then Some (Inl (Panic ''Slab cache destroy (name missing): Cache doesn't exist''))
      else if cache = 0 then Some (Inr s)
      else map_option (\<lambda>r. rbind r (\<lambda>(finished, s).
             if finished
             then pmm_free (upd_mem (\<lambda>m. memset m cache 0 sizeof_slab_cache_t) s) cache 1
             else Inr s))
           (slab_destroy_loop cache flags (upd_mem (\<lambda>m. set_cache_slabs cache (cache_slabs_head m cache) m) s)))"

partial_function (option) slab_reap_loop ::
  "u64 \<Rightarrow> u64 \<Rightarrow> 'a pmm_state_scheme \<Rightarrow> 'a pmm_state_scheme result option" where
  "slab_reap_loop cache prev s =
     (let m = kmem s; slab = cache_slabs m cache in
      if slab = 0 then Some (Inr s)
      else if slab_bufctl_count m slab = cache_bufctl_count_max m cache
      then (let m = (if slab = cache_slabs_head m cache then set_cache_slabs_head cache (slab_next m slab) m else m);
                m = set_slab_next prev (slab_next m slab) m
            in case pmm_free (s\<lparr>kmem := m\<rparr>) slab 1 of
                 Inl e \<Rightarrow> Some (Inl e)
               | Inr s \<Rightarrow> slab_reap_loop cache prev (upd_mem (\<lambda>m. set_cache_slabs cache (slab_next m prev) m) s))
      else slab_reap_loop cache slab (upd_mem (set_cache_slabs cache (slab_next m slab)) s))"

definition slab_cache_reap :: "'a pmm_state_scheme \<Rightarrow> u64 \<Rightarrow> slab_flags_t \<Rightarrow> 'a pmm_state_scheme result option" where
  "slab_cache_reap s cache flags =
     (if cache = 0 \<and> SLAB_PANIC flags then Some (Inl (Panic ''Slab cache reap (name missing): Cache doesn't exist''))
      else if cache = 0 then Some (Inr s)
      else slab_reap_loop cache (cache_slabs_head (kmem s) cache)
             (upd_mem (\<lambda>m. set_cache_slabs cache (cache_slabs_head m cache) m) s))"

text \<open>
  The allocation loop. The tail call \<open>slab_cache_alloc(cache, flags)\<close> after growing starts over at
  the head of the slab list.
\<close>

definition slab_pop :: "u64 \<Rightarrow> memory \<Rightarrow> memory" where
  "slab_pop slab m =
     (let m = set_slab_freelist_head slab (bufctl_next m (slab_freelist_head m slab)) m
      in set_slab_bufctl_count slab (slab_bufctl_count m slab - 1) m)"

partial_function (option) slab_alloc_loop ::
  "u64 \<Rightarrow> slab_flags_t \<Rightarrow> 'a pmm_state_scheme \<Rightarrow> (u64 \<times> 'a pmm_state_scheme) result option" where
  "slab_alloc_loop cache flags s =
     (let m = kmem s; slab = cache_slabs m cache in
      if slab = 0 \<and> SLAB_AUTO_GROW flags
      then (case slab_cache_grow s cache 1 flags of
              Inl e \<Rightarrow> Some (Inl e)
            | Inr s \<Rightarrow> slab_alloc_loop cache flags
                        (upd_mem (\<lambda>m. set_cache_slabs cache (cache_slabs_head m cache) m) s))
      else if slab = 0 \<and> SLAB_PANIC flags then Some (Inl (Panic ''Slab cache alloc: Couldn't find allocatable memory''))
      else if slab = 0 then Some (Inr (0, s))
      else if slab_freelist_head m slab \<noteq> 0
      then Some (Inr (slab_freelist_head m slab, upd_mem (slab_pop slab) s))
      else slab_alloc_loop cache flags (upd_mem (set_cache_slabs cache (slab_next m slab)) s))"

definition slab_cache_alloc ::
  "'a pmm_state_scheme \<Rightarrow> u64 \<Rightarrow> slab_flags_t \<Rightarrow> (u64 \<times> 'a pmm_state_scheme) result option" where
  "slab_cache_alloc s cache flags =
     (if cache = 0 \<and> SLAB_PANIC flags then Some (Inl (Panic ''Slab cache alloc (name missing): Cache doesn't exist''))
      else if cache = 0 then Some (Inr (0, s))
      else slab_alloc_loop cache flags (upd_mem (\<lambda>m. set_cache_slabs cache (cache_slabs_head m cache) m) s))"

definition slab_push :: "u64 \<Rightarrow> u64 \<Rightarrow> u64 \<Rightarrow> memory \<Rightarrow> memory" where
  "slab_push cache slab new_bufctl m =
     (let m = set_bufctl_next new_bufctl (slab_freelist_head m slab) m;
          m = set_bufctl_index new_bufctl
                (ucast ((new_bufctl - slab_bufctl_addr m slab) div cache_slab_size m cache)) m;
          m = set_slab_freelist_head slab new_bufctl m
      in set_slab_bufctl_count slab (slab_bufctl_count m slab + 1) m)"

partial_function (option) slab_free_loop ::
  "u64 \<Rightarrow> u64 \<Rightarrow> slab_flags_t \<Rightarrow> 'a pmm_state_scheme \<Rightarrow> 'a pmm_state_scheme result option" where
  "slab_free_loop cache pointer flags s =
     (let m = kmem s; slab = cache_slabs m cache in
      if slab = 0 \<and> SLAB_PANIC flags
      then Some (Inl (Panic ''Slab cache free: Couldn't find a slab for the to be freed pointer''))
      else if slab = 0 then Some (Inr s)
      else if slab_bufctl_count m slab < cache_bufctl_count_max m cache
      then Some (Inr (upd_mem (slab_push cache slab pointer) s))
      else slab_free_loop cache pointer flags (upd_mem (set_cache_slabs cache (slab_next m slab)) s))"

definition slab_cache_free ::
  "'a pmm_state_scheme \<Rightarrow> u64 \<Rightarrow> u64 \<Rightarrow> slab_flags_t \<Rightarrow> 'a pmm_state_scheme result option" where
  "slab_cache_free s cache pointer flags =
     (if cache = 0 \<and> SLAB_PANIC flags then Some (Inl (Panic ''Slab cache free (name missing): Cache doesn't exist''))
      else if cache = 0 then Some (Inr s)
      else slab_free_loop cache pointer flags (upd_mem (\<lambda>m. set_cache_slabs cache (cache_slabs_head m cache) m) s))"

text \<open>\<open>slab_cache_dump\<close> prints, slab by slab, the number, the index and the address of each free buffer.\<close>

partial_function (option) slab_dump_bufctls ::
  "u64 \<Rightarrow> u64 \<Rightarrow> int \<Rightarrow> (int \<times> u16 \<times> u64) list \<Rightarrow> memory \<Rightarrow> ((int \<times> u16 \<times> u64) list \<times> memory) option" where
  "slab_dump_bufctls cache slab bufctl_count out m =
     (let b = slab_freelist m slab in
      if b = 0 then Some (rev out, m)
      else slab_dump_bufctls cache slab (bufctl_count + 1)
             ((bufctl_count, bufctl_index m b,
               slab_bufctl_addr m slab + cache_slab_size m cache * ucast (bufctl_index m b)) # out)
             (set_slab_freelist slab (bufctl_next m b) m))"

partial_function (option) slab_dump_loop ::
  "u64 \<Rightarrow> int \<Rightarrow> (int \<times> u64 \<times> (int \<times> u16 \<times> u64) list) list \<Rightarrow> memory
   \<Rightarrow> ((int \<times> u64 \<times> (int \<times> u16 \<times> u64) list) list \<times> memory) option" where
  "slab_dump_loop cache slab_count out m =
     (let slab = cache_slabs m cache in
      if slab = 0 then Some (rev out, m)
      else case slab_dump_bufctls cache slab 0 [] (set_slab_freelist slab (slab_freelist_head m slab) m) of
             None \<Rightarrow> None
           | Some (bufs, m) \<Rightarrow> slab_dump_loop cache (slab_count + 1) ((slab_count, slab, bufs) # out)
                                (set_cache_slabs cache (slab_next m slab) m))"

definition slab_cache_dump ::
  "'a pmm_state_scheme \<Rightarrow> u64 \<Rightarrow> slab_flags_t
   \<Rightarrow> ((int \<times> u64 \<times> (int \<times> u16 \<times> u64) list) list \<times> 'a pmm_state_scheme) result option" where
  "slab_cache_dump s cache flags =
     (let s = upd_mem (\<lambda>m. set_cache_slabs cache (cache_slabs_head m cache) m) s in
      if cache_slabs (kmem s) cache = 0 \<and> SLAB_PANIC flags
      then Some (Inl (Panic ''Slab cache dump (name missing): Slabs don't exist''))
      else if cache_slabs (kmem s) cache = 0 then Some (Inr ([], s))
      else map_option (\<lambda>(out, m). Inr (out, s\<lparr>kmem := m\<rparr>)) (slab_dump_loop cache 0 [] (kmem s)))"

end
