(* ===== verification/Slab_Pool.thy ===== *)
theory Slab_Pool
  imports Slab "HOL-Library.Multiset"
begin

text \<open>
  What a slab cache is for its clients: a pool of disjoint buffers. The invariant reads the linked
  lists of \<open>memory/dynamic/slab.c\<close> off the bytes of memory; allocation takes a buffer out of the
  pool, release puts it back, creation fills the pool from one fresh page.
\<close>

section \<open>Places inside pages\<close>

definition loc :: "nat \<Rightarrow> nat \<Rightarrow> u64" where
  "loc q n = of_nat (q * 4096 + n)"

lemma unat_loc: "q < 2 ^ 31 \<Longrightarrow> n < 4096 \<Longrightarrow> unat (loc q n) = q * 4096 + n"
  unfolding loc_def by (simp add: unat_of_nat del: of_nat_add of_nat_mult)

lemma loc_add [simp]: "loc q n + numeral k = loc q (n + numeral k)"
  by (simp add: loc_def add.assoc)

lemma page_addr_loc: "page_addr q = loc q 0"
  by (simp add: page_addr_def loc_def)

lemma loc_eq_iff: "q < 2 ^ 31 \<Longrightarrow> p < 2 ^ 31 \<Longrightarrow> n < 4096 \<Longrightarrow> k < 4096 \<Longrightarrow> loc q n = loc p k \<longleftrightarrow> q = p \<and> n = k"
proof
  assume a: "q < 2 ^ 31" "p < 2 ^ 31" "n < 4096" "k < 4096" "loc q n = loc p k"
  then have eq: "q * 4096 + n = p * 4096 + k" using unat_loc by metis
  then have "(q * 4096 + n) div 4096 = (p * 4096 + k) div 4096" by simp
  then have "q = p" using a(3,4) by simp
  with eq show "q = p \<and> n = k" by simp
qed simp

lemma loc_nonzero: "0 < q \<Longrightarrow> q < 2 ^ 31 \<Longrightarrow> n < 4096 \<Longrightarrow> loc q n \<noteq> 0"
  using unat_loc [of q n] by auto

lemma loc_separate:
  assumes "q < 2 ^ 31" "p < 2 ^ 31" "n + j \<le> 4096" "k + i \<le> 4096" "0 < j" "0 < i"
    and "q \<noteq> p \<or> n + j \<le> k \<or> k + i \<le> n"
  shows "separate (loc q n) j (loc p k) i"
proof -
  have u: "unat (loc q n) = q * 4096 + n" "unat (loc p k) = p * 4096 + k"
    using assms by (simp_all add: unat_loc)
  consider "q + 1 \<le> p" | "p + 1 \<le> q" | "q = p" "n + j \<le> k" | "q = p" "k + i \<le> n"
    using assms(7) by linarith
  then show ?thesis using assms(1-4) unfolding separate_def u by cases auto
qed

text \<open>Loads of a field after a store to another one.\<close>

lemma load64_loc:
  assumes "q < 2 ^ 31" "p < 2 ^ 31" "n + 8 \<le> 4096" "k + 8 \<le> 4096" "q \<noteq> p \<or> n + 8 \<le> k \<or> k + 8 \<le> n"
  shows "load64 (store64 m (loc p k) w) (loc q n) = load64 m (loc q n)"
  by (rule load64_store64_separate, rule loc_separate) (use assms in auto)

lemma load64_loc16:
  assumes "q < 2 ^ 31" "p < 2 ^ 31" "n + 8 \<le> 4096" "k + 2 \<le> 4096" "q \<noteq> p \<or> n + 8 \<le> k \<or> k + 2 \<le> n"
  shows "load64 (store16 m (loc p k) w) (loc q n) = load64 m (loc q n)"
  by (rule load64_store16_separate, rule loc_separate) (use assms in auto)

section \<open>Lists in memory\<close>

text \<open>\<open>chain m a xs\<close>: following the 8-byte pointer at the start of each node leads through \<open>xs\<close> to \<open>NULL\<close>.\<close>

fun chain :: "memory \<Rightarrow> u64 \<Rightarrow> u64 list \<Rightarrow> bool" where
  "chain m a [] \<longleftrightarrow> a = 0"
| "chain m a (x # xs) \<longleftrightarrow> a = x \<and> x \<noteq> 0 \<and> chain m (load64 m x) xs"

lemma chain_cong: "(\<And>x. x \<in> set xs \<Longrightarrow> load64 m' x = load64 m x) \<Longrightarrow> chain m' a xs = chain m a xs"
  by (induction xs arbitrary: a) auto


section \<open>The invariant of a cache\<close>

text \<open>
  A cache in page \<open>c\<close> with buffers of \<open>sz\<close> bytes; \<open>ss\<close> lists the slabs in order, each as the page
  of its buffers and the free buffers on its own list. A free buffer need not lie in the page of
  the slab whose list it is on: \<open>slab_cache_free\<close> uses the first slab that has room.
\<close>

definition bufs :: "nat \<Rightarrow> nat \<Rightarrow> u64 set" where
  "bufs sz q = (\<lambda>k. loc q (k * sz)) ` {..<4056 div sz}"

abbreviation free_bufs :: "(nat \<times> u64 list) list \<Rightarrow> u64 list" where
  "free_bufs ss \<equiv> concat (map snd ss)"

definition slab_inv :: "memory \<Rightarrow> nat \<Rightarrow> nat \<times> u64 list \<Rightarrow> bool" where
  "slab_inv m mx = (\<lambda>(q, fr). load64 m (loc q 4064) = of_nat (length fr) \<and> length fr \<le> mx
     \<and> load64 m (loc q 4072) = loc q 0 \<and> chain m (load64 m (loc q 4080)) fr)"

definition pool_shape :: "nat \<Rightarrow> nat \<Rightarrow> nat \<Rightarrow> (nat \<times> u64 list) list \<Rightarrow> bool" where
  "pool_shape c sz mx ss \<longleftrightarrow> 16 \<le> sz \<and> sz \<le> 512 \<and> mx \<le> 4056 div sz \<and> 0 < c \<and> c < 2 ^ 31
     \<and> (\<forall>q\<in>fst ` set ss. 0 < q \<and> q < 2 ^ 31) \<and> distinct (c # map fst ss)
     \<and> distinct (free_bufs ss) \<and> (\<forall>p\<in>set (free_bufs ss). \<exists>q\<in>fst ` set ss. p \<in> bufs sz q)"

definition cache_inv :: "memory \<Rightarrow> nat \<Rightarrow> nat \<Rightarrow> nat \<Rightarrow> (nat \<times> u64 list) list \<Rightarrow> bool" where
  "cache_inv m c sz mx ss \<longleftrightarrow> pool_shape c sz mx ss
     \<and> load64 m (loc c 8) = of_nat sz \<and> load64 m (loc c 16) = of_nat mx
     \<and> chain m (load64 m (loc c 24)) (map (\<lambda>x. loc (fst x) 4056) ss) \<and> (\<forall>x\<in>set ss. slab_inv m mx x)"

definition footprint :: "nat \<Rightarrow> (nat \<times> u64 list) list \<Rightarrow> u64 set" where
  "footprint c ss = {loc c 8, loc c 16, loc c 24}
     \<union> (\<Union>q\<in>fst ` set ss. {loc q 4056, loc q 4064, loc q 4072, loc q 4080}) \<union> set (free_bufs ss)"

lemma bufsE:
  assumes "p \<in> bufs sz q" "16 \<le> sz"
  obtains n where "p = loc q n" "n + sz \<le> 4056"
proof -
  obtain k where k: "p = loc q (k * sz)" "k < 4056 div sz" using assms(1) by (auto simp: bufs_def)
  have "(k + 1) * sz \<le> 4056 div sz * sz" using k(2) by (intro mult_le_mono1) simp
  also have "\<dots> \<le> 4056" by (rule div_times_less_eq_dividend)
  finally have "k * sz + sz \<le> 4056" by simp
  with k(1) show thesis by (rule that)
qed

lemma pool_free_bufE:
  assumes "pool_shape c sz mx ss" "p \<in> set (free_bufs ss)"
  obtains q n where "q \<in> fst ` set ss" "p = loc q n" "n + sz \<le> 4056" "q < 2 ^ 31" "0 < q" "q \<noteq> c"
proof -
  obtain q where q: "q \<in> fst ` set ss" "p \<in> bufs sz q" and sz: "16 \<le> sz"
    using assms unfolding pool_shape_def by blast
  obtain n where n: "p = loc q n" "n + sz \<le> 4056" by (rule bufsE [OF q(2) sz])
  have "q < 2 ^ 31" "0 < q" "q \<noteq> c" using q(1) assms(1) unfolding pool_shape_def by auto
  with q(1) n show thesis by (rule that)
qed

text \<open>Every word of the footprint starts at an offset of its page that no field straddles.\<close>

lemma footprint_cursor:
  assumes "pool_shape c sz mx ss" "a \<in> footprint c ss"
  shows "load64 (store64 m (loc c 32) w) a = load64 m a"
proof -
  have c: "c < 2 ^ 31" and qs: "\<And>q. q \<in> fst ` set ss \<Longrightarrow> q < 2 ^ 31 \<and> q \<noteq> c" and sz: "16 \<le> sz"
    using assms(1) by (auto simp: pool_shape_def)
  consider "a \<in> {loc c 8, loc c 16, loc c 24}"
    | q where "q \<in> fst ` set ss" "a \<in> {loc q 4056, loc q 4064, loc q 4072, loc q 4080}"
    | "a \<in> set (free_bufs ss)"
    using assms(2) by (auto simp: footprint_def)
  then show ?thesis
  proof cases
    case 1
    then show ?thesis using c by (auto simp: load64_loc)
  next
    case 2
    then show ?thesis using c qs [OF 2(1)] by (auto simp: load64_loc)
  next
    case 3
    obtain q n where "a = loc q n" "n + sz \<le> 4056" "q < 2 ^ 31" "q \<noteq> c"
      by (rule pool_free_bufE [OF assms(1) 3])
    then show ?thesis using c sz by (simp add: load64_loc)
  qed
qed

lemma slab_inv_cong:
  assumes "\<And>a. a \<in> {loc (fst x) 4064, loc (fst x) 4072, loc (fst x) 4080} \<union> set (snd x) \<Longrightarrow> load64 m' a = load64 m a"
  shows "slab_inv m' mx x = slab_inv m mx x"
proof -
  have "chain m' a (snd x) = chain m a (snd x)" for a using assms by (intro chain_cong) auto
  then show ?thesis using assms by (simp add: slab_inv_def split_beta)
qed

lemma cache_inv_cong:
  assumes "\<And>a. a \<in> footprint c ss \<Longrightarrow> load64 m' a = load64 m a"
  shows "cache_inv m' c sz mx ss = cache_inv m c sz mx ss"
proof -
  have "chain m' a (map (\<lambda>x. loc (fst x) 4056) ss) = chain m a (map (\<lambda>x. loc (fst x) 4056) ss)" for a
    by (rule chain_cong, rule assms) (auto simp: footprint_def)
  moreover have "slab_inv m' mx x = slab_inv m mx x" if "x \<in> set ss" for x
    by (rule slab_inv_cong, rule assms) (use that in \<open>auto simp: footprint_def\<close>)
  ultimately show ?thesis using assms by (simp add: cache_inv_def footprint_def)
qed

lemma cache_inv_cursor:
  "cache_inv m c sz mx ss \<Longrightarrow> cache_inv (store64 m (loc c 32) w) c sz mx ss"
  using cache_inv_cong [of c ss "store64 m (loc c 32) w" m sz mx] footprint_cursor [of c sz mx ss]
  by (simp add: cache_inv_def)

text \<open>Replacing the free list of one slab.\<close>

lemma cache_inv_replace:
  assumes inv: "cache_inv m c sz mx (pre @ (q, fr) # post)"
    and same: "\<And>a. a \<in> footprint c (pre @ (q, fr) # post) \<Longrightarrow> a \<noteq> loc q 4064 \<Longrightarrow> a \<noteq> loc q 4080 \<Longrightarrow> load64 m' a = load64 m a"
    and new: "load64 m' (loc q 4064) = of_nat (length fr')" "chain m' (load64 m' (loc q 4080)) fr'"
    and shape: "pool_shape c sz mx (pre @ (q, fr') # post)" "length fr' \<le> mx"
  shows "cache_inv m' c sz mx (pre @ (q, fr') # post)"
proof -
  let ?ss = "pre @ (q, fr) # post"
  have ps: "pool_shape c sz mx ?ss" using inv by (simp add: cache_inv_def)
  have q: "q < 2 ^ 31" and c: "c < 2 ^ 31" "c \<noteq> q" and qs: "\<And>r. r \<in> fst ` set ?ss \<Longrightarrow> r < 2 ^ 31"
    using ps by (auto simp: pool_shape_def)
  have fields: "load64 m' (loc r k) = load64 m (loc r k)"
    if "r \<in> fst ` set ?ss" "k \<in> {4056, 4072} \<or> k \<in> {4064, 4080} \<and> r \<noteq> q" for r k
  proof (rule same)
    show "loc r k \<in> footprint c ?ss" using that by (auto simp: footprint_def)
    show "loc r k \<noteq> loc q 4064" "loc r k \<noteq> loc q 4080"
      using that qs [OF that(1)] q by (auto simp: loc_eq_iff)
  qed
  have nodes: "load64 m' a = load64 m a" if node: "a \<in> set (free_bufs ?ss)" for a
  proof (rule same)
    show "a \<in> footprint c ?ss" using node by (simp add: footprint_def)
    obtain r n where "a = loc r n" "n + sz \<le> 4056" "r < 2 ^ 31" by (rule pool_free_bufE [OF ps node])
    then show "a \<noteq> loc q 4064" "a \<noteq> loc q 4080" using q by (auto simp: loc_eq_iff)
  qed
  have cache: "load64 m' (loc c k) = load64 m (loc c k)" if "k \<in> {8, 16, 24}" for k
    by (rule same) (use that c q in \<open>auto simp: footprint_def loc_eq_iff\<close>)
  have others: "slab_inv m' mx x" if "x \<in> set pre \<union> set post" for x
  proof -
    have x: "fst x \<noteq> q" "fst x \<in> fst ` set ?ss" using that ps by (auto simp: pool_shape_def image_iff)
    have n: "a \<in> set (free_bufs ?ss)" if "a \<in> set (snd x)" for a using that \<open>x \<in> set pre \<union> set post\<close> by auto
    have "slab_inv m' mx x = slab_inv m mx x"
    proof (rule slab_inv_cong, elim UnE)
      fix a assume "a \<in> {loc (fst x) 4064, loc (fst x) 4072, loc (fst x) 4080}"
      then show "load64 m' a = load64 m a" using fields [OF x(2)] x(1) by auto
    qed (rule nodes [OF n])
    then show ?thesis using that inv by (auto simp: cache_inv_def)
  qed
  have "chain m' a (map (\<lambda>x. loc (fst x) 4056) (pre @ (q, fr') # post)) = chain m a (map (\<lambda>x. loc (fst x) 4056) ?ss)" for a
  proof -
    have "chain m' a (map (\<lambda>x. loc (fst x) 4056) ?ss) = chain m a (map (\<lambda>x. loc (fst x) 4056) ?ss)"
      by (rule chain_cong) (auto intro!: fields)
    then show ?thesis by simp
  qed
  moreover have "slab_inv m' mx (q, fr')"
    using new shape(2) fields [of q 4072] inv by (simp add: slab_inv_def cache_inv_def)
  ultimately show ?thesis
    using shape others cache inv by (auto simp: cache_inv_def)
qed

section \<open>Taking and returning a buffer\<close>

lemma footprint_slab_field:
  assumes ps: "pool_shape c sz mx ss" and a: "a \<in> footprint c ss" and q: "q \<in> fst ` set ss"
    and k: "k \<in> {4064, 4080}" "a \<noteq> loc q k"
  shows "load64 (store64 m (loc q k) w) a = load64 m a"
proof -
  have c: "c < 2 ^ 31" and qs: "\<And>q. q \<in> fst ` set ss \<Longrightarrow> q < 2 ^ 31 \<and> q \<noteq> c" and sz: "16 \<le> sz"
    using ps by (auto simp: pool_shape_def)
  consider "a \<in> {loc c 8, loc c 16, loc c 24}"
    | r where "r \<in> fst ` set ss" "a \<in> {loc r 4056, loc r 4064, loc r 4072, loc r 4080}"
    | "a \<in> set (free_bufs ss)"
    using a by (auto simp: footprint_def)
  then show ?thesis
  proof cases
    case 1
    then show ?thesis using c qs [OF q] k by (auto simp: load64_loc)
  next
    case 2
    then show ?thesis using qs [OF 2(1)] qs [OF q] k by (cases "r = q") (auto simp: load64_loc)
  next
    case 3
    obtain r n where "a = loc r n" "n + sz \<le> 4056" "r < 2 ^ 31"
      by (rule pool_free_bufE [OF ps 3])
    then show ?thesis using qs [OF q] sz k by (auto simp: load64_loc)
  qed
qed

lemma slab_fields_loc:
  "slab_next m (loc q 4056) = load64 m (loc q 4056)" "slab_bufctl_count m (loc q 4056) = load64 m (loc q 4064)"
  "slab_bufctl_addr m (loc q 4056) = load64 m (loc q 4072)" "slab_freelist_head m (loc q 4056) = load64 m (loc q 4080)"
  "slab_freelist m (loc q 4056) = load64 m (loc q 4088)"
  "set_slab_next (loc q 4056) v m = store64 m (loc q 4056) v" "set_slab_bufctl_count (loc q 4056) v m = store64 m (loc q 4064) v"
  "set_slab_bufctl_addr (loc q 4056) v m = store64 m (loc q 4072) v" "set_slab_freelist_head (loc q 4056) v m = store64 m (loc q 4080) v"
  "set_slab_freelist (loc q 4056) v m = store64 m (loc q 4088) v"
  by (simp_all add: slab_field_defs)

lemma cache_fields_loc:
  "cache_slab_size m (loc c 0) = load64 m (loc c 8)" "cache_bufctl_count_max m (loc c 0) = load64 m (loc c 16)"
  "cache_slabs_head m (loc c 0) = load64 m (loc c 24)" "cache_slabs m (loc c 0) = load64 m (loc c 32)"
  "set_cache_name (loc c 0) v m = store64 m (loc c 0) v" "set_cache_slab_size (loc c 0) v m = store64 m (loc c 8) v"
  "set_cache_bufctl_count_max (loc c 0) v m = store64 m (loc c 16) v"
  "set_cache_slabs_head (loc c 0) v m = store64 m (loc c 24) v" "set_cache_slabs (loc c 0) v m = store64 m (loc c 32) v"
  by (simp_all add: slab_field_defs)

lemmas field_locs = slab_fields_loc cache_fields_loc

text \<open>What may change in memory: the page of the cache, the slab structures and the bytes of \<open>X\<close>.\<close>

definition pool_frame :: "nat \<Rightarrow> (nat \<times> u64 list) list \<Rightarrow> u64 set \<Rightarrow> memory \<Rightarrow> memory \<Rightarrow> bool" where
  "pool_frame c ss X m m' \<longleftrightarrow> (\<forall>a. a \<notin> X \<longrightarrow> unat a div 4096 \<noteq> c \<longrightarrow> \<not> (unat a div 4096 \<in> fst ` set ss \<and> 4056 \<le> unat a mod 4096) \<longrightarrow>
     m' a = m a)"

lemma pool_frame_refl [simp]: "pool_frame c ss X m m"
  by (simp add: pool_frame_def)

lemma pool_frame_trans: "pool_frame c ss X m m' \<Longrightarrow> pool_frame c ss X m' m'' \<Longrightarrow> pool_frame c ss X m m''"
  by (simp add: pool_frame_def)

lemma store64_loc_outside:
  assumes "q < 2 ^ 31" "n + 8 \<le> 4096" "unat a div 4096 \<noteq> q \<or> unat a mod 4096 < n"
  shows "store64 m (loc q n) w a = m a"
proof -
  have "separate a 1 (loc q n) 8"
  proof -
    have a: "unat a = unat a div 4096 * 4096 + unat a mod 4096" by simp
    have "unat a mod 4096 < 4096" by simp
    consider "unat a div 4096 + 1 \<le> q" | "q + 1 \<le> unat a div 4096" | "unat a div 4096 = q" "unat a mod 4096 < n"
      using assms(3) by linarith
    then show ?thesis
      using assms(1,2) a \<open>unat a mod 4096 < 4096\<close> unat_u64_less [of a] unfolding separate_def
      by cases (simp add: unat_loc; linarith)+
  qed
  from separate_byte [OF this, of 0] show ?thesis by (simp add: store64_def store_word_def)
qed

lemma pool_frame_cursor:
  "c < 2 ^ 31 \<Longrightarrow> k + 8 \<le> 4096 \<Longrightarrow> pool_frame c ss X m (store64 m (loc c k) w)"
  by (simp add: pool_frame_def store64_loc_outside)

lemma pool_frame_slab:
  "q \<in> fst ` set ss \<Longrightarrow> q < 2 ^ 31 \<Longrightarrow> 4056 \<le> k \<Longrightarrow> k + 8 \<le> 4096 \<Longrightarrow> pool_frame c ss X m (store64 m (loc q k) w)"
  by (auto simp: pool_frame_def intro!: store64_loc_outside)

lemma slab_pop_inv:
  assumes inv: "cache_inv m c sz mx (pre @ (q, p # fr) # post)"
  shows "cache_inv (slab_pop (loc q 4056) m) c sz mx (pre @ (q, fr) # post)"
    and "pool_frame c (pre @ (q, p # fr) # post) {} m (slab_pop (loc q 4056) m)"
    and "load64 m (loc q 4080) = p"
proof -
  let ?ss = "pre @ (q, p # fr) # post"
  have ps: "pool_shape c sz mx ?ss" and sl: "slab_inv m mx (q, p # fr)" using inv by (auto simp: cache_inv_def)
  have q: "q < 2 ^ 31" using ps by (auto simp: pool_shape_def)
  show p: "load64 m (loc q 4080) = p" using sl by (simp add: slab_inv_def)
  define m1 where "m1 = store64 m (loc q 4080) (load64 m p)"
  have m': "slab_pop (loc q 4056) m = store64 m1 (loc q 4064) (load64 m1 (loc q 4064) - 1)"
    by (simp add: slab_pop_def Let_def field_locs bufctl_next_def p m1_def)
  have same: "load64 (slab_pop (loc q 4056) m) a = load64 m a"
    if "a \<in> footprint c ?ss" "a \<noteq> loc q 4064" "a \<noteq> loc q 4080" for a
    unfolding m' m1_def using that by (simp add: footprint_slab_field [OF ps])
  have node: "x \<in> footprint c ?ss" "x \<noteq> loc q 4064" "x \<noteq> loc q 4080" if x: "x \<in> set (p # fr)" for x
  proof -
    have free: "x \<in> set (free_bufs ?ss)" using x by auto
    then show "x \<in> footprint c ?ss" unfolding footprint_def by blast
    obtain r n where "x = loc r n" "n + sz \<le> 4056" "r < 2 ^ 31" by (rule pool_free_bufE [OF ps free])
    then show "x \<noteq> loc q 4064" "x \<noteq> loc q 4080" using q by (auto simp: loc_eq_iff)
  qed
  show "cache_inv (slab_pop (loc q 4056) m) c sz mx (pre @ (q, fr) # post)"
  proof (rule cache_inv_replace [OF inv same])
    show "load64 (slab_pop (loc q 4056) m) (loc q 4064) = of_nat (length fr)"
      using sl q by (simp add: m' m1_def load64_loc slab_inv_def)
    have "load64 (slab_pop (loc q 4056) m) (loc q 4080) = load64 m p"
      using q by (simp add: m' m1_def load64_loc)
    moreover have "chain m (load64 m p) fr" using sl by (simp add: slab_inv_def)
    moreover have "chain (slab_pop (loc q 4056) m) a fr = chain m a fr" for a
      using node same by (intro chain_cong) auto
    ultimately show "chain (slab_pop (loc q 4056) m) (load64 (slab_pop (loc q 4056) m) (loc q 4080)) fr" by simp
    show "pool_shape c sz mx (pre @ (q, fr) # post)" using ps by (auto simp: pool_shape_def)
    show "length fr \<le> mx" using sl by (simp add: slab_inv_def)
  qed
  show "pool_frame c ?ss {} m (slab_pop (loc q 4056) m)"
    unfolding m' m1_def using q by (intro pool_frame_trans [OF pool_frame_slab pool_frame_slab]) auto
qed

text \<open>Two different buffers of one size never share a byte.\<close>

lemma bufs_disjoint:
  assumes "p \<in> bufs sz q" "x \<in> bufs sz r" "p \<noteq> x" "16 \<le> sz" "q < 2 ^ 31" "r < 2 ^ 31"
  shows "separate x sz p sz"
proof -
  obtain i j where i: "p = loc q (i * sz)" "i < 4056 div sz" and j: "x = loc r (j * sz)" "j < 4056 div sz"
    using assms(1,2) by (auto simp: bufs_def)
  have room: "k * sz + sz \<le> 4096" if "k < 4056 div sz" for k
  proof -
    have "(k + 1) * sz \<le> 4056 div sz * sz" using that by (intro mult_le_mono1) simp
    also have "\<dots> \<le> 4056" by (rule div_times_less_eq_dividend)
    finally show ?thesis by simp
  qed
  have "r \<noteq> q \<or> j * sz + sz \<le> i * sz \<or> i * sz + sz \<le> j * sz"
  proof (cases "r = q")
    case True
    then have "i \<noteq> j" using assms(3) i j by auto
    then have "j + 1 \<le> i \<or> i + 1 \<le> j" by linarith
    then have "(j + 1) * sz \<le> i * sz \<or> (i + 1) * sz \<le> j * sz" by (meson mult_le_mono1)
    then show ?thesis by (simp add: add.commute)
  qed simp
  then show ?thesis
    using assms(4-) i j room [OF i(2)] room [OF j(2)] unfolding i(1) j(1)
    by (intro loc_separate) simp_all
qed

lemma separate_mono: "separate a j b k \<Longrightarrow> j' \<le> j \<Longrightarrow> k' \<le> k \<Longrightarrow> separate a j' b k'"
  by (auto simp: separate_def)

lemma separate_shift:
  assumes "separate a j b k" "n + i \<le> k" "unat b + k \<le> 2 ^ 64" "0 < i"
  shows "separate a j (b + of_nat n) i"
proof -
  have "unat (b + of_nat n) = unat b + n" using assms(2,3,4) by (intro unat_add_of_nat) simp
  then show ?thesis using assms by (auto simp: separate_def)
qed

lemma footprint_buf:
  assumes ps: "pool_shape c sz mx ss" and a: "a \<in> footprint c ss"
    and p: "p \<in> bufs sz r" "r \<in> fst ` set ss" "p \<notin> set (free_bufs ss)"
  shows "separate a 8 p sz"
proof -
  have c: "c < 2 ^ 31" and qs: "\<And>q. q \<in> fst ` set ss \<Longrightarrow> q < 2 ^ 31 \<and> q \<noteq> c" and sz: "16 \<le> sz"
    using ps by (auto simp: pool_shape_def)
  obtain n where n: "p = loc r n" "n + sz \<le> 4056" by (rule bufsE [OF p(1) sz])
  consider "a \<in> {loc c 8, loc c 16, loc c 24}"
    | q where "q \<in> fst ` set ss" "a \<in> {loc q 4056, loc q 4064, loc q 4072, loc q 4080}"
    | "a \<in> set (free_bufs ss)"
    using a by (auto simp: footprint_def)
  then show ?thesis
  proof cases
    case 1
    then show ?thesis using c qs [OF p(2)] n sz by (auto intro!: loc_separate)
  next
    case 2
    then show ?thesis using qs [OF 2(1)] qs [OF p(2)] n sz by (auto intro!: loc_separate)
  next
    case 3
    then obtain q where q: "q \<in> fst ` set ss" "a \<in> bufs sz q" using ps unfolding pool_shape_def by blast
    have "p \<noteq> a" using 3 p(3) by blast
    from bufs_disjoint [OF p(1) q(2) this sz] qs [OF q(1)] qs [OF p(2)] sz show ?thesis
      by (auto elim: separate_mono)
  qed
qed

lemma footprint_store_buf:
  assumes "pool_shape c sz mx ss" "a \<in> footprint c ss" "p \<in> bufs sz r" "r \<in> fst ` set ss" "p \<notin> set (free_bufs ss)"
  shows "load64 (store64 m p w) a = load64 m a" "load64 (store16 m (p + 8) v) a = load64 m a"
proof -
  have sz: "16 \<le> sz" and r: "r < 2 ^ 31" using assms(1,4) by (auto simp: pool_shape_def)
  obtain n where n: "p = loc r n" "n + sz \<le> 4056" by (rule bufsE [OF assms(3) sz])
  note sep = footprint_buf [OF assms]
  show "load64 (store64 m p w) a = load64 m a"
    using separate_mono [OF sep, of 8 8] sz by (intro load64_store64_separate) simp
  have "separate a 8 (p + of_nat 8) 2"
    using separate_shift [OF sep, of 8 2] sz n r by (simp add: unat_loc)
  then show "load64 (store16 m (p + 8) v) a = load64 m a" by (simp add: load64_store16_separate)
qed

lemma slab_push_inv:
  assumes inv: "cache_inv m c sz mx (pre @ (q, fr) # post)" and room: "length fr < mx"
    and p: "p \<in> bufs sz r" "r \<in> fst ` set (pre @ (q, fr) # post)" "p \<notin> set (free_bufs (pre @ (q, fr) # post))"
  shows "cache_inv (slab_push (loc c 0) (loc q 4056) p m) c sz mx (pre @ (q, p # fr) # post)"
    and "pool_frame c (pre @ (q, fr) # post) {a. unat (a - p) < 10} m (slab_push (loc c 0) (loc q 4056) p m)"
proof -
  let ?ss = "pre @ (q, fr) # post"
  have ps: "pool_shape c sz mx ?ss" and sl: "slab_inv m mx (q, fr)" using inv by (auto simp: cache_inv_def)
  have q: "q < 2 ^ 31" "q \<in> fst ` set ?ss" and sz: "16 \<le> sz" and r: "r < 2 ^ 31" "0 < r" using ps p(2) by (auto simp: pool_shape_def)
  obtain n where n: "p = loc r n" "n + sz \<le> 4056" by (rule bufsE [OF p(1) sz])
  have p0: "p \<noteq> 0" using loc_nonzero [OF r(2,1)] n by simp
  have ne: "p \<noteq> loc q 4064" "p \<noteq> loc q 4080" using n q(1) r by (auto simp: loc_eq_iff)
  define h where "h = load64 m (loc q 4080)"
  obtain v where v: "slab_push (loc c 0) (loc q 4056) p m =
      (let m = store64 (store16 (store64 m p h) (p + 8) v) (loc q 4080) p
       in store64 m (loc q 4064) (load64 m (loc q 4064) + 1))"
    by (simp add: slab_push_def Let_def field_locs set_bufctl_next_def set_bufctl_index_def h_def)
  define m3 where "m3 = store64 (store16 (store64 m p h) (p + 8) v) (loc q 4080) p"
  define m4 where "m4 = store64 m3 (loc q 4064) (load64 m3 (loc q 4064) + 1)"
  have push: "slab_push (loc c 0) (loc q 4056) p m = m4" by (simp add: v Let_def m3_def m4_def)
  have f: "loc q 4064 \<in> footprint c ?ss" "loc q 4080 \<in> footprint c ?ss" by (simp_all add: footprint_def)
  have same3: "load64 m3 a = load64 m a" if "a \<in> footprint c ?ss" "a \<noteq> loc q 4080" for a
    unfolding m3_def using that q footprint_store_buf [OF ps _ p] by (simp add: footprint_slab_field [OF ps])
  have same: "load64 m4 a = load64 m a" if "a \<in> footprint c ?ss" "a \<noteq> loc q 4064" "a \<noteq> loc q 4080" for a
    unfolding m4_def using that q same3 by (simp add: footprint_slab_field [OF ps])
  have cnt: "load64 m4 (loc q 4064) = of_nat (length (p # fr))"
    using same3 [OF f(1)] sl q(1) by (simp add: m4_def loc_eq_iff slab_inv_def add.commute)
  have head: "load64 m4 (loc q 4080) = p" using q(1) by (simp add: m4_def m3_def load64_loc)
  have nextp: "load64 m4 p = h"
    unfolding m4_def m3_def n(1) using q(1) r n sz by (simp add: load64_loc load64_loc16)
  have "chain m4 h fr = chain m h fr"
  proof (rule chain_cong)
    fix x assume "x \<in> set fr"
    then have free: "x \<in> set (free_bufs ?ss)" by auto
    obtain s k where "x = loc s k" "k + sz \<le> 4056" "s < 2 ^ 31" by (rule pool_free_bufE [OF ps free])
    then have "x \<noteq> loc q 4064" "x \<noteq> loc q 4080" using q(1) by (auto simp: loc_eq_iff)
    with free show "load64 m4 x = load64 m x" by (intro same) (auto simp: footprint_def)
  qed
  then have chain: "chain m4 (load64 m4 (loc q 4080)) (p # fr)"
    using sl p0 head nextp by (simp add: slab_inv_def h_def)
  have shape: "pool_shape c sz mx (pre @ (q, p # fr) # post)"
    using ps p unfolding pool_shape_def by auto
  have len: "length (p # fr) \<le> mx" using room by simp
  show "cache_inv (slab_push (loc c 0) (loc q 4056) p m) c sz mx (pre @ (q, p # fr) # post)"
    unfolding push by (rule cache_inv_replace [OF inv same cnt chain shape len])
  have "store16 (store64 m p h) (p + 8) v a = m a" if "\<not> unat (a - p) < 10" for a
  proof -
    have "unat (a - (p + 8)) = unat (a - p) - 8"
      using that unat_diff_le [of 8 "a - p"] by (simp add: word_le_nat_alt diff_diff_eq)
    then have "\<not> unat (a - (p + 8)) < 2" using that by simp
    then show ?thesis using that by (simp add: access_defs store_word_def)
  qed
  then have "pool_frame c ?ss {a. unat (a - p) < 10} m (store16 (store64 m p h) (p + 8) v)"
    by (simp add: pool_frame_def)
  then show "pool_frame c ?ss {a. unat (a - p) < 10} m (slab_push (loc c 0) (loc q 4056) p m)"
    unfolding push m4_def m3_def using q
    by (intro pool_frame_trans [OF _ pool_frame_trans [OF pool_frame_slab pool_frame_slab]]) auto
qed

section \<open>The abstract pool\<close>

text \<open>
  The pool as its client sees it: allocation takes the first buffer of the first slab that has a
  free one, release puts the buffer in front of the list of the first slab that has room.
\<close>

fun pool_alloc :: "(nat \<times> u64 list) list \<Rightarrow> (u64 \<times> (nat \<times> u64 list) list) option" where
  "pool_alloc [] = None"
| "pool_alloc ((q, p # fr) # ss) = Some (p, (q, fr) # ss)"
| "pool_alloc ((q, []) # ss) = map_option (\<lambda>(p, ss'). (p, (q, []) # ss')) (pool_alloc ss)"

fun pool_free :: "nat \<Rightarrow> u64 \<Rightarrow> (nat \<times> u64 list) list \<Rightarrow> (nat \<times> u64 list) list option" where
  "pool_free mx p [] = None"
| "pool_free mx p ((q, fr) # ss) =
     (if length fr < mx then Some ((q, p # fr) # ss) else map_option (\<lambda>ss'. (q, fr) # ss') (pool_free mx p ss))"

lemma pool_alloc_None_iff: "pool_alloc ss = None \<longleftrightarrow> free_bufs ss = []"
  by (induction ss rule: pool_alloc.induct) auto

lemma pool_alloc_SomeD:
  "pool_alloc ss = Some (p, ss') \<Longrightarrow> free_bufs ss = p # free_bufs ss' \<and> map fst ss' = map fst ss"
  by (induction ss arbitrary: p ss' rule: pool_alloc.induct) auto

lemma pool_free_SomeD:
  "pool_free mx p ss = Some ss' \<Longrightarrow>
   mset (free_bufs ss') = add_mset p (mset (free_bufs ss)) \<and> map fst ss' = map fst ss"
  by (induction mx p ss arbitrary: ss' rule: pool_free.induct) (auto split: if_splits)

lemma pool_free_None_iff: "pool_free mx p ss = None \<longleftrightarrow> (\<forall>x\<in>set ss. mx \<le> length (snd x))"
  by (induction mx p ss rule: pool_free.induct) auto

section \<open>The loops over the slabs\<close>

definition first_slab :: "(nat \<times> u64 list) list \<Rightarrow> u64" where
  "first_slab ss = (case ss of [] \<Rightarrow> 0 | x # _ \<Rightarrow> loc (fst x) 4056)"

lemma chain_append_ex: "chain m a (xs @ ys) \<Longrightarrow> \<exists>b. chain m b ys"
  by (induction xs arbitrary: a) auto

lemma cache_inv_next:
  assumes "cache_inv m c sz mx (pre @ (q, fr) # post)"
  shows "load64 m (loc q 4056) = first_slab post" "loc q 4056 \<noteq> 0"
proof -
  obtain b where "chain m b (map (\<lambda>x. loc (fst x) 4056) ((q, fr) # post))"
    using assms chain_append_ex by (fastforce simp: cache_inv_def)
  then show "load64 m (loc q 4056) = first_slab post" "loc q 4056 \<noteq> 0"
    by (cases post; auto simp: first_slab_def)+
qed

lemma cache_inv_head: "cache_inv m c sz mx ss \<Longrightarrow> load64 m (loc c 24) = first_slab ss"
  by (cases ss) (auto simp: cache_inv_def first_slab_def)

lemma first_slab_simps [simp]: "first_slab [] = 0" "first_slab ((q, fr) # ss) = loc q 4056"
  by (simp_all add: first_slab_def)

lemma slab_alloc_loop_spec:
  assumes "cache_inv (kmem s) c sz mx (pre @ rest)" "load64 (kmem s) (loc c 32) = first_slab rest"
    and "\<not> SLAB_AUTO_GROW flags" "c < 2 ^ 31"
  shows "case pool_alloc rest of
      Some (p, rest') \<Rightarrow> \<exists>m. slab_alloc_loop (loc c 0) flags s = Some (Inr (p, s\<lparr>kmem := m\<rparr>))
        \<and> cache_inv m c sz mx (pre @ rest') \<and> pool_frame c (pre @ rest) {} (kmem s) m
    | None \<Rightarrow> if SLAB_PANIC flags
        then slab_alloc_loop (loc c 0) flags s = Some (Inl (Panic ''Slab cache alloc: Couldn't find allocatable memory''))
        else \<exists>m. slab_alloc_loop (loc c 0) flags s = Some (Inr (0, s\<lparr>kmem := m\<rparr>))
          \<and> cache_inv m c sz mx (pre @ rest) \<and> pool_frame c (pre @ rest) {} (kmem s) m"
  using assms(1,2)
proof (induction rest arbitrary: s pre rule: pool_alloc.induct)
  case 1
  then show ?case using assms(3)
    by (auto simp: slab_alloc_loop.simps [of _ _ s] field_locs Let_def intro!: exI [of _ "kmem s"])
next
  case (2 q p fr ss)
  note inv = 2(1) and nx = cache_inv_next [OF 2(1)]
  note pop = slab_pop_inv [OF inv]
  have "p \<noteq> 0" using inv by (auto simp: cache_inv_def slab_inv_def)
  then have "slab_alloc_loop (loc c 0) flags s = Some (Inr (p, s\<lparr>kmem := slab_pop (loc q 4056) (kmem s)\<rparr>))"
    using 2(2) nx pop(3) by (subst slab_alloc_loop.simps) (simp add: field_locs Let_def)
  then show ?case using pop by (simp add: exI [of _ "slab_pop (loc q 4056) (kmem s)"])
next
  case (3 q ss)
  note inv = 3(2) and nx = cache_inv_next [OF 3(2)]
  define u where "u = s\<lparr>kmem := store64 (kmem s) (loc c 32) (first_slab ss)\<rparr>"
  have "load64 (kmem s) (loc q 4080) = 0" using inv by (auto simp: cache_inv_def slab_inv_def)
  then have step: "slab_alloc_loop (loc c 0) flags s = slab_alloc_loop (loc c 0) flags u"
    using 3(3) nx by (subst slab_alloc_loop.simps) (simp add: field_locs Let_def u_def)
  have "cache_inv (kmem u) c sz mx ((pre @ [(q, [])]) @ ss)" "load64 (kmem u) (loc c 32) = first_slab ss"
    using cache_inv_cursor [OF inv] by (simp_all add: u_def)
  note ih = 3(1) [OF this]
  have frame: "pool_frame c (pre @ (q, []) # ss) {} (kmem s) m"
    if "pool_frame c ((pre @ [(q, [])]) @ ss) {} (kmem u) m" for m
    by (rule pool_frame_trans [OF _ that [simplified]]) (use assms(4) in \<open>simp add: u_def pool_frame_cursor\<close>)
  have upd: "u\<lparr>kmem := m\<rparr> = s\<lparr>kmem := m\<rparr>" for m by (simp add: u_def)
  show ?case
  proof (cases "pool_alloc ss")
    case None
    show ?thesis
    proof (cases "SLAB_PANIC flags")
      case True
      with ih None show ?thesis by (simp add: step)
    next
      case calm: False
      then obtain m where m: "slab_alloc_loop (loc c 0) flags u = Some (Inr (0, u\<lparr>kmem := m\<rparr>))"
          "cache_inv m c sz mx ((pre @ [(q, [])]) @ ss)" "pool_frame c ((pre @ [(q, [])]) @ ss) {} (kmem u) m"
        using ih None by auto
      then show ?thesis using None calm frame [OF m(3)] by (simp add: step upd) (rule exI [of _ m], simp)
    qed
  next
    case (Some x)
    obtain p ss' where x: "x = (p, ss')" by (cases x)
    with Some obtain m where m: "slab_alloc_loop (loc c 0) flags u = Some (Inr (p, u\<lparr>kmem := m\<rparr>))"
        "cache_inv m c sz mx ((pre @ [(q, [])]) @ ss')" "pool_frame c ((pre @ [(q, [])]) @ ss) {} (kmem u) m"
      using ih by auto
    then show ?thesis using Some x frame [OF m(3)] by (simp add: step upd) (rule exI [of _ m], simp)
  qed
qed

lemma slab_free_loop_spec:
  assumes "cache_inv (kmem s) c sz mx (pre @ rest)" "load64 (kmem s) (loc c 32) = first_slab rest" "c < 2 ^ 31"
    and "p \<in> bufs sz r" "r \<in> fst ` set (pre @ rest)" "p \<notin> set (free_bufs (pre @ rest))"
  shows "case pool_free mx p rest of
      Some rest' \<Rightarrow> \<exists>m. slab_free_loop (loc c 0) p flags s = Some (Inr (s\<lparr>kmem := m\<rparr>))
        \<and> cache_inv m c sz mx (pre @ rest') \<and> pool_frame c (pre @ rest) {a. unat (a - p) < 10} (kmem s) m
    | None \<Rightarrow> if SLAB_PANIC flags
        then slab_free_loop (loc c 0) p flags s = Some (Inl (Panic ''Slab cache free: Couldn't find a slab for the to be freed pointer''))
        else \<exists>m. slab_free_loop (loc c 0) p flags s = Some (Inr (s\<lparr>kmem := m\<rparr>))
          \<and> cache_inv m c sz mx (pre @ rest) \<and> pool_frame c (pre @ rest) {a. unat (a - p) < 10} (kmem s) m"
  using assms(1,2,5,6,4)
proof (induction mx p rest arbitrary: s pre rule: pool_free.induct)
  case (1 mx p)
  then show ?case
    by (auto simp: slab_free_loop.simps [of _ _ _ s] field_locs Let_def intro!: exI [of _ "kmem s"])
next
  case (2 mx p q fr ss)
  note inv = 2(2) and nx = cache_inv_next [OF 2(2)]
  have sl: "slab_inv (kmem s) mx (q, fr)" and mx: "load64 (kmem s) (loc c 16) = of_nat mx" and "mx \<le> 4056 div sz" "16 \<le> sz"
    using inv by (auto simp: cache_inv_def pool_shape_def)
  have "mx \<le> 4056" using \<open>mx \<le> 4056 div sz\<close> div_le_dividend by (rule le_trans)
  then have cmp: "load64 (kmem s) (loc q 4064) < load64 (kmem s) (loc c 16) \<longleftrightarrow> length fr < mx"
    using sl mx by (simp add: slab_inv_def word_less_nat_alt unat_of_nat)
  show ?case
  proof (cases "length fr < mx")
    case True
    note push = slab_push_inv [OF inv True 2(6,4,5)]
    have "slab_free_loop (loc c 0) p flags s = Some (Inr (s\<lparr>kmem := slab_push (loc c 0) (loc q 4056) p (kmem s)\<rparr>))"
      using 2(3) nx cmp True by (subst slab_free_loop.simps) (simp add: field_locs Let_def)
    then show ?thesis using push True by (simp add: exI [of _ "slab_push (loc c 0) (loc q 4056) p (kmem s)"])
  next
    case False
    define u where "u = s\<lparr>kmem := store64 (kmem s) (loc c 32) (first_slab ss)\<rparr>"
    have step: "slab_free_loop (loc c 0) p flags s = slab_free_loop (loc c 0) p flags u"
      using 2(3) nx False cmp by (subst slab_free_loop.simps) (simp add: field_locs Let_def u_def)
    have "cache_inv (kmem u) c sz mx ((pre @ [(q, fr)]) @ ss)" "load64 (kmem u) (loc c 32) = first_slab ss"
      using cache_inv_cursor [OF inv] by (simp_all add: u_def)
    moreover have "r \<in> fst ` set ((pre @ [(q, fr)]) @ ss)" "p \<notin> set (free_bufs ((pre @ [(q, fr)]) @ ss))"
      using 2(4,5) by simp_all
    ultimately have ih: "case pool_free mx p ss of
      Some ss' \<Rightarrow> \<exists>m. slab_free_loop (loc c 0) p flags u = Some (Inr (u\<lparr>kmem := m\<rparr>))
        \<and> cache_inv m c sz mx ((pre @ [(q, fr)]) @ ss') \<and> pool_frame c ((pre @ [(q, fr)]) @ ss) {a. unat (a - p) < 10} (kmem u) m
    | None \<Rightarrow> if SLAB_PANIC flags
        then slab_free_loop (loc c 0) p flags u = Some (Inl (Panic ''Slab cache free: Couldn't find a slab for the to be freed pointer''))
        else \<exists>m. slab_free_loop (loc c 0) p flags u = Some (Inr (u\<lparr>kmem := m\<rparr>))
          \<and> cache_inv m c sz mx ((pre @ [(q, fr)]) @ ss) \<and> pool_frame c ((pre @ [(q, fr)]) @ ss) {a. unat (a - p) < 10} (kmem u) m"
      using 2(6) by (intro 2(1) [OF False])
    have frame: "pool_frame c (pre @ (q, fr) # ss) {a. unat (a - p) < 10} (kmem s) m"
      if "pool_frame c ((pre @ [(q, fr)]) @ ss) {a. unat (a - p) < 10} (kmem u) m" for m
      by (rule pool_frame_trans [OF _ that [simplified]]) (use assms(3) in \<open>simp add: u_def pool_frame_cursor\<close>)
    have upd: "u\<lparr>kmem := m\<rparr> = s\<lparr>kmem := m\<rparr>" for m by (simp add: u_def)
    show ?thesis
    proof (cases "pool_free mx p ss")
      case None
      show ?thesis
      proof (cases "SLAB_PANIC flags")
        case True
        with ih None False show ?thesis by (simp add: step)
      next
        case calm: False
        then obtain m where m: "slab_free_loop (loc c 0) p flags u = Some (Inr (u\<lparr>kmem := m\<rparr>))"
            "cache_inv m c sz mx ((pre @ [(q, fr)]) @ ss)" "pool_frame c ((pre @ [(q, fr)]) @ ss) {a. unat (a - p) < 10} (kmem u) m"
          using ih None by auto
        then show ?thesis using None False calm frame [OF m(3)] by (simp add: step upd) (rule exI [of _ m], simp)
      qed
    next
      case (Some ss')
      then obtain m where m: "slab_free_loop (loc c 0) p flags u = Some (Inr (u\<lparr>kmem := m\<rparr>))"
          "cache_inv m c sz mx ((pre @ [(q, fr)]) @ ss')" "pool_frame c ((pre @ [(q, fr)]) @ ss) {a. unat (a - p) < 10} (kmem u) m"
        using ih by auto
      then show ?thesis using Some False frame [OF m(3)] by (simp add: step upd) (rule exI [of _ m], simp)
    qed
  qed
qed

section \<open>Filling a fresh slab\<close>

lemma chain_link:
  "chain m a xs \<Longrightarrow> xs \<noteq> [] \<Longrightarrow> (\<And>x. x \<in> set (butlast xs) \<Longrightarrow> load64 m' x = load64 m x) \<Longrightarrow>
   load64 m' (last xs) = y \<Longrightarrow> y \<noteq> 0 \<Longrightarrow> load64 m' y = 0 \<Longrightarrow> chain m' a (xs @ [y])"
proof (induction xs arbitrary: a)
  case Nil
  then show ?case by simp
next
  case (Cons x xs)
  show ?case
  proof (cases "xs = []")
    case True
    with Cons.prems show ?thesis by simp
  next
    case False
    have "chain m' (load64 m x) (xs @ [y])"
      using False Cons.prems by (intro Cons.IH) auto
    moreover have "load64 m' x = load64 m x" using False Cons.prems(3) by simp
    ultimately show ?thesis using Cons.prems by simp
  qed
qed

text \<open>
  The state of the filling loop of \<open>slab_cache_grow\<close> before round \<open>j\<close>: buffers \<open>j0\<close> up to \<open>j\<close> are
  on the list (\<open>j0\<close> is 1 when page-aligned buffers are skipped), the later ones are untouched.
\<close>

definition fill_inv :: "memory \<Rightarrow> nat \<Rightarrow> nat \<Rightarrow> nat \<Rightarrow> nat \<Rightarrow> nat \<Rightarrow> bool" where
  "fill_inv m c q sz j0 j \<longleftrightarrow>
     (let N = 4056 div sz; L = map (\<lambda>k. loc q (k * sz)) [j0..<j]; n = N - (if 0 < j then j0 else 0) in
      load64 m (loc c 8) = of_nat sz \<and> load64 m (loc c 16) = of_nat n
      \<and> load64 m (loc c 24) = loc q 4056 \<and> load64 m (loc c 32) = loc q 4056
      \<and> load64 m (loc q 4056) = 0 \<and> load64 m (loc q 4064) = of_nat n \<and> load64 m (loc q 4072) = loc q 0
      \<and> load64 m (loc q 4088) = (if L = [] then 0 else last L) \<and> chain m (load64 m (loc q 4080)) L
      \<and> (\<forall>k<N. j \<le> k \<longrightarrow> load64 m (loc q (k * sz)) = 0))"

lemma buf_offsets:
  fixes k sz j :: nat
  assumes "k < 4056 div sz" "16 \<le> sz"
  shows "k * sz + 16 \<le> 4056" "j < 4056 div sz \<Longrightarrow> j \<noteq> k \<Longrightarrow> k * sz + 16 \<le> j * sz \<or> j * sz + 16 \<le> k * sz"
proof -
  have "(k + 1) * sz \<le> 4056 div sz * sz" using assms(1) by (intro mult_le_mono1) simp
  also have "\<dots> \<le> 4056" by (rule div_times_less_eq_dividend)
  finally show "k * sz + 16 \<le> 4056" using assms(2) by simp
  assume "j < 4056 div sz" "j \<noteq> k"
  then have "k + 1 \<le> j \<or> j + 1 \<le> k" by linarith
  then have "(k + 1) * sz \<le> j * sz \<or> (j + 1) * sz \<le> k * sz" by (meson mult_le_mono1)
  then show "k * sz + 16 \<le> j * sz \<or> j * sz + 16 \<le> k * sz" using assms(2) by auto
qed

lemma loc_page_aligned:
  assumes "q < 2 ^ 31" "n < 4096"
  shows "loc q n AND 0xFFF = 0 \<longleftrightarrow> n = 0"
proof -
  have "(0xFFF :: u64) = mask 12" by (simp add: mask_eq_exp_minus_1)
  then have "loc q n AND 0xFFF = take_bit 12 (loc q n)" by (simp only: take_bit_eq_mask)
  then have "unat (loc q n AND 0xFFF) = unat (loc q n) mod 4096"
    by (simp only: unsigned_take_bit_eq) (simp add: take_bit_eq_mod)
  also have "\<dots> = n" using assms by (simp add: unat_loc)
  finally show ?thesis by (metis unat_eq_zero)
qed

lemma slab_fill_skip:
  assumes inv: "fill_inv m c q sz j0 j" and j: "j < 4056 div sz" and sz: "16 \<le> sz" "sz \<le> 512"
    and pg: "0 < q" "q < 2 ^ 31" "c < 2 ^ 31" "q \<noteq> c" and skip: "j0 = 1" "j = 0"
    and m2: "m2 = store64 m (loc q 4064) (load64 m (loc q 4064) - 1)"
  shows "fill_inv (store64 m2 (loc c 16) (load64 m2 (loc c 16) - 1)) c q sz j0 (Suc j)"
proof -
  have "load64 (store64 m2 (loc c 16) w) (loc q (k * sz)) = load64 m (loc q (k * sz))" if "k < 4056 div sz" for k w
    using pg buf_offsets(1) [OF that sz(1)] by (simp add: m2 load64_loc)
  moreover have "1 \<le> 4056 div sz" using j by simp
  ultimately show ?thesis
    using inv pg skip unfolding fill_inv_def Let_def m2 by (simp add: load64_loc of_nat_diff)
qed

lemma slab_fill_first:
  assumes inv: "fill_inv m c q sz j0 j" and j: "j < 4056 div sz" and sz: "16 \<le> sz" "sz \<le> 512"
    and pg: "0 < q" "q < 2 ^ 31" "c < 2 ^ 31" "q \<noteq> c" and ne: "\<not> (j0 = 1 \<and> j = 0)" "j0 \<le> 1"
    and empty: "load64 m (loc q 4088) = 0"
  shows "fill_inv (store64 (store64 m (loc q 4080) (loc q (j * sz))) (loc q 4088) (loc q (j * sz))) c q sz j0 (Suc j)"
    (is "fill_inv ?m c q sz j0 (Suc j)")
proof -
  have nz: "loc q (k * sz) \<noteq> 0" if "k < 4056 div sz" for k
    using pg buf_offsets(1) [OF that sz(1)] by (intro loc_nonzero) auto
  have "[j0..<j] = []"
  proof (rule ccontr)
    assume "[j0..<j] \<noteq> []"
    then have "load64 m (loc q 4088) = loc q ((j - 1) * sz)" using inv by (simp add: fill_inv_def Let_def last_map)
    moreover have "j - 1 < 4056 div sz" using j by linarith
    ultimately show False using empty nz by metis
  qed
  then have jj: "j = j0" using ne by (auto simp: upt_eq_Nil_conv)
  have "load64 ?m (loc q (k * sz)) = load64 m (loc q (k * sz))" if "k < 4056 div sz" for k
    using pg buf_offsets(1) [OF that sz(1)] by (simp add: load64_loc)
  moreover have "(if 0 < Suc j then j0 else 0) = (if 0 < j then j0 else 0)" using jj ne by auto
  ultimately show ?thesis
    using inv pg j nz [OF j] jj unfolding fill_inv_def Let_def by (simp add: load64_loc)
qed

lemma slab_fill_link:
  assumes inv: "fill_inv m c q sz j0 j" and j: "j < 4056 div sz" and sz: "16 \<le> sz" "sz \<le> 512"
    and pg: "0 < q" "q < 2 ^ 31" "c < 2 ^ 31" "q \<noteq> c" and ne: "\<not> (j0 = 1 \<and> j = 0)" "j0 \<le> 1"
    and nonempty: "load64 m (loc q 4088) \<noteq> 0" and m2: "m2 = store64 m (load64 m (loc q 4088)) (loc q (j * sz))"
  shows "fill_inv (store64 m2 (loc q 4088) (load64 m2 (load64 m2 (loc q 4088)))) c q sz j0 (Suc j)"
    (is "fill_inv ?m c q sz j0 (Suc j)")
proof -
  let ?L = "map (\<lambda>k. loc q (k * sz)) [j0..<j]"
  have L: "?L \<noteq> []" using nonempty inv by (auto simp: fill_inv_def Let_def split: if_splits)
  then have lt: "j0 < j" by auto
  have last: "last ?L = loc q ((j - 1) * sz)" using lt by (simp add: last_map)
  then have cur: "load64 m (loc q 4088) = loc q ((j - 1) * sz)"
    using inv L unfolding fill_inv_def Let_def by (simp only: if_False)
  have j1: "j - 1 < 4056 div sz" using j by simp
  note o1 = buf_offsets [OF j1 sz(1)] and oj = buf_offsets [OF j sz(1)]
  have m': "?m = store64 (store64 m (loc q ((j - 1) * sz)) (loc q (j * sz))) (loc q 4088) (loc q (j * sz))"
    unfolding m2 cur using pg o1(1) by (simp add: load64_loc cur)
  have nz: "loc q (j * sz) \<noteq> 0" using pg oj(1) by (intro loc_nonzero) auto
  have other: "load64 ?m (loc q (k * sz)) = load64 m (loc q (k * sz))" if k: "k < 4056 div sz" "k \<noteq> j - 1" for k
  proof -
    note ok = buf_offsets(1) [OF k(1) sz(1)]
    have "k * sz + 16 \<le> (j - 1) * sz \<or> (j - 1) * sz + 16 \<le> k * sz" using o1(2) [OF k] by blast
    then have "k * sz + 8 \<le> (j - 1) * sz \<or> (j - 1) * sz + 8 \<le> k * sz" by linarith
    then have "load64 (store64 m (loc q ((j - 1) * sz)) (loc q (j * sz))) (loc q (k * sz)) = load64 m (loc q (k * sz))"
      using pg ok o1(1) by (intro load64_loc) (simp_all del: mult_le_cancel2)
    then show ?thesis unfolding m' using pg ok by (simp add: load64_loc)
  qed
  have slab: "load64 ?m (loc q k) = load64 m (loc q k)" if "k \<in> {4056, 4064, 4072, 4080}" for k
    unfolding m' using that pg o1(1) by (auto simp: load64_loc)
  have cache: "load64 ?m (loc c k) = load64 m (loc c k)" if "k + 8 \<le> 4096" for k
    unfolding m' using that pg o1(1) by (simp add: load64_loc)
  have "load64 ?m (loc q 4088) = loc q (j * sz)" unfolding m' by simp
  moreover have "chain ?m (load64 m (loc q 4080)) (?L @ [loc q (j * sz)])"
  proof (rule chain_link [OF _ L])
    show "chain m (load64 m (loc q 4080)) ?L" using inv by (simp add: fill_inv_def Let_def)
    show "load64 ?m (last ?L) = loc q (j * sz)" unfolding last m' using pg o1(1) by (simp add: load64_loc)
    show "load64 ?m (loc q (j * sz)) = 0" using other [OF j] lt inv j by (simp add: fill_inv_def Let_def)
    have "butlast [j0..<j] = [j0..<j - 1]" using lt by (cases j) auto
    then show "load64 ?m x = load64 m x" if "x \<in> set (butlast ?L)" for x
      using that j by (auto simp: map_butlast [symmetric] intro!: other)
  qed (rule nz)
  moreover have "map (\<lambda>k. loc q (k * sz)) [j0..<Suc j] = ?L @ [loc q (j * sz)]" using lt by simp
  ultimately show ?thesis
    using inv lt j slab cache other unfolding fill_inv_def Let_def by simp
qed

text \<open>Memory that changes in the pages of \<open>P\<close> only.\<close>

definition off_pages :: "nat set \<Rightarrow> memory \<Rightarrow> memory \<Rightarrow> bool" where
  "off_pages P m m' \<longleftrightarrow> (\<forall>a. unat a div 4096 \<notin> P \<longrightarrow> m' a = m a)"

lemma off_pages_refl [simp]: "off_pages P m m"
  by (simp add: off_pages_def)

lemma off_pages_trans: "off_pages P m m' \<Longrightarrow> off_pages P m' m'' \<Longrightarrow> off_pages P m m''"
  by (simp add: off_pages_def)

lemma off_pages_mono: "off_pages P m m' \<Longrightarrow> P \<subseteq> Q \<Longrightarrow> off_pages Q m m'"
  by (auto simp: off_pages_def)

lemma off_pages_store64:
  "off_pages P m0 m \<Longrightarrow> q \<in> P \<Longrightarrow> q < 2 ^ 31 \<Longrightarrow> n + 8 \<le> 4096 \<Longrightarrow> off_pages P m0 (store64 m (loc q n) w)"
  by (auto simp: off_pages_def intro!: trans [OF store64_loc_outside])

lemma store16_loc_outside:
  assumes "q < 2 ^ 31" "n + 2 \<le> 4096" "unat a div 4096 \<noteq> q"
  shows "store16 m (loc q n) w a = m a"
proof -
  define k where "k = unat (a - loc q n)"
  have "\<not> k < 2"
  proof
    assume "k < 2"
    moreover have "a = loc q (n + k)" by (simp add: k_def loc_def)
    ultimately have "unat a = q * 4096 + (n + k)" using assms(1,2) by (simp add: unat_loc)
    with \<open>k < 2\<close> assms(2,3) show False by simp
  qed
  then show ?thesis by (simp add: k_def access_defs store_word_def)
qed

lemma off_pages_store16:
  "off_pages P m0 m \<Longrightarrow> q \<in> P \<Longrightarrow> q < 2 ^ 31 \<Longrightarrow> n + 2 \<le> 4096 \<Longrightarrow> off_pages P m0 (store16 m (loc q n) w)"
  by (auto simp: off_pages_def intro!: trans [OF store16_loc_outside])

lemma off_pages_clear:
  assumes "off_pages P m0 m" "q \<in> P" "q < 2 ^ 31"
  shows "off_pages P m0 (memset m (page_addr q) 0 4096)"
  unfolding off_pages_def
proof (intro allI impI)
  fix a :: u64 assume a: "unat a div 4096 \<notin> P"
  have "\<not> unat (a - page_addr q) < 4096"
  proof
    assume lt: "unat (a - page_addr q) < 4096"
    have "a = loc q (unat (a - page_addr q))" by (simp add: loc_def page_addr_def)
    then have "unat a = q * 4096 + unat (a - page_addr q)" using unat_loc [OF assms(3) lt] by simp
    then have "unat a div 4096 = q" using lt by simp
    with a assms(2) show False by simp
  qed
  then show "memset m (page_addr q) 0 4096 a = m0 a" using assms(1) a by (simp add: memset_closed off_pages_def)
qed

lemmas off_pages_intros = off_pages_store64 off_pages_store16 off_pages_clear

lemma slab_fill_step:
  assumes inv: "fill_inv m c q sz j0 j" and j: "j < 4056 div sz" and sz: "16 \<le> sz" "sz \<le> 512"
    and pg: "0 < q" "q < 2 ^ 31" "c < 2 ^ 31" "q \<noteq> c" and j0: "j0 = (if SLAB_NO_ALIGN flags then 1 else 0)"
  shows "fill_inv (slab_init_bufctls (loc c 0) (loc q 0) (of_nat j) flags m) c q sz j0 (Suc j)"
    and "off_pages {c, q} m (slab_init_bufctls (loc c 0) (loc q 0) (of_nat j) flags m)"
proof -
  let ?N = "4056 div sz" and ?L = "map (\<lambda>k. loc q (k * sz)) [j0..<j]"
  define b where "b = loc q (j * sz)"
  note off = buf_offsets(1) [OF j sz(1)]
  have new: "loc q 0 + of_nat sz * of_nat j = b" by (simp add: b_def loc_def mult.commute)
  define m1 where "m1 = store16 m (loc q (j * sz + 8)) (ucast (of_nat j :: u64))"
  have idx: "set_bufctl_index b v m = store16 m (loc q (j * sz + 8)) v" for v
    by (simp add: set_bufctl_index_def b_def)
  have keep_c: "load64 m1 (loc c k) = load64 m (loc c k)" if "k + 8 \<le> 4096" for k
    unfolding m1_def using that pg off by (intro load64_loc16) auto
  have keep_s: "load64 m1 (loc q k) = load64 m (loc q k)" if "4056 \<le> k" "k + 8 \<le> 4096" for k
    unfolding m1_def using that pg off by (intro load64_loc16) auto
  have keep_b: "load64 m1 (loc q (k * sz)) = load64 m (loc q (k * sz))" if "k < ?N" for k
  proof (cases "k = j")
    case True
    then show ?thesis unfolding m1_def using pg off by (intro load64_loc16) auto
  next
    case False
    then have "k * sz + 16 \<le> j * sz \<or> j * sz + 16 \<le> k * sz" using buf_offsets(2) [OF that sz(1) j] by simp
    then have "k * sz + 8 \<le> j * sz + 8 \<or> j * sz + 8 + 2 \<le> k * sz" by linarith
    then show ?thesis unfolding m1_def using pg off buf_offsets(1) [OF that sz(1)]
      by (intro load64_loc16) (simp_all del: mult_le_cancel2 add_le_cancel_right)
  qed
  have inv1: "fill_inv m1 c q sz j0 j"
  proof -
    have "chain m1 a ?L = chain m a ?L" for a using j by (intro chain_cong) (auto simp: keep_b)
    then show ?thesis using inv by (simp add: fill_inv_def Let_def keep_c keep_s keep_b)
  qed
  have size: "load64 m (loc c 8) = of_nat sz" using inv by (simp add: fill_inv_def Let_def)
  have cur: "load64 m1 (loc c 32) = loc q 4056" using inv1 by (simp add: fill_inv_def Let_def)
  have core: "slab_init_bufctls (loc c 0) (loc q 0) (of_nat j) flags m =
      (if SLAB_NO_ALIGN flags \<and> b AND 0xFFF = 0
       then let m2 = store64 m1 (loc q 4064) (load64 m1 (loc q 4064) - 1) in store64 m2 (loc c 16) (load64 m2 (loc c 16) - 1)
       else if load64 m1 (loc q 4088) = 0 then store64 (store64 m1 (loc q 4080) b) (loc q 4088) b
       else let m2 = store64 m1 (load64 m1 (loc q 4088)) b in store64 m2 (loc q 4088) (load64 m2 (load64 m2 (loc q 4088))))"
    unfolding slab_init_bufctls_def cache_fields_loc size new idx m1_def [symmetric] Let_def cur slab_fields_loc
      bufctl_next_def set_bufctl_next_def ..
  have aligned: "SLAB_NO_ALIGN flags \<and> b AND 0xFFF = 0 \<longleftrightarrow> j0 = 1 \<and> j = 0"
    using j0 pg off sz(1) loc_page_aligned [of q "j * sz"] by (auto simp: b_def)
  show "fill_inv (slab_init_bufctls (loc c 0) (loc q 0) (of_nat j) flags m) c q sz j0 (Suc j)"
    unfolding core aligned
    using slab_fill_skip [OF inv1 j sz pg] slab_fill_first [OF inv1 j sz pg] slab_fill_link [OF inv1 j sz pg] j0
    by (auto simp: b_def Let_def)
  have last: "load64 m1 (loc q 4088) = loc q ((j - 1) * sz)" if "load64 m1 (loc q 4088) \<noteq> 0"
    using that inv1 by (auto simp: fill_inv_def Let_def last_map split: if_splits)
  have j1: "j - 1 < ?N" using j by linarith
  have "off_pages {c, q} m m1" unfolding m1_def using off pg by (intro off_pages_store16) simp_all
  then show "off_pages {c, q} m (slab_init_bufctls (loc c 0) (loc q 0) (of_nat j) flags m)"
    unfolding core Let_def using pg last buf_offsets(1) [OF j1 sz(1)]
    by (auto intro!: off_pages_store64)
qed

lemma slab_fill_loop:
  assumes inv: "fill_inv m c q sz j0 0" and sz: "16 \<le> sz" "sz \<le> 512"
    and pg: "0 < q" "q < 2 ^ 31" "c < 2 ^ 31" "q \<noteq> c" and j0: "j0 = (if SLAB_NO_ALIGN flags then 1 else 0)"
    and n: "n \<le> 4056 div sz"
  shows "fill_inv (fold (\<lambda>j. slab_init_bufctls (loc c 0) (loc q 0) (of_nat j) flags) [0..<n] m) c q sz j0 n
    \<and> off_pages {c, q} m (fold (\<lambda>j. slab_init_bufctls (loc c 0) (loc q 0) (of_nat j) flags) [0..<n] m)"
  using n
proof (induction n)
  case 0
  then show ?case using inv by simp
next
  case (Suc n)
  then have lt: "n < 4056 div sz" and ih: "fill_inv (fold (\<lambda>j. slab_init_bufctls (loc c 0) (loc q 0) (of_nat j) flags) [0..<n] m) c q sz j0 n"
      "off_pages {c, q} m (fold (\<lambda>j. slab_init_bufctls (loc c 0) (loc q 0) (of_nat j) flags) [0..<n] m)" by auto
  show ?case using slab_fill_step [OF ih(1) lt sz pg j0] off_pages_trans [OF ih(2)] by simp
qed

text \<open>A filled slab is a pool of one slab whose free buffers are all its buffers.\<close>

lemma fill_inv_cache_inv:
  assumes inv: "fill_inv m c q sz j0 (4056 div sz)" and sz: "16 \<le> sz" "sz \<le> 512" and j0: "j0 \<le> 1"
    and pg: "0 < q" "q < 2 ^ 31" "0 < c" "c < 2 ^ 31" "q \<noteq> c"
  shows "cache_inv m c sz (4056 div sz - j0) [(q, map (\<lambda>k. loc q (k * sz)) [j0..<4056 div sz])]"
proof -
  let ?L = "map (\<lambda>k. loc q (k * sz)) [j0..<4056 div sz]"
  have N: "0 < 4056 div sz" using sz by (simp add: div_greater_zero_iff)
  have "inj_on (\<lambda>k. loc q (k * sz)) {j0..<4056 div sz}"
  proof (rule inj_onI)
    fix x y assume a: "x \<in> {j0..<4056 div sz}" "y \<in> {j0..<4056 div sz}" "loc q (x * sz) = loc q (y * sz)"
    then have "x * sz = y * sz"
      using pg buf_offsets(1) [of x sz] buf_offsets(1) [of y sz] sz(1) by (auto simp: loc_eq_iff)
    then show "x = y" using sz(1) by simp
  qed
  then have "distinct ?L" by (simp add: distinct_map)
  moreover have "set ?L \<subseteq> bufs sz q" by (auto simp: bufs_def)
  ultimately have "pool_shape c sz (4056 div sz - j0) [(q, ?L)]"
    using sz pg by (auto simp: pool_shape_def)
  moreover have "slab_inv m (4056 div sz - j0) (q, ?L)"
    using inv N by (simp add: fill_inv_def Let_def slab_inv_def)
  moreover have "loc q 4056 \<noteq> 0" using pg by (intro loc_nonzero) auto
  ultimately show ?thesis
    using inv N by (simp add: cache_inv_def fill_inv_def Let_def)
qed

lemma load64_cleared_page:
  assumes "q < 2 ^ 31" "p < 2 ^ 31" "n + 8 \<le> 4096"
  shows "load64 (memset m (page_addr q) 0 4096) (loc p n) = (if p = q then 0 else load64 m (loc p n))"
proof -
  have pq: "unat (page_addr q) = q * 4096" using assms(1) by (intro unat_page_addr) simp
  show ?thesis
  proof (cases "p = q")
    case True
    have "page_addr q \<le> loc q n" using assms by (simp add: word_le_nat_alt pq unat_loc)
    then have "unat (loc q n - page_addr q) + 8 \<le> unat (4096 :: u64)"
      using assms by (simp add: unat_diff_le pq unat_loc)
    from memset_inside_zero [OF this] True show ?thesis by (simp add: access_defs)
  next
    case False
    then have "separate (loc p n) 8 (loc q 0) (unat (4096 :: u64))"
      using assms by (intro loc_separate) auto
    from memset_outside [OF this] False show ?thesis by (simp add: access_defs page_addr_loc)
  qed
qed

lemma pmm_allocz_rest:
  "pmm_allocz s n = Inr (p, t) \<Longrightarrow> t = s\<lparr>kmem := kmem t, pmm_bitmap := pmm_bitmap t, used_pages_count := used_pages_count t\<rparr>"
  by (auto simp: pmm_allocz_def pmm_alloc_def Let_def rbind_eq_Inr split: if_splits)

text \<open>Growing a cache without slabs: one page, carved up completely.\<close>

lemma slab_grow_empty:
  assumes wf: "pmm_wf s" and ne: "pmm_free_pages s \<noteq> {}" and c: "0 < c" "c < 2 ^ 31" "c \<notin> pmm_free_pages s"
    and sz: "16 \<le> sz" "sz \<le> 512" and j0: "j0 = (if SLAB_NO_ALIGN flags then 1 else 0)"
    and fields: "load64 (kmem s) (loc c 8) = of_nat sz" "load64 (kmem s) (loc c 16) = of_nat (4056 div sz)"
      "load64 (kmem s) (loc c 24) = 0"
  shows "\<exists>q t. q \<in> pmm_free_pages s \<and> slab_cache_grow s (loc c 0) 1 flags = Inr t \<and> pmm_wf t
    \<and> pmm_pages t = pmm_pages s \<and> pmm_free_pages t = pmm_free_pages s - {q}
    \<and> cache_inv (kmem t) c sz (4056 div sz - j0) [(q, map (\<lambda>k. loc q (k * sz)) [j0..<4056 div sz])]
    \<and> off_pages {c, q} (kmem s) (kmem t) \<and> t = s\<lparr>kmem := kmem t, pmm_bitmap := pmm_bitmap t, used_pages_count := used_pages_count t\<rparr>"
proof -
  let ?N = "4056 div sz"
  define s0 where "s0 = upd_mem (\<lambda>m. store64 m (loc c 32) 0) s"
  have wf0: "pmm_wf s0" "pmm_free_pages s0 \<noteq> {}" using wf ne by (simp_all add: s0_def)
  obtain q u where q: "q \<in> pmm_free_pages s0" "pmm_allocz s0 1 = Inr (page_addr q, u)"
    and u: "pmm_wf u" "pmm_pages u = pmm_pages s0" "pmm_free_pages u = pmm_free_pages s0 - {q}"
      "kmem u = memset (kmem s0) (page_addr q) 0 4096"
    using pg.allocz1_some [OF wf0] by blast
  have pg: "0 < q" "q < 2 ^ 31" "q \<noteq> c"
    using pg.avail_page [OF wf0(1) q(1)] wf q(1) c(3) by (auto simp: s0_def pmm_wf_def pmm_inv_def)
  have q0: "page_addr q \<noteq> 0" using loc_nonzero [of q 0] pg by (simp add: page_addr_loc)
  define mb where "mb = store64 (kmem u) (loc q 0) 0"
  have buf: "slab_create_bufctl_buffer s0 = Inr (loc q 0, u\<lparr>kmem := mb\<rparr>)"
    using q(2) q0 by (simp add: slab_create_bufctl_buffer_def set_bufctl_next_def mb_def page_addr_loc)
  have mbl: "load64 mb (loc c k) = load64 (kmem s0) (loc c k)" if "k + 8 \<le> 4096" for k
    using that pg c by (simp add: mb_def load64_loc u(4) load64_cleared_page)
  have mbz: "load64 mb (loc q k) = 0" if "k = 0 \<or> 8 \<le> k" "k + 8 \<le> 4096" for k
    using that pg c by (auto simp: mb_def load64_loc u(4) load64_cleared_page)
  have slab: "loc q 4096 - sizeof_slab_t = loc q 4056"
    by (simp add: sizeof_slab_t_def loc_def)
  define mc where "mc = slab_create_slab (loc c 0) (loc q 0) mb"
  have c0: "load64 mb (loc c 8) = of_nat sz" "load64 mb (loc c 16) = of_nat ?N" "load64 mb (loc c 32) = 0"
    using mbl fields c by (simp_all add: s0_def load64_loc)
  have mc: "mc = store64 (store64 (store64 (store64 (store64 (store64 (store64 mb (loc q 4056) 0) (loc q 4064) (of_nat ?N))
      (loc q 4072) (loc q 0)) (loc q 4080) 0) (loc q 4088) 0) (loc c 24) (loc q 4056)) (loc c 32) (loc q 4056)"
    using c0 pg c by (simp add: mc_def slab_create_slab_def Let_def slab field_locs load64_loc)
  have "load64 mc (loc q (k * sz)) = 0" if "k < ?N" for k
    using mbz [of "k * sz"] buf_offsets(1) [OF that sz(1)] pg c sz(1) by (cases k) (auto simp: mc load64_loc)
  then have fill: "fill_inv mc c q sz j0 0"
    using c0 pg c by (simp add: fill_inv_def Let_def mc load64_loc)
  define mf where "mf = fold (\<lambda>j. slab_init_bufctls (loc c 0) (loc q 0) (of_nat j) flags) [0..<?N] mc"
  have "?N < 2 ^ 64" by (rule le_less_trans [OF div_le_dividend]) simp
  then have "unat (of_nat ?N :: u64) = ?N" using unat_add_of_nat [of "0 :: u64" ?N] by simp
  moreover have "cache_bufctl_count_max mc (loc c 0) = of_nat ?N" using fill by (simp add: fill_inv_def Let_def field_locs)
  moreover have "loc c 0 \<noteq> 0" "loc q 0 \<noteq> 0" using loc_nonzero c pg by auto
  ultimately have grow: "slab_cache_grow s (loc c 0) 1 flags = Inr (u\<lparr>kmem := mf\<rparr>)"
    using fields(3) buf by (simp add: slab_cache_grow_def field_locs s0_def [symmetric] mc_def [symmetric] mf_def)
  have ff: "fill_inv mf c q sz j0 ?N" "off_pages {c, q} mc mf"
    unfolding mf_def using slab_fill_loop [OF fill sz pg(1,2) c(2) pg(3) j0, of ?N] by simp_all
  have "off_pages {c, q} (kmem s) mc"
    unfolding mc mb_def u(4) s0_def using pg c by (auto intro!: off_pages_intros)
  then have frame: "off_pages {c, q} (kmem s) mf" using ff(2) by (rule off_pages_trans)
  have rest: "u = s0\<lparr>kmem := kmem u, pmm_bitmap := pmm_bitmap u, used_pages_count := used_pages_count u\<rparr>"
    by (rule pmm_allocz_rest [OF q(2)])
  from ff(1) have "cache_inv mf c sz (?N - j0) [(q, map (\<lambda>k. loc q (k * sz)) [j0..<?N])]"
    using sz pg c j0 by (intro fill_inv_cache_inv) auto
  then have ok: "q \<in> pmm_free_pages s \<and> slab_cache_grow s (loc c 0) 1 flags = Inr (u\<lparr>kmem := mf\<rparr>) \<and> pmm_wf (u\<lparr>kmem := mf\<rparr>)
      \<and> pmm_pages (u\<lparr>kmem := mf\<rparr>) = pmm_pages s \<and> pmm_free_pages (u\<lparr>kmem := mf\<rparr>) = pmm_free_pages s - {q}
      \<and> cache_inv (kmem (u\<lparr>kmem := mf\<rparr>)) c sz (?N - j0) [(q, map (\<lambda>k. loc q (k * sz)) [j0..<?N])]
      \<and> off_pages {c, q} (kmem s) (kmem (u\<lparr>kmem := mf\<rparr>))"
    using grow u q(1) frame by (simp add: s0_def)
  have "u\<lparr>kmem := mf\<rparr> = s\<lparr>kmem := kmem (u\<lparr>kmem := mf\<rparr>), pmm_bitmap := pmm_bitmap (u\<lparr>kmem := mf\<rparr>),
      used_pages_count := used_pages_count (u\<lparr>kmem := mf\<rparr>)\<rparr>"
    by (subst rest) (simp add: s0_def)
  with ok show ?thesis by blast
qed

section \<open>Powers of two\<close>

lemma is_power_of_two_iff: "is_power_of_two n \<longleftrightarrow> (\<exists>k. n = 2 ^ k)"
proof
  assume n: "is_power_of_two n"
  then have pos: "0 < n" and z: "n AND (n - 1) = 0" by (auto simp: is_power_of_two_def)
  show "\<exists>k. n = 2 ^ k"
    using pos z
  proof (induction "nat n" arbitrary: n rule: less_induct)
    case less
    show ?case
    proof (cases "even n")
      case True
      then obtain h where h: "n = 2 * h" by blast
      have "h AND (h - 1) = 0"
      proof (rule bit_eqI)
        fix i
        have "\<not> (bit n (Suc i) \<and> bit (n - 1) (Suc i))"
          using less.prems(2) bit_and_iff [of n "n - 1" "Suc i"] by simp
        moreover have "(2 * h - 1) div 2 = h - 1" by simp
        ultimately show "bit (h AND (h - 1)) i = bit 0 i"
          by (simp add: h bit_and_iff bit_Suc)
      qed
      moreover have "0 < h" "nat h < nat n" using less.prems(1) h by auto
      ultimately obtain k where "h = 2 ^ k" using less.hyps by blast
      then show ?thesis using h by (intro exI [of _ "Suc k"]) simp
    next
      case False
      then obtain h where h: "n = 2 * h + 1" by (blast elim: oddE)
      have "h = 0"
      proof (rule bit_eqI)
        fix i
        have "\<not> (bit n (Suc i) \<and> bit (n - 1) (Suc i))"
          using less.prems(2) bit_and_iff [of n "n - 1" "Suc i"] by simp
        then show "bit h i = bit 0 i" by (simp add: h bit_Suc)
      qed
      then show ?thesis using h by (intro exI [of _ 0]) simp
    qed
  qed
next
  assume "\<exists>k. n = 2 ^ k"
  then obtain k where k: "n = 2 ^ k" ..
  have "n AND (n - 1) = 0"
  proof (rule bit_eqI)
    fix i
    have "n - 1 = mask k" by (simp add: k mask_eq_exp_minus_1)
    then show "bit (n AND (n - 1)) i = bit 0 i" by (auto simp: k bit_simps)
  qed
  then show "is_power_of_two n" using k by (simp add: is_power_of_two_def)
qed

section \<open>The operations refine the pool\<close>

lemma slab_cache_alloc_spec:
  assumes inv: "cache_inv (kmem s) c sz mx ss" and fl: "\<not> SLAB_AUTO_GROW flags"
  shows "case pool_alloc ss of
      Some (p, ss') \<Rightarrow> \<exists>m. slab_cache_alloc s (loc c 0) flags = Some (Inr (p, s\<lparr>kmem := m\<rparr>))
        \<and> cache_inv m c sz mx ss' \<and> pool_frame c ss {} (kmem s) m
    | None \<Rightarrow> if SLAB_PANIC flags
        then slab_cache_alloc s (loc c 0) flags = Some (Inl (Panic ''Slab cache alloc: Couldn't find allocatable memory''))
        else \<exists>m. slab_cache_alloc s (loc c 0) flags = Some (Inr (0, s\<lparr>kmem := m\<rparr>))
          \<and> cache_inv m c sz mx ss \<and> pool_frame c ss {} (kmem s) m"
proof -
  have c: "0 < c" "c < 2 ^ 31" using inv by (auto simp: cache_inv_def pool_shape_def)
  define u where "u = s\<lparr>kmem := store64 (kmem s) (loc c 32) (first_slab ss)\<rparr>"
  have start: "slab_cache_alloc s (loc c 0) flags = slab_alloc_loop (loc c 0) flags u"
    using loc_nonzero [OF c, of 0] cache_inv_head [OF inv] by (simp add: slab_cache_alloc_def field_locs u_def)
  have "cache_inv (kmem u) c sz mx ([] @ ss)" "load64 (kmem u) (loc c 32) = first_slab ss"
    using cache_inv_cursor [OF inv] by (simp_all add: u_def)
  note spec = slab_alloc_loop_spec [OF this fl c(2)]
  have frame: "pool_frame c ss {} (kmem s) m" if "pool_frame c ss {} (kmem u) m" for m
    by (rule pool_frame_trans [OF _ that]) (use c in \<open>simp add: u_def pool_frame_cursor\<close>)
  have upd: "u\<lparr>kmem := m\<rparr> = s\<lparr>kmem := m\<rparr>" for m by (simp add: u_def)
  show ?thesis using spec frame unfolding start upd
    by (fastforce split: option.splits prod.splits if_splits)
qed

lemma slab_cache_free_spec:
  assumes inv: "cache_inv (kmem s) c sz mx ss"
    and p: "p \<in> bufs sz r" "r \<in> fst ` set ss" "p \<notin> set (free_bufs ss)"
  shows "case pool_free mx p ss of
      Some ss' \<Rightarrow> \<exists>m. slab_cache_free s (loc c 0) p flags = Some (Inr (s\<lparr>kmem := m\<rparr>))
        \<and> cache_inv m c sz mx ss' \<and> pool_frame c ss {a. unat (a - p) < 10} (kmem s) m
    | None \<Rightarrow> if SLAB_PANIC flags
        then slab_cache_free s (loc c 0) p flags = Some (Inl (Panic ''Slab cache free: Couldn't find a slab for the to be freed pointer''))
        else \<exists>m. slab_cache_free s (loc c 0) p flags = Some (Inr (s\<lparr>kmem := m\<rparr>))
          \<and> cache_inv m c sz mx ss \<and> pool_frame c ss {a. unat (a - p) < 10} (kmem s) m"
proof -
  have c: "0 < c" "c < 2 ^ 31" using inv by (auto simp: cache_inv_def pool_shape_def)
  define u where "u = s\<lparr>kmem := store64 (kmem s) (loc c 32) (first_slab ss)\<rparr>"
  have start: "slab_cache_free s (loc c 0) p flags = slab_free_loop (loc c 0) p flags u"
    using loc_nonzero [OF c, of 0] cache_inv_head [OF inv] by (simp add: slab_cache_free_def field_locs u_def)
  have "cache_inv (kmem u) c sz mx ([] @ ss)" "load64 (kmem u) (loc c 32) = first_slab ss"
    using cache_inv_cursor [OF inv] by (simp_all add: u_def)
  moreover have "r \<in> fst ` set ([] @ ss)" "p \<notin> set (free_bufs ([] @ ss))" using p by simp_all
  ultimately have spec: "case pool_free mx p ss of
      Some ss' \<Rightarrow> \<exists>m. slab_free_loop (loc c 0) p flags u = Some (Inr (u\<lparr>kmem := m\<rparr>))
        \<and> cache_inv m c sz mx ([] @ ss') \<and> pool_frame c ([] @ ss) {a. unat (a - p) < 10} (kmem u) m
    | None \<Rightarrow> if SLAB_PANIC flags
        then slab_free_loop (loc c 0) p flags u = Some (Inl (Panic ''Slab cache free: Couldn't find a slab for the to be freed pointer''))
        else \<exists>m. slab_free_loop (loc c 0) p flags u = Some (Inr (u\<lparr>kmem := m\<rparr>))
          \<and> cache_inv m c sz mx ([] @ ss) \<and> pool_frame c ([] @ ss) {a. unat (a - p) < 10} (kmem u) m"
    using c(2) p(1) by (intro slab_free_loop_spec)
  have frame: "pool_frame c ss {a. unat (a - p) < 10} (kmem s) m" if "pool_frame c ss {a. unat (a - p) < 10} (kmem u) m" for m
    by (rule pool_frame_trans [OF _ that]) (use c in \<open>simp add: u_def pool_frame_cursor\<close>)
  have upd: "u\<lparr>kmem := m\<rparr> = s\<lparr>kmem := m\<rparr>" for m by (simp add: u_def)
  show ?thesis using spec frame unfolding start upd
    by (fastforce split: option.splits if_splits)
qed

text \<open>
  What a client of a cache relies on, in terms of the pool the memory represents, and what follows
  for a run of allocations.
\<close>

fun alloc_n :: "('s \<Rightarrow> (u64 \<times> 's) result option) \<Rightarrow> nat \<Rightarrow> 's \<Rightarrow> (u64 list \<times> 's) option" where
  "alloc_n alloc 0 s = Some ([], s)"
| "alloc_n alloc (Suc n) s =
     (case alloc s of Some (Inr (p, t)) \<Rightarrow> map_option (\<lambda>(ps, u). (p # ps, u)) (alloc_n alloc n t) | _ \<Rightarrow> None)"

locale buffer_cache =
  fixes rep :: "'s \<Rightarrow> (nat \<times> u64 list) list \<Rightarrow> bool"
    and alloc :: "'s \<Rightarrow> (u64 \<times> 's) result option"
  assumes alloc_some: "rep s ss \<Longrightarrow> pool_alloc ss = Some (p, ss') \<Longrightarrow> \<exists>t. alloc s = Some (Inr (p, t)) \<and> rep t ss'"
    and distinct_free: "rep s ss \<Longrightarrow> distinct (free_bufs ss)"
begin

lemma alloc_run:
  "rep s ss \<Longrightarrow> n \<le> length (free_bufs ss) \<Longrightarrow>
   \<exists>t ss'. alloc_n alloc n s = Some (take n (free_bufs ss), t) \<and> rep t ss' \<and> free_bufs ss' = drop n (free_bufs ss)
     \<and> map fst ss' = map fst ss"
proof (induction n arbitrary: s ss)
  case 0
  then show ?case by auto
next
  case (Suc n)
  then have "free_bufs ss \<noteq> []" by (metis list.size(3) not_less_eq_eq zero_le)
  then obtain p ss1 where a: "pool_alloc ss = Some (p, ss1)" using pool_alloc_None_iff [of ss] by fastforce
  note d = pool_alloc_SomeD [OF a]
  obtain u where u: "alloc s = Some (Inr (p, u))" "rep u ss1" using alloc_some [OF Suc.prems(1) a] by blast
  have "n \<le> length (free_bufs ss1)" using Suc.prems(2) d by simp
  from Suc.IH [OF u(2) this] obtain t ss' where "alloc_n alloc n u = Some (take n (free_bufs ss1), t)" "rep t ss'"
      "free_bufs ss' = drop n (free_bufs ss1)" "map fst ss' = map fst ss1" by blast
  then show ?case using u(1) d by auto
qed

end

definition MALLOC_FLAGS :: slab_flags_t where
  "MALLOC_FLAGS = \<lparr>SLAB_PANIC = True, SLAB_AUTO_GROW = False, SLAB_NO_ALIGN = False\<rparr>"

interpretation sc: buffer_cache "\<lambda>s ss. cache_inv (kmem s) c sz mx ss" "\<lambda>s. slab_cache_alloc s (loc c 0) MALLOC_FLAGS"
  for c sz mx
proof
  fix s :: "'a pmm_state_scheme" and ss p ss'
  assume inv: "cache_inv (kmem s) c sz mx ss"
  then show "distinct (free_bufs ss)" by (simp add: cache_inv_def pool_shape_def)
  assume "pool_alloc ss = Some (p, ss')"
  with slab_cache_alloc_spec [OF inv, of MALLOC_FLAGS]
  show "\<exists>t. slab_cache_alloc s (loc c 0) MALLOC_FLAGS = Some (Inr (p, t)) \<and> cache_inv (kmem t) c sz mx ss'"
    by (auto simp: MALLOC_FLAGS_def)
qed

section \<open>Creation\<close>

lemma slab_cache_create_ok:
  assumes wf: "pmm_wf s" and two: "1 < card (pmm_free_pages s)" and k: "4 \<le> k" "k \<le> 9"
    and j0: "j0 = (if SLAB_NO_ALIGN flags then 1 else 0)"
  shows "\<exists>c q t. {c, q} \<subseteq> pmm_free_pages s \<and> c \<noteq> q \<and> slab_cache_create s name (2 ^ k) flags = Inr (loc c 0, t)
    \<and> pmm_wf t \<and> pmm_pages t = pmm_pages s \<and> pmm_free_pages t = pmm_free_pages s - {c, q}
    \<and> cache_inv (kmem t) c (2 ^ k) (4056 div 2 ^ k - j0) [(q, map (\<lambda>i. loc q (i * 2 ^ k)) [j0..<4056 div 2 ^ k])]
    \<and> off_pages {c, q} (kmem s) (kmem t) \<and> t = s\<lparr>kmem := kmem t, pmm_bitmap := pmm_bitmap t, used_pages_count := used_pages_count t\<rparr>"
proof -
  have "k \<in> {4, 5, 6, 7, 8, 9}" using k by auto
  then have asserts: "(2 ^ k :: u64) \<le> 512" "sizeof_slab_bufctl_t \<le> 2 ^ k" "sint (ucast (2 ^ k :: u64) :: 32 word) = 2 ^ k"
    and sz: "16 \<le> (2 ^ k :: nat)" "(2 ^ k :: nat) \<le> 512" and dv: "(4056 :: u64) div 2 ^ k = of_nat (4056 div 2 ^ k)"
    by (auto simp: sizeof_slab_bufctl_t_def)
  have p2: "is_power_of_two (2 ^ k)" using is_power_of_two_iff by blast
  obtain c u where c: "c \<in> pmm_free_pages s" "pmm_allocz s 1 = Inr (page_addr c, u)"
    and u: "pmm_wf u" "pmm_pages u = pmm_pages s" "pmm_free_pages u = pmm_free_pages s - {c}"
      "kmem u = memset (kmem s) (page_addr c) 0 4096"
    using pg.allocz1_some [OF wf] two by fastforce
  have pc: "0 < c" "c < 2 ^ 31" using pg.avail_page [OF wf c(1)] wf by (auto simp: pmm_wf_def pmm_inv_def)
  define m where "m = store64 (store64 (store64 (store64 (kmem u) (loc c 0) name) (loc c 8) (2 ^ k))
      (loc c 16) (of_nat (4056 div 2 ^ k))) (loc c 32) 0"
  have m: "load64 m (loc c 8) = of_nat (2 ^ k)" "load64 m (loc c 16) = of_nat (4056 div 2 ^ k)" "load64 m (loc c 24) = 0"
    using pc by (simp_all add: m_def load64_loc u(4) load64_cleared_page)
  define v where "v = u\<lparr>kmem := m\<rparr>"
  have create: "slab_cache_create s name (2 ^ k) flags = rbind (slab_cache_grow v (loc c 0) 1 flags) (\<lambda>s. Inr (loc c 0, s))"
    using asserts p2 c(2) loc_nonzero [OF pc, of 0] pc dv
    by (simp add: slab_cache_create_def page_addr_loc field_locs sizeof_slab_cache_t_def v_def m_def)
  have "pmm_free_pages v \<noteq> {}"
  proof
    assume "pmm_free_pages v = {}"
    then have "pmm_free_pages s \<subseteq> {c}" using u(3) by (auto simp: v_def)
    then have "card (pmm_free_pages s) \<le> card {c}" by (intro card_mono) simp_all
    with two show False by simp
  qed
  moreover have "pmm_wf v" "c \<notin> pmm_free_pages v" using u by (simp_all add: v_def)
  moreover have "load64 (kmem v) (loc c 8) = of_nat (2 ^ k)" "load64 (kmem v) (loc c 16) = of_nat (4056 div 2 ^ k)"
      "load64 (kmem v) (loc c 24) = 0" using m by (simp_all add: v_def)
  ultimately have "\<exists>q t. q \<in> pmm_free_pages v \<and> slab_cache_grow v (loc c 0) 1 flags = Inr t \<and> pmm_wf t
      \<and> pmm_pages t = pmm_pages v \<and> pmm_free_pages t = pmm_free_pages v - {q}
      \<and> cache_inv (kmem t) c (2 ^ k) (4056 div 2 ^ k - j0) [(q, map (\<lambda>i. loc q (i * 2 ^ k)) [j0..<4056 div 2 ^ k])]
      \<and> off_pages {c, q} (kmem v) (kmem t) \<and> t = v\<lparr>kmem := kmem t, pmm_bitmap := pmm_bitmap t, used_pages_count := used_pages_count t\<rparr>"
    using pc sz j0 by (intro slab_grow_empty)
  then obtain q t where g: "q \<in> pmm_free_pages v" "slab_cache_grow v (loc c 0) 1 flags = Inr t" "pmm_wf t"
      "pmm_pages t = pmm_pages v" "pmm_free_pages t = pmm_free_pages v - {q}"
      "cache_inv (kmem t) c (2 ^ k) (4056 div 2 ^ k - j0) [(q, map (\<lambda>i. loc q (i * 2 ^ k)) [j0..<4056 div 2 ^ k])]"
      "off_pages {c, q} (kmem v) (kmem t)" "t = v\<lparr>kmem := kmem t, pmm_bitmap := pmm_bitmap t, used_pages_count := used_pages_count t\<rparr>"
    by blast
  have frame: "off_pages {c, q} (kmem s) (kmem v)"
    unfolding v_def m_def using pc by (auto simp: u(4) intro!: off_pages_intros)
  have vs: "v = s\<lparr>kmem := kmem v, pmm_bitmap := pmm_bitmap v, used_pages_count := used_pages_count v\<rparr>"
    unfolding v_def by (subst pmm_allocz_rest [OF c(2)]) simp
  have v: "pmm_pages v = pmm_pages s" "pmm_free_pages v = pmm_free_pages s - {c}" using u by (simp_all add: v_def)
  show ?thesis
  proof (intro exI conjI)
    show "{c, q} \<subseteq> pmm_free_pages s" "c \<noteq> q" using g(1) c(1) v(2) by auto
    show "slab_cache_create s name (2 ^ k) flags = Inr (loc c 0, t)" using create g(2) by simp
    show "pmm_pages t = pmm_pages s" "pmm_free_pages t = pmm_free_pages s - {c, q}" using g(4,5) v by auto
    show "off_pages {c, q} (kmem s) (kmem t)" by (rule off_pages_trans [OF frame g(7)])
    show "t = s\<lparr>kmem := kmem t, pmm_bitmap := pmm_bitmap t, used_pages_count := used_pages_count t\<rparr>"
      by (subst g(8), subst vs) simp
  qed (use g in blast)+
qed

section \<open>Properties\<close>

text \<open>C21. \<open>slab_cache_create\<close> for a power of two between 16 and 512 takes two free pages, the second
  of which becomes a pool: all its buffers are free (the page-aligned one is left out on
  request), they lie in the page before the slab structure and no two of them share a byte.\<close>

theorem slab_cache_create_pool:
  assumes "pmm_wf s" and "1 < card (pmm_free_pages s)" and "4 \<le> k" and "k \<le> 9"
    and "j0 = (if SLAB_NO_ALIGN flags then 1 else 0)"
  shows "\<exists>c q t. {c, q} \<subseteq> pmm_free_pages s \<and> c \<noteq> q \<and> slab_cache_create s name (2 ^ k) flags = Inr (loc c 0, t)
    \<and> pmm_wf t \<and> pmm_free_pages t = pmm_free_pages s - {c, q}
    \<and> cache_inv (kmem t) c (2 ^ k) (4056 div 2 ^ k - j0) [(q, map (\<lambda>i. loc q (i * 2 ^ k)) [j0..<4056 div 2 ^ k])]
    \<and> (\<forall>x\<in>bufs (2 ^ k) q. unat x div 4096 = q \<and> unat x mod 4096 + 2 ^ k \<le> 4056)
    \<and> (\<forall>x\<in>bufs (2 ^ k) q. \<forall>y\<in>bufs (2 ^ k) q. x \<noteq> y \<longrightarrow> separate x (2 ^ k) y (2 ^ k))"
proof -
  obtain c q t where t: "{c, q} \<subseteq> pmm_free_pages s" "c \<noteq> q" "slab_cache_create s name (2 ^ k) flags = Inr (loc c 0, t)"
    "pmm_wf t" "pmm_free_pages t = pmm_free_pages s - {c, q}"
    "cache_inv (kmem t) c (2 ^ k) (4056 div 2 ^ k - j0) [(q, map (\<lambda>i. loc q (i * 2 ^ k)) [j0..<4056 div 2 ^ k])]"
    using slab_cache_create_ok [OF assms] by blast
  have q: "q < 2 ^ 31" and sz: "16 \<le> (2 ^ k :: nat)" using t(6) by (auto simp: cache_inv_def pool_shape_def)
  have "unat x div 4096 = q \<and> unat x mod 4096 + 2 ^ k \<le> 4056" if x: "x \<in> bufs (2 ^ k) q" for x
  proof -
    obtain n where n: "x = loc q n" "n + 2 ^ k \<le> 4056" by (rule bufsE [OF x sz])
    have "n < 4096" using n(2) by linarith
    then show ?thesis using n q by (simp add: unat_loc)
  qed
  moreover have "\<forall>x\<in>bufs (2 ^ k) q. \<forall>y\<in>bufs (2 ^ k) q. x \<noteq> y \<longrightarrow> separate x (2 ^ k) y (2 ^ k)"
    using bufs_disjoint sz q by (metis separate_sym)
  ultimately show ?thesis using t by blast
qed

theorem slab_cache_create_pool_witness:
  "\<exists>c q t. {c, q} \<subseteq> pmm_free_pages eight_pages \<and> c \<noteq> q
    \<and> slab_cache_create eight_pages 0 (2 ^ 6) (MALLOC_FLAGS\<lparr>SLAB_NO_ALIGN := True\<rparr>) = Inr (loc c 0, t)
    \<and> pmm_wf t \<and> pmm_free_pages t = pmm_free_pages eight_pages - {c, q}
    \<and> cache_inv (kmem t) c (2 ^ 6) (4056 div 2 ^ 6 - 1) [(q, map (\<lambda>i. loc q (i * 2 ^ 6)) [1..<4056 div 2 ^ 6])]
    \<and> (\<forall>x\<in>bufs (2 ^ 6) q. unat x div 4096 = q \<and> unat x mod 4096 + 2 ^ 6 \<le> 4056)
    \<and> (\<forall>x\<in>bufs (2 ^ 6) q. \<forall>y\<in>bufs (2 ^ 6) q. x \<noteq> y \<longrightarrow> separate x (2 ^ 6) y (2 ^ 6))"
  by (rule slab_cache_create_pool [OF eight_pages_wf]) (simp_all add: eight_pages_free)

text \<open>C5. On a well-formed cache, \<open>slab_cache_alloc\<close> (without automatic growth) returns and does what
  the abstract pool does: it hands out the first free buffer of the first slab that has one and
  writes only the cache and slab structures; with none left it panics or returns \<open>NULL\<close>.\<close>

theorem slab_cache_alloc_refines:
  assumes "cache_inv (kmem s) c sz mx ss" and "\<not> SLAB_AUTO_GROW flags"
  shows "case pool_alloc ss of
      Some (p, ss') \<Rightarrow> \<exists>m. slab_cache_alloc s (loc c 0) flags = Some (Inr (p, s\<lparr>kmem := m\<rparr>))
        \<and> cache_inv m c sz mx ss' \<and> pool_frame c ss {} (kmem s) m
    | None \<Rightarrow> if SLAB_PANIC flags
        then slab_cache_alloc s (loc c 0) flags = Some (Inl (Panic ''Slab cache alloc: Couldn't find allocatable memory''))
        else \<exists>m. slab_cache_alloc s (loc c 0) flags = Some (Inr (0, s\<lparr>kmem := m\<rparr>))
          \<and> cache_inv m c sz mx ss \<and> pool_frame c ss {} (kmem s) m"
  by (rule slab_cache_alloc_spec [OF assms])

lemma example_cache:
  "\<exists>c q t. slab_cache_create eight_pages 0 (2 ^ 9) MALLOC_FLAGS = Inr (loc c 0, t)
    \<and> cache_inv (kmem t) c 512 7 [(q, map (\<lambda>i. loc q (i * 512)) [0..<7])]"
  using slab_cache_create_ok [OF eight_pages_wf, of 9 0 MALLOC_FLAGS 0]
  by (force simp: eight_pages_free MALLOC_FLAGS_def)

theorem slab_cache_alloc_refines_witness:
  "\<exists>c q s m. slab_cache_create eight_pages 0 (2 ^ 9) MALLOC_FLAGS = Inr (loc c 0, s)
    \<and> slab_cache_alloc s (loc c 0) MALLOC_FLAGS = Some (Inr (loc q 0, s\<lparr>kmem := m\<rparr>))
    \<and> cache_inv m c 512 7 [(q, map (\<lambda>i. loc q (i * 512)) [1..<7])]"
proof -
  obtain c q t where t: "slab_cache_create eight_pages 0 (2 ^ 9) MALLOC_FLAGS = Inr (loc c 0, t)"
    "cache_inv (kmem t) c 512 7 [(q, map (\<lambda>i. loc q (i * 512)) [0..<7])]"
    using example_cache by blast
  have "map (\<lambda>i. loc q (i * 512)) [0..<7] = loc q 0 # map (\<lambda>i. loc q (i * 512)) [1..<7]"
    by (simp add: upt_rec)
  with slab_cache_alloc_refines [OF t(2), of MALLOC_FLAGS] t(1) show ?thesis
    by (auto simp: MALLOC_FLAGS_def)
qed

text \<open>C13. Releasing a buffer that is out puts it back into the pool: the list of the first slab with
  room gets it in front, the node is written over the first ten bytes of the buffer, and no byte
  outside the buffer and the cache's own structures changes.\<close>

theorem slab_cache_free_refines:
  assumes "cache_inv (kmem s) c sz mx ss" and "p \<in> bufs sz r" and "r \<in> fst ` set ss" and "p \<notin> set (free_bufs ss)"
  shows "case pool_free mx p ss of
      Some ss' \<Rightarrow> \<exists>m. slab_cache_free s (loc c 0) p flags = Some (Inr (s\<lparr>kmem := m\<rparr>))
        \<and> cache_inv m c sz mx ss' \<and> pool_frame c ss {a. unat (a - p) < 10} (kmem s) m
    | None \<Rightarrow> if SLAB_PANIC flags
        then slab_cache_free s (loc c 0) p flags = Some (Inl (Panic ''Slab cache free: Couldn't find a slab for the to be freed pointer''))
        else \<exists>m. slab_cache_free s (loc c 0) p flags = Some (Inr (s\<lparr>kmem := m\<rparr>))
          \<and> cache_inv m c sz mx ss \<and> pool_frame c ss {a. unat (a - p) < 10} (kmem s) m"
  by (rule slab_cache_free_spec [OF assms])

lemma example_cache_taken:
  "\<exists>c q (s :: pmm_state). cache_inv (kmem s) c 512 7 [(q, map (\<lambda>i. loc q (i * 512)) [1..<7])]
    \<and> loc q 0 \<in> bufs 512 q \<and> loc q 0 \<notin> set (map (\<lambda>i. loc q (i * 512)) [1..<7])
    \<and> loc q 0 # map (\<lambda>i. loc q (i * 512)) [1..<7] = map (\<lambda>i. loc q (i * 512)) [0..<7]"
proof -
  obtain c q t where t: "cache_inv (kmem (t :: pmm_state)) c 512 7 [(q, map (\<lambda>i. loc q (i * 512)) [0..<7])]"
    using example_cache by blast
  have l: "map (\<lambda>i. loc q (i * 512)) [0..<7] = loc q 0 # map (\<lambda>i. loc q (i * 512)) [1..<7]"
    by (simp add: upt_rec)
  have "distinct (map (\<lambda>i. loc q (i * 512)) [0..<7])" using t by (simp add: cache_inv_def pool_shape_def)
  then have "loc q 0 \<notin> set (map (\<lambda>i. loc q (i * 512)) [1..<7])" unfolding l by simp
  moreover have "loc q 0 \<in> bufs 512 q" unfolding bufs_def by (rule image_eqI [of _ _ 0]) simp_all
  moreover obtain m where "cache_inv m c 512 7 [(q, map (\<lambda>i. loc q (i * 512)) [1..<7])]"
    using slab_cache_alloc_spec [OF t, of MALLOC_FLAGS] l by (auto simp: MALLOC_FLAGS_def)
  then have "cache_inv (kmem (t\<lparr>kmem := m\<rparr>)) c 512 7 [(q, map (\<lambda>i. loc q (i * 512)) [1..<7])]" by simp
  ultimately show ?thesis using l by metis
qed

theorem slab_cache_free_refines_witness:
  "\<exists>c q (s :: pmm_state) t. cache_inv (kmem s) c 512 7 [(q, map (\<lambda>i. loc q (i * 512)) [1..<7])]
    \<and> slab_cache_free s (loc c 0) (loc q 0) MALLOC_FLAGS = Some (Inr t)
    \<and> cache_inv (kmem t) c 512 7 [(q, map (\<lambda>i. loc q (i * 512)) [0..<7])]"
proof -
  obtain c q and s :: pmm_state where s: "cache_inv (kmem s) c 512 7 [(q, map (\<lambda>i. loc q (i * 512)) [1..<7])]"
      "loc q 0 \<in> bufs 512 q" "loc q 0 \<notin> set (map (\<lambda>i. loc q (i * 512)) [1..<7])"
      "loc q 0 # map (\<lambda>i. loc q (i * 512)) [1..<7] = map (\<lambda>i. loc q (i * 512)) [0..<7]"
    using example_cache_taken by (elim exE conjE) (rule that)
  from slab_cache_free_refines [OF s(1,2), of MALLOC_FLAGS] s(3,4)
  obtain m where "slab_cache_free s (loc c 0) (loc q 0) MALLOC_FLAGS = Some (Inr (s\<lparr>kmem := m\<rparr>))"
      "cache_inv m c 512 7 [(q, map (\<lambda>i. loc q (i * 512)) [0..<7])]"
    by auto
  then show ?thesis using s(1) by (intro exI [of _ c] exI [of _ q] exI [of _ s] exI [of _ "s\<lparr>kmem := m\<rparr>"]) simp
qed

text \<open>Allocating again and again from a cache as \<open>malloc\<close> does hands out the free buffers one
  after the other, each once, until none is left.\<close>

theorem slab_cache_alloc_run:
  assumes "cache_inv (kmem s) c sz mx ss" and "n \<le> length (free_bufs ss)"
  shows "\<exists>t ss'. alloc_n (\<lambda>s. slab_cache_alloc s (loc c 0) MALLOC_FLAGS) n s = Some (take n (free_bufs ss), t)
    \<and> distinct (take n (free_bufs ss)) \<and> cache_inv (kmem t) c sz mx ss' \<and> free_bufs ss' = drop n (free_bufs ss)"
  using sc.alloc_run [OF assms] sc.distinct_free [OF assms(1)] distinct_take by blast

theorem slab_cache_alloc_run_witness:
  "\<exists>c q (s :: pmm_state) t. cache_inv (kmem s) c 512 7 [(q, map (\<lambda>i. loc q (i * 512)) [0..<7])]
    \<and> alloc_n (\<lambda>s. slab_cache_alloc s (loc c 0) MALLOC_FLAGS) 7 s = Some (map (\<lambda>i. loc q (i * 512)) [0..<7], t)"
proof -
  obtain c q t where t: "cache_inv (kmem (t :: pmm_state)) c 512 7 [(q, map (\<lambda>i. loc q (i * 512)) [0..<7])]"
    using example_cache by blast
  from slab_cache_alloc_run [OF t, of 7] t show ?thesis by auto
qed

end
