(* ===== verification/Malloc.thy ===== *)
theory Malloc
  imports Page_Tables Slab_Pool
begin

text \<open>
  \<open>libk/malloc/malloc.c\<close>: the kernel heap. Requests of up to 510 bytes come from six slab caches,
  larger ones are whole pages; two bytes in front of the block record the cache or the page count.
  Clients hold addresses in the heap window, the allocator works on the physical ones.
\<close>

record heap_state = vmm_state +
  slab_caches :: "u64 list"

section \<open>Sizes\<close>

definition next_power_of_two :: "u32 \<Rightarrow> u32" where
  "next_power_of_two n =
     (if n \<le> 16 then 16
      else let n = n - 1;
               n = n OR drop_bit 1 n;
               n = n OR drop_bit 2 n;
               n = n OR drop_bit 4 n;
               n = n OR drop_bit 8 n;
               n = n OR drop_bit 16 n
           in n + 1)"

definition round_alloc_size :: "u64 \<Rightarrow> u64" where
  "round_alloc_size size' =
     (if size' \<le> 512 then ucast (next_power_of_two (ucast size')) else ALIGN_UP size' 4096)"

definition size_to_slab_cache_index :: "u64 \<Rightarrow> int" where
  "size_to_slab_cache_index sz =
     (if sz = 16 then 0 else if sz = 32 then 1 else if sz = 64 then 2 else if sz = 128 then 3
      else if sz = 256 then 4 else if sz = 512 then 5 else -1)"

definition slab_cache_index_to_size :: "u64 \<Rightarrow> int" where
  "slab_cache_index_to_size index =
     (if index = 0 then 16 else if index = 1 then 32 else if index = 2 then 64 else if index = 3 then 128
      else if index = 4 then 256 else if index = 5 then 512 else -1)"

section \<open>The allocator\<close>

text \<open>\<open>malloc_metadata_t\<close> is one 16-bit field.\<close>

definition sizeof_malloc_metadata_t :: u64 where "sizeof_malloc_metadata_t = 2"
definition metadata_size :: "memory \<Rightarrow> u64 \<Rightarrow> u16" where "metadata_size m p = load16 m p"
definition set_metadata_size :: "u64 \<Rightarrow> u16 \<Rightarrow> memory \<Rightarrow> memory" where "set_metadata_size p v m = store16 m p v"

text \<open>\<open>slab_caches[index]\<close>, an array of six.\<close>

definition slab_cache_at :: "'a heap_state_scheme \<Rightarrow> nat \<Rightarrow> u64 result" where
  "slab_cache_at s i = (if i < 6 \<and> i < length (slab_caches s) then Inr (slab_caches s ! i) else Inl Out_Of_Bounds)"

abbreviation HEAP_FLAGS :: slab_flags_t where
  "HEAP_FLAGS \<equiv> \<lparr>SLAB_PANIC = True, SLAB_AUTO_GROW = True, SLAB_NO_ALIGN = True\<rparr>"

text \<open>The names of the caches are string literals of the kernel image, at addresses \<open>names i\<close>.\<close>

definition malloc_heap_init :: "(nat \<Rightarrow> u64) \<Rightarrow> 'a heap_state_scheme \<Rightarrow> 'a heap_state_scheme result" where
  "malloc_heap_init names s =
     rfold (\<lambda>(i, sz) s. rbind (slab_cache_create s (names i) sz HEAP_FLAGS) (\<lambda>(cache, s).
         Inr (s\<lparr>slab_caches := (slab_caches s)[i := cache]\<rparr>)))
       [(0, 16), (1, 32), (2, 64), (3, 128), (4, 256), (5, 512)]
       (s\<lparr>slab_caches := replicate 6 0\<rparr>)"

definition malloc :: "'a heap_state_scheme \<Rightarrow> u64 \<Rightarrow> (u64 \<times> 'a heap_state_scheme) result option" where
  "malloc s size' =
     (let new_size = round_alloc_size (size' + sizeof_malloc_metadata_t) in
      if new_size \<le> 512
      then let index = size_to_slab_cache_index new_size in
           if index = -1 then Some (Inr (0, s))
           else case slab_cache_at s (nat index) of
                  Inl e \<Rightarrow> Some (Inl e)
                | Inr cache \<Rightarrow> map_option (\<lambda>r. rbind r (\<lambda>(pointer, s).
                    if pointer = 0 then Inr (0, s)
                    else Inr (pointer + sizeof_malloc_metadata_t + HEAP_START_ADDR,
                              upd_mem (set_metadata_size pointer (of_int index)) s)))
                    (slab_cache_alloc s cache MALLOC_FLAGS)
      else let page_count = new_size div 4096 in
           if sint page_count = -1 then Some (Inr (0, s))
           else Some (rbind (pmm_allocz s page_count) (\<lambda>(pointer, s).
                  if pointer = 0 then Inr (0, s)
                  else Inr (pointer + sizeof_malloc_metadata_t + HEAP_START_ADDR,
                            upd_mem (set_metadata_size pointer (ucast page_count)) s))))"

definition free :: "'a heap_state_scheme \<Rightarrow> u64 \<Rightarrow> 'a heap_state_scheme result option" where
  "free s pointer =
     (if pointer = 0 then Some (Inr s)
      else let pointer = pointer - HEAP_START_ADDR - sizeof_malloc_metadata_t in
        if pointer AND 0xFFF \<noteq> 0
        then (case slab_cache_at s (unat (metadata_size (kmem s) pointer)) of
                Inl e \<Rightarrow> Some (Inl e)
              | Inr cache \<Rightarrow> slab_cache_free s cache pointer MALLOC_FLAGS)
        else Some (pmm_free s pointer (ucast (metadata_size (kmem s) pointer))))"

definition realloc :: "'a heap_state_scheme \<Rightarrow> u64 \<Rightarrow> u64 \<Rightarrow> (u64 \<times> 'a heap_state_scheme) result option" where
  "realloc s old_pointer new_size =
     (if old_pointer = 0 then malloc s new_size
      else if new_size = 0 then map_option (\<lambda>r. rbind r (\<lambda>s. Inr (0, s))) (free s old_pointer)
      else let block = old_pointer - HEAP_START_ADDR - sizeof_malloc_metadata_t;
               rounded_new_size = round_alloc_size new_size;
               old_size = (if block AND 0xFFF \<noteq> 0
                           then let old_size_temp = slab_cache_index_to_size (ucast (metadata_size (kmem s) block))
                                in if old_size_temp = -1 then None else Some (of_int old_size_temp)
                           else Some (ucast (metadata_size (kmem s) block) div 4096))
           in case old_size of
                None \<Rightarrow> Some (Inr (0, s))
              | Some old_size \<Rightarrow>
                  if old_size = rounded_new_size then Some (Inr (old_pointer, s))
                  else (case malloc s new_size of
                          None \<Rightarrow> None
                        | Some (Inl e) \<Rightarrow> Some (Inl e)
                        | Some (Inr (new_pointer, s)) \<Rightarrow>
                            if new_pointer = 0 then Some (Inr (0, s))
                            else let n = (if old_size > rounded_new_size then rounded_new_size else old_size);
                                     s = upd_mem (\<lambda>m. memcpy m (kaddr new_pointer) (kaddr old_pointer) n) s
                                 in map_option (\<lambda>r. rbind r (\<lambda>s. Inr (new_pointer, s))) (free s old_pointer)))"

section \<open>Rounding\<close>

text \<open>The five shifts copy the highest set bit into every position below it.\<close>

definition smear :: "u32 \<Rightarrow> u32" where
  "smear n = (let n = n OR drop_bit 1 n; n = n OR drop_bit 2 n; n = n OR drop_bit 4 n; n = n OR drop_bit 8 n
     in n OR drop_bit 16 n)"

lemma ex_less_double: "(\<exists>d<2 * n. P (i + d)) \<longleftrightarrow> (\<exists>d<n. P (i + d)) \<or> (\<exists>d<n. P (i + n + d))" for n i :: nat
proof
  assume "\<exists>d<2 * n. P (i + d)"
  then obtain d where d: "d < 2 * n" "P (i + d)" by blast
  show "(\<exists>d<n. P (i + d)) \<or> (\<exists>d<n. P (i + n + d))"
  proof (cases "d < n")
    case True
    with d show ?thesis by blast
  next
    case False
    then have "d - n < n" "P (i + n + (d - n))" using d by simp_all
    then show ?thesis by blast
  qed
next
  assume "(\<exists>d<n. P (i + d)) \<or> (\<exists>d<n. P (i + n + d))"
  then show "\<exists>d<2 * n. P (i + d)"
  proof (elim disjE exE conjE)
    fix d assume "d < n" "P (i + d)"
    then show ?thesis by (intro exI [of _ d]) simp
  next
    fix d assume "d < n" "P (i + n + d)"
    then show ?thesis by (intro exI [of _ "n + d"]) (simp add: add.assoc)
  qed
qed

lemma bit_smear_step:
  assumes "\<And>i. bit x i \<longleftrightarrow> (\<exists>d<k. bit n (i + d))"
  shows "bit (x OR drop_bit k x) i \<longleftrightarrow> (\<exists>d<2 * k. bit n (i + d))"
  unfolding bit_or_iff bit_drop_bit_eq comp_def assms ex_less_double by (simp add: add.commute add.left_commute)

lemma bit_smear: "bit (smear n) i \<longleftrightarrow> (\<exists>d<32. bit n (i + d))"
proof -
  have "bit n i \<longleftrightarrow> (\<exists>d<1. bit n (i + d))" for i by simp
  note 1 = bit_smear_step [OF this]
  note 2 = bit_smear_step [OF 1 [simplified mult_1_right]]
  note 3 = bit_smear_step [OF 2 [simplified]]
  note 4 = bit_smear_step [OF 3 [simplified]]
  note 5 = bit_smear_step [OF 4 [simplified]]
  show ?thesis using 5 [of i] by (simp add: smear_def Let_def)
qed

lemma smear_mask:
  assumes "2 ^ k \<le> unat n" "unat n < 2 ^ Suc k" "k < 31"
  shows "smear n = mask (Suc k)"
proof (rule bit_word_eqI)
  fix i assume i: "i < LENGTH(32)"
  have top: "bit n k"
  proof -
    have "unat n div 2 ^ k = 1" using assms(1,2) by (intro div_nat_eqI) simp_all
    then have "bit (unat n) k" by (simp add: bit_iff_odd)
    then show ?thesis by (simp add: bit_unsigned_iff)
  qed
  have above: "\<not> bit n j" if "k < j" for j
  proof -
    have "(2 :: nat) ^ Suc k \<le> 2 ^ j" using that by (intro power_increasing) simp_all
    then have "unat n div 2 ^ j = 0" using assms(2) by simp
    then have "\<not> bit (unat n) j" by (simp add: bit_iff_odd)
    then show ?thesis by (simp add: bit_unsigned_iff)
  qed
  show "bit (smear n) i = bit (mask (Suc k) :: u32) i"
  proof (cases "i \<le> k")
    case True
    then have "bit n (i + (k - i))" "k - i < 32" using top assms(3) by simp_all
    then have "bit (smear n) i" unfolding bit_smear by blast
    then show ?thesis using True assms(3) by (simp add: bit_mask_iff)
  next
    case False
    then have "\<not> bit (smear n) i" unfolding bit_smear using above by simp
    then show ?thesis using False by (simp add: bit_mask_iff)
  qed
qed

lemma next_power_of_two_between:
  assumes "4 \<le> k" "k < 31" "2 ^ k < unat n" "unat n \<le> 2 ^ Suc k"
  shows "next_power_of_two n = 2 ^ Suc k"
proof -
  have "(16 :: nat) \<le> 2 ^ k" using power_increasing [OF assms(1), of "2 :: nat"] by simp
  then have "\<not> n \<le> 16" using assms(3) by (simp add: word_le_nat_alt)
  then have nx: "next_power_of_two n = smear (n - 1) + 1"
    by (simp add: next_power_of_two_def smear_def Let_def)
  have "unat (n - 1) = unat n - 1" using assms(3) unat_diff_le [of 1 n] by (simp add: word_le_nat_alt)
  then have "smear (n - 1) = mask (Suc k)" using assms by (intro smear_mask) simp_all
  then show ?thesis unfolding nx by (simp add: mask_eq_exp_minus_1)
qed

text \<open>The cache that serves a request: the first whose buffers hold it.\<close>

definition block_index :: "nat \<Rightarrow> nat" where
  "block_index n = (LEAST i. n \<le> 16 * 2 ^ i)"

lemma block_index_fits: "n \<le> 16 * 2 ^ block_index n"
  unfolding block_index_def
proof (rule LeastI_ex)
  have "n \<le> 2 ^ n" by (rule less_imp_le, rule less_exp)
  then have "n \<le> 16 * 2 ^ n" by linarith
  then show "\<exists>i. n \<le> 16 * 2 ^ i" ..
qed

lemma block_index_least: "n \<le> 16 * 2 ^ i \<Longrightarrow> block_index n \<le> i"
  unfolding block_index_def by (rule Least_le)

lemma round_alloc_size_small:
  assumes "unat n \<le> 512"
  shows "round_alloc_size n = 16 * 2 ^ block_index (unat n)" "block_index (unat n) < 6"
proof -
  let ?i = "block_index (unat n)"
  have i6: "?i \<le> 5" using assms by (intro block_index_least) simp
  then show "?i < 6" by simp
  have n32: "unat (ucast n :: u32) = unat n" using assms by (simp add: unsigned_ucast_eq take_bit_nat_eq_self)
  have "next_power_of_two (ucast n) = 16 * 2 ^ ?i"
  proof (cases "?i = 0")
    case True
    then have "unat n \<le> 16" using block_index_fits [of "unat n"] by simp
    then show ?thesis using True by (simp add: next_power_of_two_def word_le_nat_alt n32)
  next
    case False
    then obtain k where k: "?i = Suc k" by (cases ?i) auto
    have lo: "\<not> unat n \<le> 16 * 2 ^ k" using block_index_least [of "unat n" k] k by auto
    have hi: "unat n \<le> 16 * 2 ^ Suc k" using block_index_fits [of "unat n"] k by simp
    have "next_power_of_two (ucast n) = 2 ^ Suc (4 + k)"
      using lo hi i6 k by (intro next_power_of_two_between) (simp_all add: n32 power_add)
    then show ?thesis unfolding k by (simp add: power_add)
  qed
  moreover have "ucast (16 * 2 ^ ?i :: u32) = (16 * 2 ^ ?i :: u64)"
  proof -
    have "?i \<in> {0, 1, 2, 3, 4, 5}" using i6 by auto
    then show ?thesis by auto
  qed
  ultimately show "round_alloc_size n = 16 * 2 ^ ?i"
    using assms by (simp add: round_alloc_size_def word_le_nat_alt)
qed

lemma size_to_index_block:
  assumes "i < 6"
  shows "size_to_slab_cache_index (16 * 2 ^ i) = int i" "(16 * 2 ^ i :: u64) \<le> 512"
    and "slab_cache_index_to_size (of_nat i) = 16 * 2 ^ i"
proof -
  have "i \<in> {0, 1, 2, 3, 4, 5}" using assms by auto
  then show "size_to_slab_cache_index (16 * 2 ^ i) = int i" "(16 * 2 ^ i :: u64) \<le> 512"
    "slab_cache_index_to_size (of_nat i) = 16 * 2 ^ i"
    by (auto simp: size_to_slab_cache_index_def slab_cache_index_to_size_def)
qed

section \<open>The heap\<close>

text \<open>
  The six caches as pools: cache \<open>i\<close> lies in page \<open>c\<close>, has at most \<open>mx\<close> buffers per slab and the
  slabs \<open>ss\<close>. Different caches use different pages, and no free buffer starts a page, since that is
  how \<open>free\<close> tells buffers from pages.
\<close>

type_synonym pool = "nat \<times> nat \<times> (nat \<times> u64 list) list"

definition pool_pages :: "pool \<Rightarrow> nat set" where
  "pool_pages = (\<lambda>(c, mx, ss). insert c (fst ` set ss))"

definition pool_inv :: "memory \<Rightarrow> u64 \<Rightarrow> nat \<Rightarrow> pool \<Rightarrow> bool" where
  "pool_inv m cache sz = (\<lambda>(c, mx, ss). cache = loc c 0 \<and> cache_inv m c sz mx ss
     \<and> (\<forall>p\<in>set (free_bufs ss). p AND 0xFFF \<noteq> 0))"

definition heap_inv :: "'a heap_state_scheme \<Rightarrow> pool list \<Rightarrow> bool" where
  "heap_inv s H \<longleftrightarrow> length H = 6 \<and> length (slab_caches s) = 6
     \<and> (\<forall>i<6. pool_inv (kmem s) (slab_caches s ! i) (16 * 2 ^ i) (H ! i))
     \<and> (\<forall>i<6. \<forall>j<6. i \<noteq> j \<longrightarrow> pool_pages (H ! i) \<inter> pool_pages (H ! j) = {})"

lemma load64_page_cong:
  assumes "q < 2 ^ 31" "n + 8 \<le> 4096" "\<And>a. unat a div 4096 = q \<Longrightarrow> m' a = m a"
  shows "load64 m' (loc q n) = load64 m (loc q n)"
  unfolding load64_def
proof (rule load_word_cong)
  fix i :: nat assume i: "i < 8"
  have "loc q n + of_nat i = loc q (n + i)" by (simp add: loc_def)
  then show "m' (loc q n + of_nat i) = m (loc q n + of_nat i)"
    using assms i by (simp add: unat_loc)
qed

lemma cache_inv_page_cong:
  assumes inv: "cache_inv m c sz mx ss" and eq: "\<And>a. unat a div 4096 \<in> pool_pages (c, mx, ss) \<Longrightarrow> m' a = m a"
  shows "cache_inv m' c sz mx ss"
proof -
  have ps: "pool_shape c sz mx ss" using inv by (simp add: cache_inv_def)
  have loc: "load64 m' (loc q n) = load64 m (loc q n)" if "q \<in> pool_pages (c, mx, ss)" "n + 8 \<le> 4096" for q n
    using that ps eq by (intro load64_page_cong) (auto simp: pool_shape_def pool_pages_def)
  have "load64 m' a = load64 m a" if a: "a \<in> footprint c ss" for a
  proof -
    consider "a \<in> {loc c 8, loc c 16, loc c 24}"
      | q where "q \<in> fst ` set ss" "a \<in> {loc q 4056, loc q 4064, loc q 4072, loc q 4080}"
      | "a \<in> set (free_bufs ss)"
      using a by (auto simp: footprint_def)
    then show ?thesis
    proof cases
      case 1
      then show ?thesis using loc [of c] by (auto simp: pool_pages_def)
    next
      case 2
      then show ?thesis using loc [of q] by (auto simp: pool_pages_def)
    next
      case 3
      obtain q n where "q \<in> fst ` set ss" "a = loc q n" "n + sz \<le> 4056" by (rule pool_free_bufE [OF ps 3])
      moreover have "16 \<le> sz" using ps by (simp add: pool_shape_def)
      ultimately show ?thesis using loc [of q n] by (simp add: pool_pages_def)
    qed
  qed
  with inv show ?thesis using cache_inv_cong [of c ss m' m] by blast
qed

text \<open>An operation on cache \<open>i\<close> that stays inside its pages leaves the other caches intact.\<close>

lemma heap_inv_step:
  assumes inv: "heap_inv s H" and i: "i < 6" "H ! i = (c, mx, ss)"
    and m: "\<And>a. unat a div 4096 \<notin> pool_pages (H ! i) \<Longrightarrow> m a = kmem s a"
    and new: "pool_inv m (slab_caches s ! i) (16 * 2 ^ i) (c, mx, ss')" "map fst ss' = map fst ss"
  shows "heap_inv (s\<lparr>kmem := m\<rparr>) (H[i := (c, mx, ss')])"
proof -
  have pp: "pool_pages (c, mx, ss') = pool_pages (H ! i)"
    using new(2) i by (simp add: pool_pages_def) (metis list.set_map)
  have len: "length H = 6" using inv by (simp add: heap_inv_def)
  have "pool_inv m (slab_caches s ! j) (16 * 2 ^ j) (H ! j)" if j: "j < 6" "j \<noteq> i" for j
  proof -
    obtain c' mx' tt where H: "H ! j = (c', mx', tt)" by (cases "H ! j")
    have "pool_inv (kmem s) (slab_caches s ! j) (16 * 2 ^ j) (H ! j)" using inv j by (simp add: heap_inv_def)
    moreover have "cache_inv m c' (16 * 2 ^ j) mx' tt" if "cache_inv (kmem s) c' (16 * 2 ^ j) mx' tt"
    proof (rule cache_inv_page_cong [OF that])
      fix a :: u64 assume "unat a div 4096 \<in> pool_pages (c', mx', tt)"
      moreover have "pool_pages (H ! i) \<inter> pool_pages (H ! j) = {}" using inv i(1) j by (simp add: heap_inv_def)
      ultimately have "unat a div 4096 \<notin> pool_pages (H ! i)" unfolding H by blast
      then show "m a = kmem s a" by (rule m)
    qed
    ultimately show ?thesis by (simp add: pool_inv_def H)
  qed
  moreover have "pool_pages (H[i := (c, mx, ss')] ! j) = pool_pages (H ! j)" if "j < 6" for j
    using pp that len by (cases "j = i") auto
  ultimately show ?thesis
    using inv new(1) i(1) len by (simp add: heap_inv_def nth_list_update)
qed

lemma pool_frame_pages:
  assumes "pool_frame c ss X m m'" "\<And>a. a \<in> X \<Longrightarrow> unat a div 4096 \<in> fst ` set ss"
    "unat a div 4096 \<notin> pool_pages (c, mx, ss)"
  shows "m' a = m a"
  using assms unfolding pool_frame_def pool_pages_def by (simp add: image_iff) blast

lemma buf_bytes_page:
  assumes "p \<in> bufs sz q" "16 \<le> sz" "q < 2 ^ 31" "unat (a - p) < 10"
  shows "unat a div 4096 = q"
proof -
  obtain n where n: "p = loc q n" "n + sz \<le> 4056" by (rule bufsE [OF assms(1,2)])
  have "a = p + of_nat (unat (a - p))" by simp
  then have "a = loc q (n + unat (a - p))" by (simp add: n(1) loc_def)
  then have "unat a = q * 4096 + (n + unat (a - p))" using n assms unat_loc [of q "n + unat (a - p)"] by simp
  then show ?thesis using n(2) assms(2,4) by simp
qed

lemma cache_inv_metadata:
  assumes inv: "cache_inv m c sz mx ss" and p: "p \<in> bufs sz r" "r \<in> fst ` set ss" "p \<notin> set (free_bufs ss)"
  shows "cache_inv (store16 m p v) c sz mx ss"
proof -
  have ps: "pool_shape c sz mx ss" using inv by (simp add: cache_inv_def)
  have sz: "16 \<le> sz" using ps by (simp add: pool_shape_def)
  have "load64 (store16 m p v) a = load64 m a" if "a \<in> footprint c ss" for a
    using separate_mono [OF footprint_buf [OF ps that p], of 8 2] sz by (intro load64_store16_separate) simp
  then show ?thesis using cache_inv_cong [of c ss "store16 m p v" m] inv by blast
qed

lemma store16_outside: "\<not> unat (a - p) < 10 \<Longrightarrow> store16 m p v a = m a"
  by (simp add: access_defs store_word_def)

lemma slab_cache_at_ok: "heap_inv s H \<Longrightarrow> i < 6 \<Longrightarrow> H ! i = (c, mx, ss) \<Longrightarrow> slab_cache_at s i = Inr (loc c 0)"
  by (auto simp: heap_inv_def slab_cache_at_def pool_inv_def)

lemma metadata_of_nat: "i < 6 \<Longrightarrow> unat (of_int (int i) :: u16) = i"
  by (simp add: unat_of_nat)

lemma malloc_small:
  assumes inv: "heap_inv s H" and n: "unat n \<le> 510" and i: "i = block_index (unat n + 2)" "H ! i = (c, mx, ss)"
    and pop: "pool_alloc ss = Some (p, ss')"
  shows "\<exists>m. malloc s n = Some (Inr (p + 2 + HEAP_START_ADDR, s\<lparr>kmem := m\<rparr>))
    \<and> heap_inv (s\<lparr>kmem := m\<rparr>) (H[i := (c, mx, ss')]) \<and> metadata_size m p = of_nat i
    \<and> (\<forall>a. unat a div 4096 \<notin> pool_pages (H ! i) \<longrightarrow> m a = kmem s a)"
proof -
  have n2: "unat (n + 2) = unat n + 2" using n by (simp add: unat_word_ariths)
  have le: "unat (n + 2) \<le> 512" using n n2 by simp
  have r: "round_alloc_size (n + 2) = 16 * 2 ^ i" "i < 6"
    using round_alloc_size_small [OF le] i(1) n2 by simp_all
  have pinv: "pool_inv (kmem s) (slab_caches s ! i) (16 * 2 ^ i) (c, mx, ss)" using inv r(2) i(2) by (auto simp: heap_inv_def)
  then have cinv: "cache_inv (kmem s) c (16 * 2 ^ i) mx ss" by (simp add: pool_inv_def)
  note d = pool_alloc_SomeD [OF pop]
  obtain m1 where a: "slab_cache_alloc s (loc c 0) MALLOC_FLAGS = Some (Inr (p, s\<lparr>kmem := m1\<rparr>))"
      "cache_inv m1 c (16 * 2 ^ i) mx ss'" "pool_frame c ss {} (kmem s) m1"
    using slab_cache_alloc_spec [OF cinv, of MALLOC_FLAGS] pop by (auto simp: MALLOC_FLAGS_def)
  define m where "m = store16 m1 p (of_int (int i))"
  have ps: "pool_shape c (16 * 2 ^ i) mx ss" using cinv by (simp add: cache_inv_def)
  have pin: "p \<in> set (free_bufs ss)" using d by simp
  obtain q where q: "q \<in> fst ` set ss" "p \<in> bufs (16 * 2 ^ i) q" using ps pin unfolding pool_shape_def by blast
  have qb: "q < 2 ^ 31" "0 < q" using ps q(1) by (auto simp: pool_shape_def)
  have "p AND 0xFFF \<noteq> 0" using pinv pin unfolding pool_inv_def by blast
  then have p0: "p \<noteq> 0" by auto
  have "distinct (free_bufs ss)" using ps by (simp add: pool_shape_def)
  then have pout: "p \<notin> set (free_bufs ss')" using d by simp
  have q': "q \<in> fst ` set ss'" using q(1) d by (metis list.set_map)
  have "cache_inv m c (16 * 2 ^ i) mx ss'" unfolding m_def by (rule cache_inv_metadata [OF a(2) q(2) q' pout])
  moreover have "x AND 0xFFF \<noteq> 0" if "x \<in> set (free_bufs ss')" for x
  proof -
    have "x \<in> set (free_bufs ss)" using that d by simp
    then show ?thesis using pinv unfolding pool_inv_def by blast
  qed
  ultimately have new: "pool_inv m (slab_caches s ! i) (16 * 2 ^ i) (c, mx, ss')"
    using pinv unfolding pool_inv_def by blast
  have frame: "m a = kmem s a" if "unat a div 4096 \<notin> pool_pages (H ! i)" for a
  proof -
    have "\<not> unat (a - p) < 10" using buf_bytes_page [OF q(2) _ qb(1), of a] that q(1) i(2) by (auto simp: pool_pages_def)
    then have "m a = m1 a" unfolding m_def by (rule store16_outside)
    also have "\<dots> = kmem s a" using pool_frame_pages [OF a(3)] that i(2) by simp
    finally show ?thesis .
  qed
  have "malloc s n = Some (Inr (p + 2 + HEAP_START_ADDR, s\<lparr>kmem := m\<rparr>))"
    using r size_to_index_block [OF r(2)] slab_cache_at_ok [OF inv r(2) i(2)] a(1) p0
    by (simp add: malloc_def sizeof_malloc_metadata_t_def set_metadata_size_def m_def)
  moreover have "heap_inv (s\<lparr>kmem := m\<rparr>) (H[i := (c, mx, ss')])"
    using heap_inv_step [OF inv r(2) i(2) frame new] d by simp
  moreover have "metadata_size m p = of_nat i" by (simp add: metadata_size_def m_def)
  ultimately show ?thesis using frame by blast
qed

text \<open>\<open>free\<close> of a buffer needs only its own cache to be well formed.\<close>

lemma free_pool:
  fixes s :: "'a heap_state_scheme"
  assumes i: "i < 6" "length (slab_caches s) = 6" and pinv: "pool_inv (kmem s) (slab_caches s ! i) (16 * 2 ^ i) (c, mx, ss)"
    and meta: "metadata_size (kmem s) p = of_nat i"
    and p: "p \<in> bufs (16 * 2 ^ i) r" "r \<in> fst ` set ss" "p \<notin> set (free_bufs ss)" "p AND 0xFFF \<noteq> 0"
    and push: "pool_free mx p ss = Some ss'" and nz: "p + 2 + HEAP_START_ADDR \<noteq> 0"
  shows "\<exists>m. free s (p + 2 + HEAP_START_ADDR) = Some (Inr (s\<lparr>kmem := m\<rparr>)) \<and> pool_inv m (slab_caches s ! i) (16 * 2 ^ i) (c, mx, ss')
    \<and> (\<forall>a. unat a div 4096 \<notin> pool_pages (c, mx, ss) \<longrightarrow> m a = kmem s a)"
proof -
  have cinv: "cache_inv (kmem s) c (16 * 2 ^ i) mx ss" and at: "slab_cache_at s i = Inr (loc c 0)"
    using pinv i by (simp_all add: pool_inv_def slab_cache_at_def)
  have rb: "r < 2 ^ 31" using cinv p(2) by (auto simp: cache_inv_def pool_shape_def)
  note d = pool_free_SomeD [OF push]
  obtain m where m: "slab_cache_free s (loc c 0) p MALLOC_FLAGS = Some (Inr (s\<lparr>kmem := m\<rparr>))"
      "cache_inv m c (16 * 2 ^ i) mx ss'" "pool_frame c ss {a. unat (a - p) < 10} (kmem s) m"
    using slab_cache_free_spec [OF cinv p(1-3), of MALLOC_FLAGS] push by auto
  have frame: "m a = kmem s a" if "unat a div 4096 \<notin> pool_pages (c, mx, ss)" for a
  proof (rule pool_frame_pages [OF m(3) _ that])
    fix b assume "b \<in> {a. unat (a - p) < 10}"
    then have "unat b div 4096 = r" using buf_bytes_page [OF p(1) _ rb] by simp
    with p(2) show "unat b div 4096 \<in> fst ` set ss" by simp
  qed
  have al: "x AND 0xFFF \<noteq> 0" if "x \<in> set (free_bufs ss')" for x
  proof -
    have "x \<in># add_mset p (mset (free_bufs ss))" using that d by (metis set_mset_mset)
    then have "x = p \<or> x \<in> set (free_bufs ss)" by simp
    then show ?thesis using p(4) pinv unfolding pool_inv_def by blast
  qed
  have "pool_inv m (slab_caches s ! i) (16 * 2 ^ i) (c, mx, ss')"
    unfolding pool_inv_def prod.case using pinv m(2) al by (simp add: pool_inv_def)
  moreover have "free s (p + 2 + HEAP_START_ADDR) = Some (Inr (s\<lparr>kmem := m\<rparr>))"
    using nz p(4) meta m(1) at metadata_of_nat [OF i(1)] by (simp add: free_def sizeof_malloc_metadata_t_def)
  ultimately show ?thesis using frame by blast
qed

lemma free_small:
  assumes inv: "heap_inv s H" and i: "i < 6" "H ! i = (c, mx, ss)" and meta: "metadata_size (kmem s) p = of_nat i"
    and p: "p \<in> bufs (16 * 2 ^ i) r" "r \<in> fst ` set ss" "p \<notin> set (free_bufs ss)" "p AND 0xFFF \<noteq> 0"
    and push: "pool_free mx p ss = Some ss'" and nz: "p + 2 + HEAP_START_ADDR \<noteq> 0"
  shows "\<exists>m. free s (p + 2 + HEAP_START_ADDR) = Some (Inr (s\<lparr>kmem := m\<rparr>)) \<and> heap_inv (s\<lparr>kmem := m\<rparr>) (H[i := (c, mx, ss')])
    \<and> (\<forall>a. unat a div 4096 \<notin> pool_pages (H ! i) \<longrightarrow> m a = kmem s a)"
proof -
  have pinv: "pool_inv (kmem s) (slab_caches s ! i) (16 * 2 ^ i) (c, mx, ss)" "length (slab_caches s) = 6"
    using inv i by (auto simp: heap_inv_def)
  obtain m where m: "free s (p + 2 + HEAP_START_ADDR) = Some (Inr (s\<lparr>kmem := m\<rparr>))" "pool_inv m (slab_caches s ! i) (16 * 2 ^ i) (c, mx, ss')"
      "\<And>a. unat a div 4096 \<notin> pool_pages (H ! i) \<Longrightarrow> m a = kmem s a"
    using free_pool [OF i(1) pinv(2,1) meta p push nz] i(2) by auto
  show ?thesis using heap_inv_step [OF inv i m(3,2)] pool_free_SomeD [OF push] m(1,3) by blast
qed

section \<open>Building the heap\<close>

text \<open>The first \<open>n\<close> caches are in place; their pages have been handed out.\<close>

definition heap_upto :: "nat \<Rightarrow> 'a heap_state_scheme \<Rightarrow> pool list \<Rightarrow> bool" where
  "heap_upto n s H \<longleftrightarrow> length H = n \<and> length (slab_caches s) = 6 \<and> pmm_wf s
     \<and> (\<forall>i<n. pool_inv (kmem s) (slab_caches s ! i) (16 * 2 ^ i) (H ! i) \<and> pool_pages (H ! i) \<inter> pmm_free_pages s = {})
     \<and> (\<forall>i<n. \<forall>j<n. i \<noteq> j \<longrightarrow> pool_pages (H ! i) \<inter> pool_pages (H ! j) = {})"

definition fresh_pool :: "nat \<Rightarrow> nat \<Rightarrow> nat \<Rightarrow> pool" where
  "fresh_pool c q sz = (c, 4056 div sz - 1, [(q, map (\<lambda>k. loc q (k * sz)) [1..<4056 div sz])])"

lemma pool_inv_off_pages:
  assumes "pool_inv m cache sz P" "off_pages X m m'" "X \<inter> pool_pages P = {}"
  shows "pool_inv m' cache sz P"
proof -
  obtain c mx ss where P: "P = (c, mx, ss)" by (cases P)
  have "cache_inv m' c sz mx ss" if "cache_inv m c sz mx ss"
    by (rule cache_inv_page_cong [OF that]) (use assms(2,3) P in \<open>auto simp: off_pages_def\<close>)
  then show ?thesis using assms(1) unfolding P pool_inv_def prod.case by blast
qed

lemma pow_16: "(16 :: nat) * 2 ^ i = 2 ^ (4 + i)" "(16 :: u64) * 2 ^ i = 2 ^ (4 + i)"
  by (simp_all add: power_add)

lemma heap_upto_Suc:
  assumes inv: "heap_upto n s H" and n: "n < 6" and two: "1 < card (pmm_free_pages s)"
  shows "\<exists>c q t. slab_cache_create s name (16 * 2 ^ n) HEAP_FLAGS = Inr (loc c 0, t)
    \<and> heap_upto (Suc n) (t\<lparr>slab_caches := (slab_caches t)[n := loc c 0]\<rparr>) (H @ [fresh_pool c q (16 * 2 ^ n)])
    \<and> card (pmm_free_pages t) = card (pmm_free_pages s) - 2 \<and> {c, q} \<subseteq> pmm_free_pages s \<and> pmm_free_pages t \<subseteq> pmm_free_pages s"
proof -
  have wf: "pmm_wf s" using inv by (simp add: heap_upto_def)
  have "4 \<le> 4 + n" "4 + n \<le> 9" using n by simp_all
  from slab_cache_create_ok [OF wf two this, of 1 HEAP_FLAGS name] obtain c q t where
    t: "{c, q} \<subseteq> pmm_free_pages s" "c \<noteq> q" "slab_cache_create s name (2 ^ (4 + n)) HEAP_FLAGS = Inr (loc c 0, t)"
      "pmm_wf t" "pmm_free_pages t = pmm_free_pages s - {c, q}"
      "cache_inv (kmem t) c (2 ^ (4 + n)) (4056 div 2 ^ (4 + n) - 1) [(q, map (\<lambda>i. loc q (i * 2 ^ (4 + n))) [1..<4056 div 2 ^ (4 + n)])]"
      "off_pages {c, q} (kmem s) (kmem t)"
      "t = s\<lparr>kmem := kmem t, pmm_bitmap := pmm_bitmap t, used_pages_count := used_pages_count t\<rparr>"
    by auto
  have caches: "slab_caches t = slab_caches s" by (subst t(8)) simp
  let ?P = "fresh_pool c q (2 ^ (4 + n))" and ?t = "t\<lparr>slab_caches := (slab_caches t)[n := loc c 0]\<rparr>"
  have PP: "pool_pages ?P = {c, q}" by (simp add: fresh_pool_def pool_pages_def)
  have q31: "q < 2 ^ 31" using t(6) by (auto simp: cache_inv_def pool_shape_def)
  have "x AND 0xFFF \<noteq> 0" if x: "x \<in> set (map (\<lambda>i. loc q (i * 2 ^ (4 + n))) [1..<4056 div 2 ^ (4 + n)])" for x
  proof -
    obtain k where k: "x = loc q (k * 2 ^ (4 + n))" "1 \<le> k" "k < 4056 div 2 ^ (4 + n)" using x by auto
    have "(16 :: nat) \<le> 2 ^ (4 + n)" by (simp add: power_add)
    note off = buf_offsets(1) [OF k(3) this]
    then have "k * 2 ^ (4 + n) < 4096" by linarith
    from loc_page_aligned [OF q31 this] k(1,2) show ?thesis by simp
  qed
  then have new: "pool_inv (kmem t) (loc c 0) (2 ^ (4 + n)) ?P"
    using t(6) unfolding fresh_pool_def pool_inv_def by simp
  have old: "pool_inv (kmem t) (slab_caches s ! i) (16 * 2 ^ i) (H ! i)" "pool_pages (H ! i) \<inter> pmm_free_pages t = {}"
      "pool_pages (H ! i) \<inter> {c, q} = {}" if "i < n" for i
  proof -
    have i: "pool_inv (kmem s) (slab_caches s ! i) (16 * 2 ^ i) (H ! i)" "pool_pages (H ! i) \<inter> pmm_free_pages s = {}"
      using inv that by (auto simp: heap_upto_def)
    then show d: "pool_pages (H ! i) \<inter> {c, q} = {}" "pool_pages (H ! i) \<inter> pmm_free_pages t = {}" using t(1,5) by blast+
    show "pool_inv (kmem t) (slab_caches s ! i) (16 * 2 ^ i) (H ! i)"
      by (rule pool_inv_off_pages [OF i(1) t(7)]) (use d in blast)
  qed
  have lenH: "length H = n" "length (slab_caches s) = 6" using inv by (simp_all add: heap_upto_def)
  have "heap_upto (Suc n) ?t (H @ [?P])" unfolding heap_upto_def
  proof (intro conjI allI impI)
    fix i assume i: "i < Suc n"
    show "pool_inv (kmem ?t) (slab_caches ?t ! i) (16 * 2 ^ i) ((H @ [?P]) ! i)"
      using old(1) [of i] new i n lenH by (cases "i = n") (simp_all add: nth_append caches pow_16)
    show "pool_pages ((H @ [?P]) ! i) \<inter> pmm_free_pages ?t = {}"
      using old(2) [of i] i n lenH PP t(5) by (cases "i = n") (auto simp: nth_append pmm_free_pages_def pmm_pages_def pmm_used_def)
    fix j assume j: "j < Suc n" "i \<noteq> j"
    have "pool_pages (H ! i) \<inter> pool_pages (H ! j) = {}" if "i < n" "j < n" using inv that j(2) by (simp add: heap_upto_def)
    then show "pool_pages ((H @ [?P]) ! i) \<inter> pool_pages ((H @ [?P]) ! j) = {}"
      using old(3) [of i] old(3) [of j] i j lenH PP by (cases "i = n"; cases "j = n") (auto simp: nth_append)
  qed (use lenH t(4) in \<open>simp_all add: caches pmm_wf_def pmm_inv_def pmm_counter_ok_def pmm_used_def pmm_free_pages_def pmm_pages_def\<close>)
  moreover have "card (pmm_free_pages t) = card (pmm_free_pages s) - 2"
    using t(1,2,5) by (simp add: card_Diff_subset)
  ultimately show ?thesis using t(1,3,5) unfolding pow_16 by blast
qed

lemma malloc_heap_init_steps:
  assumes "heap_upto n s H" "n \<le> 6" "2 * (6 - n) \<le> card (pmm_free_pages s)"
  shows "\<exists>t G. rfold (\<lambda>(i, sz) s. rbind (slab_cache_create s (names i) sz HEAP_FLAGS) (\<lambda>(cache, s).
         Inr (s\<lparr>slab_caches := (slab_caches s)[i := cache]\<rparr>))) (map (\<lambda>i. (i, 16 * 2 ^ i)) [n..<6]) s = Inr t
    \<and> heap_upto 6 t (H @ G) \<and> length G = 6 - n
    \<and> (\<forall>i<6 - n. \<exists>c q. G ! i = fresh_pool c q (16 * 2 ^ (n + i)) \<and> {c, q} \<subseteq> pmm_free_pages s)
    \<and> card (pmm_free_pages t) + 2 * (6 - n) = card (pmm_free_pages s)"
  using assms
proof (induction "6 - n" arbitrary: n s H)
  case 0
  then have n: "n = 6" by simp
  with 0 show ?case by (intro exI [of _ s] exI [of _ "[]"]) simp
next
  case (Suc k)
  then have n: "n < 6" by simp
  have "1 < card (pmm_free_pages s)" using Suc.prems(3) n by simp
  from heap_upto_Suc [OF Suc.prems(1) n this, of "names n"] obtain c q u where
    u: "slab_cache_create s (names n) (16 * 2 ^ n) HEAP_FLAGS = Inr (loc c 0, u)"
      "heap_upto (Suc n) (u\<lparr>slab_caches := (slab_caches u)[n := loc c 0]\<rparr>) (H @ [fresh_pool c q (16 * 2 ^ n)])"
      "card (pmm_free_pages u) = card (pmm_free_pages s) - 2" "{c, q} \<subseteq> pmm_free_pages s" "pmm_free_pages u \<subseteq> pmm_free_pages s" by blast
  define v where "v = u\<lparr>slab_caches := (slab_caches u)[n := loc c 0]\<rparr>"
  have free: "pmm_free_pages v = pmm_free_pages u" by (simp add: v_def pmm_free_pages_def pmm_pages_def pmm_used_def)
  then have "card (pmm_free_pages v) = card (pmm_free_pages s) - 2" using u(3) by simp
  then have "2 * (6 - Suc n) \<le> card (pmm_free_pages v)" using Suc.prems(3) n by linarith
  moreover have "k = 6 - Suc n" "Suc n \<le> 6" using Suc.hyps(2) n by linarith+
  ultimately obtain t G where
    t: "rfold (\<lambda>(i, sz) s. rbind (slab_cache_create s (names i) sz HEAP_FLAGS) (\<lambda>(cache, s).
         Inr (s\<lparr>slab_caches := (slab_caches s)[i := cache]\<rparr>))) (map (\<lambda>i. (i, 16 * 2 ^ i)) [Suc n..<6]) v = Inr t"
      "heap_upto 6 t ((H @ [fresh_pool c q (16 * 2 ^ n)]) @ G)" "length G = 6 - Suc n"
      "\<forall>i<6 - Suc n. \<exists>c q. G ! i = fresh_pool c q (16 * 2 ^ (Suc n + i)) \<and> {c, q} \<subseteq> pmm_free_pages v" "card (pmm_free_pages t) + 2 * (6 - Suc n) = card (pmm_free_pages v)"
    using Suc.hyps(1) [OF _ u(2) [folded v_def]] by blast
  have split: "[n..<6] = n # [Suc n..<6]" using n by (rule upt_conv_Cons)
  have "\<exists>c' q'. (fresh_pool c q (16 * 2 ^ n) # G) ! i = fresh_pool c' q' (16 * 2 ^ (n + i)) \<and> {c', q'} \<subseteq> pmm_free_pages s"
    if i: "i < 6 - n" for i
  proof (cases i)
    case 0
    then show ?thesis using u(4) by auto
  next
    case (Suc k)
    then have "k < 6 - Suc n" using i by linarith
    with t(4) obtain c' q' where "G ! k = fresh_pool c' q' (16 * 2 ^ (Suc n + k))" "{c', q'} \<subseteq> pmm_free_pages v" by meson
    then show ?thesis using Suc u(5) free by auto
  qed
  moreover have "card (pmm_free_pages t) + 2 * (6 - n) = card (pmm_free_pages s)" using t(5) u(3) free Suc.prems(3) n by simp
  ultimately show ?case
    using t(1-3) u(1) n by (intro exI [of _ t] exI [of _ "fresh_pool c q (16 * 2 ^ n) # G"]) (simp add: split v_def)
qed

lemma heap_init_list:
  "[(0, 16), (1, 32), (2, 64), (3, 128), (4, 256), (5, 512)] = map (\<lambda>i. (i, 16 * 2 ^ i :: u64)) [0..<6 :: nat]"
  by (simp add: upt_rec)

lemma heap_upto_heap_inv: "heap_upto 6 s H \<Longrightarrow> heap_inv s H"
  by (simp add: heap_upto_def heap_inv_def)

lemma malloc_heap_init_ok:
  assumes "pmm_wf s" "12 \<le> card (pmm_free_pages s)"
  shows "\<exists>t H. malloc_heap_init names s = Inr t \<and> heap_inv t H \<and> pmm_wf t
    \<and> (\<forall>i<6. \<exists>c q. H ! i = fresh_pool c q (16 * 2 ^ i) \<and> {c, q} \<subseteq> pmm_free_pages s)
    \<and> (\<forall>i<6. pool_pages (H ! i) \<inter> pmm_free_pages t = {}) \<and> card (pmm_free_pages t) + 12 = card (pmm_free_pages s)"
proof -
  define s0 where "s0 = s\<lparr>slab_caches := replicate 6 0\<rparr>"
  have "heap_upto 0 s0 []" "12 \<le> card (pmm_free_pages s0)" and free: "pmm_free_pages s0 = pmm_free_pages s"
    using assms by (simp_all add: s0_def heap_upto_def pmm_wf_def pmm_inv_def pmm_counter_ok_def pmm_used_def
        pmm_free_pages_def pmm_pages_def)
  from malloc_heap_init_steps [OF this(1), of names] this(2) obtain t G where
    "malloc_heap_init names s = Inr t" "heap_upto 6 t G"
    "\<forall>i<6. \<exists>c q. G ! i = fresh_pool c q (16 * 2 ^ i) \<and> {c, q} \<subseteq> pmm_free_pages s" "card (pmm_free_pages t) + 12 = card (pmm_free_pages s)"
    unfolding malloc_heap_init_def heap_init_list free [symmetric] unfolding s0_def by auto
  moreover from this have "heap_inv t G" "pmm_wf t" "\<forall>i<6. pool_pages (G ! i) \<inter> pmm_free_pages t = {}"
    using heap_upto_heap_inv by (auto simp: heap_upto_def)
  ultimately show ?thesis by blast
qed

text \<open>What the initialisation leaves alone.\<close>

lemma heap_init_frame:
  fixes s t :: "'a heap_state_scheme"
  assumes "rfold (\<lambda>(i, sz) s. rbind (slab_cache_create s (names i) sz HEAP_FLAGS) (\<lambda>(cache, s).
         Inr (s\<lparr>slab_caches := (slab_caches s)[i := cache]\<rparr>))) is s = Inr t"
    and "pmm_wf s" "2 * length is \<le> card (pmm_free_pages s)" "\<forall>x\<in>set is. \<exists>k. 4 \<le> k \<and> k \<le> 9 \<and> snd x = 2 ^ k"
  shows "off_pages (pmm_free_pages s) (kmem s) (kmem t) \<and> pmm_free_pages t \<subseteq> pmm_free_pages s \<and> pmm_pages t = pmm_pages s
    \<and> root_page_table t = root_page_table s \<and> cr3 t = cr3 s"
  using assms
proof (induction "is" arbitrary: s)
  case (Cons x "is")
  obtain i sz where x: "x = (i, sz)" by (cases x)
  obtain k where k: "4 \<le> k" "k \<le> 9" "sz = 2 ^ k" using Cons.prems(4) x by auto
  have "1 < card (pmm_free_pages s)" using Cons.prems(3) by simp
  from slab_cache_create_ok [OF Cons.prems(2) this k(1,2) refl, of "names i" HEAP_FLAGS] obtain c q u where
    u: "{c, q} \<subseteq> pmm_free_pages s" "c \<noteq> q" "slab_cache_create s (names i) sz HEAP_FLAGS = Inr (loc c 0, u)" "pmm_wf u"
      "pmm_pages u = pmm_pages s" "pmm_free_pages u = pmm_free_pages s - {c, q}" "off_pages {c, q} (kmem s) (kmem u)"
    and eq: "u = s\<lparr>kmem := kmem u, pmm_bitmap := pmm_bitmap u, used_pages_count := used_pages_count u\<rparr>"
    unfolding k(3) by blast
  have regs: "root_page_table u = root_page_table s" "cr3 u = cr3 s"
    using arg_cong [OF eq, of root_page_table] arg_cong [OF eq, of cr3] by simp_all
  define v where "v = u\<lparr>slab_caches := (slab_caches u)[i := loc c 0]\<rparr>"
  have v: "pmm_wf v" "pmm_free_pages v = pmm_free_pages s - {c, q}" "pmm_pages v = pmm_pages s" "kmem v = kmem u"
      "root_page_table v = root_page_table s" "cr3 v = cr3 s"
    using u(4-6) regs by (simp_all add: v_def pmm_wf_def pmm_inv_def pmm_counter_ok_def pmm_used_def pmm_free_pages_def pmm_pages_def)
  have "card (pmm_free_pages v) = card (pmm_free_pages s) - 2" using u(1,2) v(2) by (simp add: card_Diff_subset)
  then have "2 * length is \<le> card (pmm_free_pages v)" using Cons.prems(3) by simp
  moreover have "rfold (\<lambda>(i, sz) s. rbind (slab_cache_create s (names i) sz HEAP_FLAGS) (\<lambda>(cache, s).
         Inr (s\<lparr>slab_caches := (slab_caches s)[i := cache]\<rparr>))) is v = Inr t"
    using Cons.prems(1) u(3) x by (simp add: v_def)
  ultimately have "off_pages (pmm_free_pages v) (kmem v) (kmem t) \<and> pmm_free_pages t \<subseteq> pmm_free_pages v \<and> pmm_pages t = pmm_pages v
    \<and> root_page_table t = root_page_table v \<and> cr3 t = cr3 v"
    using Cons.IH [of v] v(1) Cons.prems(4) by simp
  then show ?case using u(1,7) v by (auto simp: off_pages_def)
qed simp

lemma malloc_heap_init_frame:
  fixes s t :: "'a heap_state_scheme"
  assumes "malloc_heap_init names s = Inr t" "pmm_wf s" "12 \<le> card (pmm_free_pages s)"
  shows "off_pages (pmm_free_pages s) (kmem s) (kmem t)" "pmm_free_pages t \<subseteq> pmm_free_pages s" "pmm_pages t = pmm_pages s"
    "root_page_table t = root_page_table s" "cr3 t = cr3 s"
proof -
  let ?s = "s\<lparr>slab_caches := replicate 6 0\<rparr>"
  have s: "pmm_wf ?s" "pmm_free_pages ?s = pmm_free_pages s" "pmm_pages ?s = pmm_pages s"
    using assms(2) by (simp_all add: pmm_wf_def pmm_inv_def pmm_counter_ok_def pmm_used_def pmm_free_pages_def pmm_pages_def)
  have k: "\<exists>k. 4 \<le> k \<and> k \<le> 9 \<and> (16 * 2 ^ i :: u64) = 2 ^ k" if "i < 6" for i
    using that by (intro exI [of _ "4 + i"]) (simp add: power_add)
  show "off_pages (pmm_free_pages s) (kmem s) (kmem t)" "pmm_free_pages t \<subseteq> pmm_free_pages s" "pmm_pages t = pmm_pages s"
    "root_page_table t = root_page_table s" "cr3 t = cr3 s"
    using heap_init_frame [OF assms(1) [unfolded malloc_heap_init_def heap_init_list] s(1)] assms(3) k s(2,3)
    by (auto simp del: upt_rec_numeral)
qed

lemma fresh_pool_alloc:
  assumes "1 < 4056 div sz"
  shows "\<exists>ss. pool_alloc (snd (snd (fresh_pool c q sz))) = Some (loc q sz, ss)"
  using assms by (simp add: fresh_pool_def upt_conv_Cons)

lemma malloc_small_bounds: "block_index (n + 2) < 6" if "n \<le> 510" for n
  using block_index_least [of "n + 2" 5] that by simp

text \<open>A machine with an initialised heap, for the examples.\<close>

definition example_heap_machine :: heap_state where
  "example_heap_machine = vmm_state.extend example_machine \<lparr>slab_caches = []\<rparr>"

lemma example_heap_frames:
  shows "pmm_wf example_heap_machine" "pmm_free_pages example_heap_machine = {2..<2 ^ 24}" "12 \<le> card (pmm_free_pages example_heap_machine)"
proof -
  have "pmm_wf example_machine" using example_machine_inv by (simp add: vmm_inv_def)
  then show "pmm_wf example_heap_machine"
    by (simp add: example_heap_machine_def pmm_wf_def pmm_inv_def pmm_counter_ok_def pmm_free_pages_def pmm_pages_def
        pmm_used_def vmm_state.defs example_machine_def)
  have "pmm_free_pages example_heap_machine = pmm_free_pages example_machine"
    by (simp add: example_heap_machine_def pmm_free_pages_def pmm_pages_def pmm_used_def vmm_state.defs example_machine_def)
  then show "pmm_free_pages example_heap_machine = {2..<2 ^ 24}" "12 \<le> card (pmm_free_pages example_heap_machine)"
    by (simp_all add: example_machine_free)
qed

lemma example_heap:
  "\<exists>t H. malloc_heap_init (\<lambda>_. 0) example_heap_machine = Inr t \<and> heap_inv t H \<and> pmm_wf t
    \<and> (\<forall>i<6. \<exists>c q. H ! i = fresh_pool c q (16 * 2 ^ i) \<and> {c, q} \<subseteq> pmm_free_pages example_heap_machine)
    \<and> (\<forall>i<6. pool_pages (H ! i) \<inter> pmm_free_pages t = {}) \<and> card (pmm_free_pages t) + 12 = card (pmm_free_pages example_heap_machine)"
  by (rule malloc_heap_init_ok [OF example_heap_frames(1,3)])

section \<open>Properties\<close>

text \<open>\<open>next_power_of_two\<close> computes the least power of two that is at least its argument and 16,
  for every argument up to \<open>2^31\<close>.\<close>

theorem next_power_of_two_least:
  assumes "unat n \<le> 2 ^ 31"
  shows "\<exists>k. unat (next_power_of_two n) = 2 ^ k \<and> 16 \<le> (2 :: nat) ^ k \<and> unat n \<le> 2 ^ k
    \<and> (\<forall>j. 16 \<le> (2 :: nat) ^ j \<longrightarrow> unat n \<le> 2 ^ j \<longrightarrow> k \<le> j)"
proof (cases "n \<le> 16")
  case True
  have "4 \<le> j" if "16 \<le> (2 :: nat) ^ j" for j
    using that power_strict_increasing [of j 4 "2 :: nat"] by (cases "j < 4") auto
  with True show ?thesis by (intro exI [of _ 4]) (simp add: next_power_of_two_def word_le_nat_alt)
next
  case False
  then have n: "16 < unat n" by (simp add: word_le_nat_alt)
  define k where "k = (LEAST k. unat n \<le> 2 ^ k)"
  have fits: "unat n \<le> 2 ^ k" unfolding k_def by (rule LeastI [of _ 31]) (rule assms)
  have least: "k \<le> j" if "unat n \<le> 2 ^ j" for j unfolding k_def using that by (rule Least_le)
  have "4 < k"
  proof (rule ccontr)
    assume "\<not> 4 < k"
    then have "(2 :: nat) ^ k \<le> 2 ^ 4" by (intro power_increasing) simp_all
    with fits n show False by simp
  qed
  then obtain h where h: "k = Suc h" "4 \<le> h" by (cases k) auto
  have "\<not> unat n \<le> 2 ^ h" using least [of h] h(1) by auto
  moreover have "h < 31" using least [OF assms] h(1) by simp
  ultimately have "next_power_of_two n = 2 ^ k"
    using next_power_of_two_between [of h n] h fits by simp
  moreover have "(2 :: nat) ^ k < 2 ^ 32" using \<open>h < 31\<close> h(1) by (intro power_strict_increasing) simp_all
  then have "unat (2 ^ k :: u32) = 2 ^ k" using unat_add_of_nat [of "0 :: u32" "2 ^ k"] by simp
  moreover have "(2 :: nat) ^ 4 \<le> 2 ^ k" using h by (intro power_increasing) simp_all
  ultimately show ?thesis using fits least by (intro exI [of _ k]) simp
qed

theorem next_power_of_two_least_witness:
  "\<exists>k. unat (next_power_of_two 100) = 2 ^ k \<and> 16 \<le> (2 :: nat) ^ k \<and> unat (100 :: u32) \<le> 2 ^ k
    \<and> (\<forall>j. 16 \<le> (2 :: nat) ^ j \<longrightarrow> unat (100 :: u32) \<le> 2 ^ j \<longrightarrow> k \<le> j)"
  by (rule next_power_of_two_least) simp

text \<open>A request of up to 510 bytes is served from the first cache whose buffers hold it together
  with the two bytes of metadata: the block gets the first free buffer of that cache, the heap
  stays well formed and no byte outside the pages of that cache changes.\<close>

theorem malloc_small_block:
  assumes "heap_inv s H" and "unat n \<le> 510" and "i = block_index (unat n + 2)" and "H ! i = (c, mx, ss)"
    and "pool_alloc ss = Some (p, ss')"
  shows "\<exists>t. malloc s n = Some (Inr (p + 2 + HEAP_START_ADDR, t)) \<and> heap_inv t (H[i := (c, mx, ss')])
    \<and> metadata_size (kmem t) p = of_nat i \<and> unat n + 2 \<le> 16 * 2 ^ i
    \<and> (\<forall>a. unat a div 4096 \<notin> pool_pages (H ! i) \<longrightarrow> kmem t a = kmem s a)"
proof -
  obtain m where "malloc s n = Some (Inr (p + 2 + HEAP_START_ADDR, s\<lparr>kmem := m\<rparr>))"
      "heap_inv (s\<lparr>kmem := m\<rparr>) (H[i := (c, mx, ss')])" "metadata_size m p = of_nat i"
      "\<forall>a. unat a div 4096 \<notin> pool_pages (H ! i) \<longrightarrow> m a = kmem s a"
    using malloc_small [OF assms] by blast
  then show ?thesis using block_index_fits [of "unat n + 2"] assms(3)
    by (intro exI [of _ "s\<lparr>kmem := m\<rparr>"]) simp
qed

theorem malloc_small_block_witness:
  "\<exists>s H q t. malloc_heap_init (\<lambda>_. 0) example_heap_machine = Inr s \<and> heap_inv s H
    \<and> malloc s 100 = Some (Inr (loc q 128 + 2 + HEAP_START_ADDR, t)) \<and> metadata_size (kmem t) (loc q 128) = 3"
proof -
  obtain s H where s: "malloc_heap_init (\<lambda>_. 0) example_heap_machine = Inr s" "heap_inv s H"
    "\<forall>i<6. \<exists>c q. H ! i = fresh_pool c q (16 * 2 ^ i)" using example_heap by meson
  have i: "block_index (unat (100 :: u64) + 2) = 3"
    unfolding block_index_def by (rule Least_equality) (simp, rule ccontr, auto simp: not_le less_Suc_eq numeral_3_eq_3)
  obtain c q where "H ! 3 = fresh_pool c q 128" using s(3) [rule_format, of 3] by auto
  moreover obtain ss' where "pool_alloc (snd (snd (fresh_pool c q 128))) = Some (loc q 128, ss')"
    using fresh_pool_alloc [of 128 c q] by auto
  ultimately show ?thesis
    using malloc_small_block [OF s(2) _ i [symmetric], of c "4056 div 128 - 1" "snd (snd (fresh_pool c q 128))" "loc q 128" ss'] s(1,2)
    by (auto simp: fresh_pool_def)
qed

lemma pool_free_after_alloc:
  assumes "cache_inv m c sz mx ss" "pool_alloc ss = Some (p, ss')"
  shows "\<exists>ss''. pool_free mx p ss' = Some ss''"
proof (rule ccontr)
  assume "\<nexists>ss''. pool_free mx p ss' = Some ss''"
  then have full: "\<forall>x\<in>set ss'. mx \<le> length (snd x)" using pool_free_None_iff [of mx p ss'] by fastforce
  have "\<forall>x\<in>set ss. length (snd x) \<le> mx" using assms(1) by (auto simp: cache_inv_def slab_inv_def)
  with assms(2) full show False
    by (induction ss arbitrary: ss' rule: pool_alloc.induct) auto
qed

lemma heap_pointer_nonzero:
  assumes "p \<in> bufs sz q" "16 \<le> sz" "q < 2 ^ 31"
  shows "p + 2 + HEAP_START_ADDR \<noteq> 0"
proof
  assume z: "p + 2 + HEAP_START_ADDR = 0"
  obtain n where n: "p = loc q n" "n + sz \<le> 4056" by (rule bufsE [OF assms(1,2)])
  have "p + 2 = - HEAP_START_ADDR" using z by (simp add: eq_neg_iff_add_eq_0)
  then have "loc q (n + 2) = 0x700000000000" by (simp add: n(1) HEAP_START_ADDR_def)
  then have "unat (loc q (n + 2)) = 0x700000000000" by simp
  then show False using n(2) assms(2,3) by (simp add: unat_loc)
qed

text \<open>C4. Freeing the block just allocated gives the buffer back: the cache has the same free buffers
  as before and the heap is well formed.\<close>

theorem malloc_free_roundtrip:
  assumes "heap_inv s H" and "unat n \<le> 510" and "i = block_index (unat n + 2)" and "H ! i = (c, mx, ss)"
    and "free_bufs ss \<noteq> []"
  shows "\<exists>p t u ss''. malloc s n = Some (Inr (p, t)) \<and> p \<noteq> 0 \<and> free t p = Some (Inr u)
    \<and> heap_inv u (H[i := (c, mx, ss'')]) \<and> mset (free_bufs ss'') = mset (free_bufs ss)"
proof -
  have i6: "i < 6" using malloc_small_bounds [OF assms(2)] assms(3) by simp
  have pinv: "pool_inv (kmem s) (slab_caches s ! i) (16 * 2 ^ i) (c, mx, ss)" using assms(1,4) i6 by (auto simp: heap_inv_def)
  then have cinv: "cache_inv (kmem s) c (16 * 2 ^ i) mx ss" by (simp add: pool_inv_def)
  then have ps: "pool_shape c (16 * 2 ^ i) mx ss" by (simp add: cache_inv_def)
  obtain p ss' where a: "pool_alloc ss = Some (p, ss')" using pool_alloc_None_iff [of ss] assms(5) by fastforce
  note d = pool_alloc_SomeD [OF a]
  have pin: "p \<in> set (free_bufs ss)" using d by simp
  obtain q where q: "q \<in> fst ` set ss" "p \<in> bufs (16 * 2 ^ i) q" using ps pin unfolding pool_shape_def by blast
  have q31: "q < 2 ^ 31" using ps q(1) by (auto simp: pool_shape_def)
  have q': "q \<in> fst ` set ss'" using q(1) d by (metis list.set_map)
  have pout: "p \<notin> set (free_bufs ss')" using ps d by (simp add: pool_shape_def)
  have pal: "p AND 0xFFF \<noteq> 0" using pinv pin unfolding pool_inv_def by blast
  have "16 \<le> 16 * (2 :: nat) ^ i" using one_le_power [of "2 :: nat" i] by linarith
  then have nz: "p + 2 + HEAP_START_ADDR \<noteq> 0" by (rule heap_pointer_nonzero [OF q(2) _ q31])
  obtain m where m: "malloc s n = Some (Inr (p + 2 + HEAP_START_ADDR, s\<lparr>kmem := m\<rparr>))"
      "heap_inv (s\<lparr>kmem := m\<rparr>) (H[i := (c, mx, ss')])" "metadata_size m p = of_nat i"
    using malloc_small [OF assms(1-4) a] by blast
  obtain ss'' where f: "pool_free mx p ss' = Some ss''" using pool_free_after_alloc [OF cinv a] by blast
  have len: "length H = 6" using assms(1) by (simp add: heap_inv_def)
  have Hi: "H[i := (c, mx, ss')] ! i = (c, mx, ss')" using i6 len by simp
  have meta: "metadata_size (kmem (s\<lparr>kmem := m\<rparr>)) p = of_nat i" using m(3) by simp
  obtain m' where "free (s\<lparr>kmem := m\<rparr>) (p + 2 + HEAP_START_ADDR) = Some (Inr (s\<lparr>kmem := m\<rparr>\<lparr>kmem := m'\<rparr>))"
      "heap_inv (s\<lparr>kmem := m\<rparr>\<lparr>kmem := m'\<rparr>) (H[i := (c, mx, ss'), i := (c, mx, ss'')])"
    using free_small [OF m(2) i6 Hi meta q(2) q' pout pal f nz] by blast
  moreover have "mset (free_bufs ss'') = mset (free_bufs ss)" using pool_free_SomeD [OF f] d by simp
  ultimately show ?thesis using m(1) nz
    by (intro exI [of _ "p + 2 + HEAP_START_ADDR"] exI [of _ "s\<lparr>kmem := m\<rparr>"] exI [of _ "s\<lparr>kmem := m\<rparr>\<lparr>kmem := m'\<rparr>"] exI [of _ ss''])
      (simp only: list_update_overwrite, simp)
qed

theorem malloc_free_roundtrip_witness:
  "\<exists>s H p t u. malloc_heap_init (\<lambda>_. 0) example_heap_machine = Inr s \<and> heap_inv s H
    \<and> malloc s 0 = Some (Inr (p, t)) \<and> p \<noteq> 0 \<and> free t p = Some (Inr u)"
proof -
  obtain s H where s: "malloc_heap_init (\<lambda>_. 0) example_heap_machine = Inr s" "heap_inv s H"
    "\<forall>i<6. \<exists>c q. H ! i = fresh_pool c q (16 * 2 ^ i)" using example_heap by meson
  have "block_index 2 \<le> 0" by (rule block_index_least) simp
  then have i: "0 = block_index (unat (0 :: u64) + 2)" by (simp add: numeral_2_eq_2)
  obtain c q where H: "H ! 0 = fresh_pool c q 16" using s(3) [rule_format, of 0] by auto
  have "free_bufs (snd (snd (fresh_pool c q 16))) \<noteq> []" by (simp add: fresh_pool_def)
  with malloc_free_roundtrip [OF s(2) _ i, of c "4056 div 16 - 1" "snd (snd (fresh_pool c q 16))"] H s(1,2) show ?thesis
    by (simp add: fresh_pool_def) blast
qed

text \<open>\<open>realloc\<close> to the size of the whole buffer returns the old block unchanged, although the
  block behind the two bytes of metadata is two bytes shorter than what was asked for.\<close>

theorem realloc_same_size_too_small:
  assumes "i < 6" and "metadata_size (kmem s) p = of_nat i" and "p AND 0xFFF \<noteq> 0" and "p + 2 + HEAP_START_ADDR \<noteq> 0"
  shows "realloc s (p + 2 + HEAP_START_ADDR) (16 * 2 ^ i) = Some (Inr (p + 2 + HEAP_START_ADDR, s))"
proof -
  have "i \<in> {0, 1, 2, 3, 4, 5}" using assms(1) by auto
  then have u: "unat (16 * 2 ^ i :: u64) = 16 * 2 ^ i" "(16 * 2 ^ i :: u64) \<noteq> 0" "(ucast (of_nat i :: u16) :: u64) = of_nat i"
    "(16 :: nat) * 2 ^ i \<le> 512" "(of_int (16 * 2 ^ i) :: u64) = 16 * 2 ^ i" by auto
  have "block_index (16 * 2 ^ i) = i"
  proof (rule antisym)
    show "block_index (16 * 2 ^ i) \<le> i" by (rule block_index_least) simp
    show "i \<le> block_index (16 * 2 ^ i)" using block_index_fits [of "16 * 2 ^ i"] by simp
  qed
  then have "round_alloc_size (16 * 2 ^ i) = 16 * 2 ^ i"
    using round_alloc_size_small(1) [of "16 * 2 ^ i"] u by simp
  moreover have "0 < (16 * 2 ^ i :: int)" by simp
  then have "slab_cache_index_to_size (of_nat i) \<noteq> -1" using size_to_index_block(3) [OF assms(1)] by linarith
  ultimately show ?thesis
    using assms u size_to_index_block(3) [OF assms(1)]
    by (simp add: realloc_def sizeof_malloc_metadata_t_def)
qed

theorem realloc_same_size_too_small_witness:
  "realloc (example_heap_machine\<lparr>kmem := (\<lambda>_. 0)\<rparr>) (0x2010 + 2 + HEAP_START_ADDR) (16 * 2 ^ 0)
    = Some (Inr (0x2010 + 2 + HEAP_START_ADDR, example_heap_machine\<lparr>kmem := (\<lambda>_. 0)\<rparr>))"
  by (rule realloc_same_size_too_small)
    (simp_all add: metadata_size_def load16_def load_word_zero HEAP_START_ADDR_def)

end
