(* ===== verification/Boot_Protocol.thy ===== *)
theory Boot_Protocol
  imports Malloc
begin

text \<open>
  The stivale2 boot protocol as the kernel uses it (\<open>boot/stivale2.h\<close>, \<open>boot/stivale2_boot.c\<close>): the
  structures the bootloader passes lie in memory as a linked list of tags, which
  \<open>stivale2_get_tag\<close> searches.
\<close>

section \<open>Memory behind kernel pointers\<close>

definition kload8 :: "memory \<Rightarrow> u64 \<Rightarrow> u8" where "kload8 m a = m (kaddr a)"
definition kload16 :: "memory \<Rightarrow> u64 \<Rightarrow> u16" where "kload16 m a = load16 m (kaddr a)"
definition kload32 :: "memory \<Rightarrow> u64 \<Rightarrow> u32" where "kload32 m a = load32 m (kaddr a)"
definition kload64 :: "memory \<Rightarrow> u64 \<Rightarrow> u64" where "kload64 m a = load64 m (kaddr a)"

section \<open>Tags\<close>

text \<open>\<open>struct stivale2_tag\<close>: the identifier and the address of the next tag.\<close>

definition tag_identifier :: "memory \<Rightarrow> u64 \<Rightarrow> u64" where "tag_identifier m t = kload64 m t"
definition tag_next :: "memory \<Rightarrow> u64 \<Rightarrow> u64" where "tag_next m t = kload64 m (t + 8)"

text \<open>\<open>struct stivale2_struct\<close>: two strings of 64 bytes, then the first tag.\<close>

definition stivale2_struct_tags :: "memory \<Rightarrow> u64 \<Rightarrow> u64" where
  "stivale2_struct_tags m p = kload64 m (p + 128)"

abbreviation (input) STIVALE2_STRUCT_TAG_MEMMAP_ID :: u64 where "STIVALE2_STRUCT_TAG_MEMMAP_ID \<equiv> 0x2187f79e8612de07"
abbreviation (input) STIVALE2_STRUCT_TAG_RSDP_ID :: u64 where "STIVALE2_STRUCT_TAG_RSDP_ID \<equiv> 0x9e1786930a375e78"
abbreviation (input) STIVALE2_STRUCT_TAG_SMP_ID :: u64 where "STIVALE2_STRUCT_TAG_SMP_ID \<equiv> 0x34d1d96339647025"
abbreviation (input) STIVALE2_STRUCT_TAG_HHDM_ID :: u64 where "STIVALE2_STRUCT_TAG_HHDM_ID \<equiv> 0xb0ed257db18cb58f"

text \<open>The payloads of the tags the kernel asks for.\<close>

definition rsdp_tag_rsdp :: "memory \<Rightarrow> u64 \<Rightarrow> u64" where "rsdp_tag_rsdp m t = kload64 m (t + 16)"
definition hhdm_tag_addr :: "memory \<Rightarrow> u64 \<Rightarrow> u64" where "hhdm_tag_addr m t = kload64 m (t + 16)"

definition memmap_tag_entries :: "memory \<Rightarrow> u64 \<Rightarrow> u64" where "memmap_tag_entries m t = kload64 m (t + 16)"
definition memmap_tag_entry :: "memory \<Rightarrow> u64 \<Rightarrow> u64 \<Rightarrow> stivale2_mmap_entry" where
  "memmap_tag_entry m t i =
     (let e = t + 24 + 24 * i in \<lparr>mmap_base = kload64 m e, mmap_length = kload64 m (e + 8), mmap_type = kload32 m (e + 16)\<rparr>)"

definition memmap_tag_map :: "memory \<Rightarrow> u64 \<Rightarrow> stivale2_mmap_entry list" where
  "memmap_tag_map m t = map (\<lambda>i. memmap_tag_entry m t (of_nat i)) [0..<unat (memmap_tag_entries m t)]"

definition smp_tag_bsp_lapic_id :: "memory \<Rightarrow> u64 \<Rightarrow> u32" where "smp_tag_bsp_lapic_id m t = kload32 m (t + 24)"
definition smp_tag_cpu_count :: "memory \<Rightarrow> u64 \<Rightarrow> u64" where "smp_tag_cpu_count m t = kload64 m (t + 32)"

text \<open>\<open>smp_info[i]\<close>: processor id, local APIC id, target stack, goto address, extra argument.\<close>

definition smp_info_at :: "u64 \<Rightarrow> u64 \<Rightarrow> u64" where "smp_info_at t i = t + 40 + 32 * i"
definition smp_info_lapic_id :: "memory \<Rightarrow> u64 \<Rightarrow> u32" where "smp_info_lapic_id m e = kload32 m (e + 4)"
definition smp_info_target_stack :: "memory \<Rightarrow> u64 \<Rightarrow> u64" where "smp_info_target_stack m e = kload64 m (e + 8)"
definition smp_info_goto_address :: "memory \<Rightarrow> u64 \<Rightarrow> u64" where "smp_info_goto_address m e = kload64 m (e + 16)"
definition smp_info_extra_argument :: "memory \<Rightarrow> u64 \<Rightarrow> u64" where "smp_info_extra_argument m e = kload64 m (e + 24)"
definition set_smp_info_target_stack :: "u64 \<Rightarrow> u64 \<Rightarrow> memory \<Rightarrow> memory" where
  "set_smp_info_target_stack e v m = store64 m (kaddr (e + 8)) v"
definition set_smp_info_goto_address :: "u64 \<Rightarrow> u64 \<Rightarrow> memory \<Rightarrow> memory" where
  "set_smp_info_goto_address e v m = store64 m (kaddr (e + 16)) v"
definition set_smp_info_extra_argument :: "u64 \<Rightarrow> u64 \<Rightarrow> memory \<Rightarrow> memory" where
  "set_smp_info_extra_argument e v m = store64 m (kaddr (e + 24)) v"

section \<open>The header for the bootloader\<close>

record stivale2_header =
  hdr_entry_point :: u64
  hdr_stack :: u64
  hdr_flags :: u64
  hdr_tags :: u64

definition CPU_LOCALS_STACK_SIZE :: u64 where "CPU_LOCALS_STACK_SIZE = 8192"

text \<open>\<open>stivale_hdr\<close>, for the addresses of the static stack and of the tag that asks for the other processors.\<close>

definition stivale_hdr :: "u64 \<Rightarrow> u64 \<Rightarrow> stivale2_header" where
  "stivale_hdr stack smp_hdr_tag =
     \<lparr>hdr_entry_point = 0, hdr_stack = stack + CPU_LOCALS_STACK_SIZE,
      hdr_flags = push_bit 1 1 OR push_bit 2 1 OR push_bit 4 1, hdr_tags = smp_hdr_tag\<rparr>"

section \<open>Searching a tag\<close>

text \<open>The loop ends at \<open>NULL\<close> or at the tag; on a cyclic list without the tag it does not end, \<open>None\<close>.\<close>

partial_function (option) get_tag_loop :: "memory \<Rightarrow> u64 \<Rightarrow> u64 \<Rightarrow> u64 option" where
  "get_tag_loop m tag_id current_tag =
     (if current_tag = 0 then Some 0
      else if tag_identifier m current_tag = tag_id then Some current_tag
      else get_tag_loop m tag_id (tag_next m current_tag))"

definition stivale2_get_tag :: "memory \<Rightarrow> u64 \<Rightarrow> u64 \<Rightarrow> u64 option" where
  "stivale2_get_tag m stivale2_struct tag_id = get_tag_loop m tag_id (stivale2_struct_tags m stivale2_struct)"

text \<open>A list of tags in memory.\<close>

fun tag_list :: "memory \<Rightarrow> u64 \<Rightarrow> u64 list \<Rightarrow> bool" where
  "tag_list m p [] \<longleftrightarrow> p = 0"
| "tag_list m p (t # ts) \<longleftrightarrow> p = t \<and> t \<noteq> 0 \<and> tag_list m (tag_next m t) ts"

lemma get_tag_loop_finds:
  "tag_list m p ts \<Longrightarrow> get_tag_loop m n p = Some (case find (\<lambda>t. tag_identifier m t = n) ts of None \<Rightarrow> 0 | Some t \<Rightarrow> t)"
proof (induction ts arbitrary: p)
  case Nil
  then show ?case by (subst get_tag_loop.simps) simp
next
  case (Cons t ts)
  then show ?case by (subst get_tag_loop.simps) auto
qed

text \<open>C31. \<open>stivale2_get_tag\<close> on a finite list of tags returns: the first tag with the identifier, or \<open>NULL\<close>
  when there is none.\<close>

theorem stivale2_get_tag_first:
  assumes "tag_list m (stivale2_struct_tags m p) ts"
  shows "stivale2_get_tag m p n = Some (case find (\<lambda>t. tag_identifier m t = n) ts of None \<Rightarrow> 0 | Some t \<Rightarrow> t)"
  unfolding stivale2_get_tag_def by (rule get_tag_loop_finds [OF assms])

theorem stivale2_get_tag_first_witness:
  "stivale2_get_tag (store64 (store64 (\<lambda>_. 0) 0x1080 0x2000) 0x2000 STIVALE2_STRUCT_TAG_RSDP_ID) 0x1000 STIVALE2_STRUCT_TAG_RSDP_ID = Some 0x2000"
proof -
  let ?m = "store64 (store64 (\<lambda>_. 0) 0x1080 0x2000) 0x2000 STIVALE2_STRUCT_TAG_RSDP_ID"
  have k: "kaddr 0x1080 = 0x1080" "kaddr 0x2000 = 0x2000" "kaddr 0x2008 = 0x2008"
    by (simp_all add: kaddr_def HIGHER_HALF_CODE_def HEAP_START_ADDR_def HIGHER_HALF_DATA_def)
  have l: "stivale2_struct_tags ?m 0x1000 = 0x2000" "tag_identifier ?m 0x2000 = STIVALE2_STRUCT_TAG_RSDP_ID" "tag_next ?m 0x2000 = 0"
    by (simp_all add: stivale2_struct_tags_def tag_identifier_def tag_next_def kload64_def k access_defs load_store_same
        load_store_separate separate_def load_word_zero)
  have "tag_list ?m (stivale2_struct_tags ?m 0x1000) [0x2000]" using l by simp
  from stivale2_get_tag_first [OF this, of STIVALE2_STRUCT_TAG_RSDP_ID] show ?thesis using l by simp
qed

end
