(* ===== verification/ACPI.thy ===== *)
theory ACPI
  imports Boot_Protocol
begin

text \<open>
  \<open>hardware/acpi\<close>: the root pointer, the search for a table by its signature, checksums, and the scan
  of the MADT that collects the interrupt controllers. The tables lie in memory where the
  firmware put them; the arrays of the scan come from the kernel heap.
\<close>

record acpi_state = heap_state +
  rsdp :: u64
  has_xsdt_var :: bool
  rsdt :: u64
  xsdt :: u64
  madt :: u64
  madt_lapics :: u64
  madt_ioapics :: u64
  madt_isos :: u64
  madt_lapic_nmis :: u64
  madt_lapics_i :: u64
  madt_ioapics_i :: u64
  madt_isos_i :: u64
  madt_lapic_nmis_i :: u64

section \<open>Structures\<close>

text \<open>\<open>rsdp_struct_t\<close>, \<open>sdt_t\<close> (36 bytes) and the tables that begin with it.\<close>

definition rsdp_revision :: "memory \<Rightarrow> u64 \<Rightarrow> u8" where "rsdp_revision m p = kload8 m (p + 15)"
definition rsdp_rsdt_address :: "memory \<Rightarrow> u64 \<Rightarrow> u32" where "rsdp_rsdt_address m p = kload32 m (p + 16)"
definition rsdp_xsdt_address :: "memory \<Rightarrow> u64 \<Rightarrow> u64" where "rsdp_xsdt_address m p = kload64 m (p + 24)"

definition sizeof_sdt_t :: u64 where "sizeof_sdt_t = 36"
definition sdt_length :: "memory \<Rightarrow> u64 \<Rightarrow> u32" where "sdt_length m p = kload32 m (p + 4)"

definition rsdt_entry :: "memory \<Rightarrow> u64 \<Rightarrow> u64 \<Rightarrow> u64" where
  "rsdt_entry m p i = ucast (kload32 m (p + sizeof_sdt_t + 4 * i))"
definition xsdt_entry :: "memory \<Rightarrow> u64 \<Rightarrow> u64 \<Rightarrow> u64" where
  "xsdt_entry m p i = kload64 m (p + sizeof_sdt_t + 8 * i)"

definition madt_lapic_address :: "memory \<Rightarrow> u64 \<Rightarrow> u32" where "madt_lapic_address m p = kload32 m (p + sizeof_sdt_t)"
definition madt_entries :: "u64 \<Rightarrow> u64" where "madt_entries p = p + sizeof_sdt_t + 8"

definition ioapic_ioapic_address :: "memory \<Rightarrow> u64 \<Rightarrow> u32" where "ioapic_ioapic_address m e = kload32 m (e + 4)"
definition ioapic_gsi_base :: "memory \<Rightarrow> u64 \<Rightarrow> u32" where "ioapic_gsi_base m e = kload32 m (e + 8)"
definition iso_irq_source :: "memory \<Rightarrow> u64 \<Rightarrow> u8" where "iso_irq_source m e = kload8 m (e + 3)"
definition iso_gsi :: "memory \<Rightarrow> u64 \<Rightarrow> u32" where "iso_gsi m e = kload32 m (e + 4)"
definition iso_flags :: "memory \<Rightarrow> u64 \<Rightarrow> u16" where "iso_flags m e = kload16 m (e + 8)"

section \<open>Root pointer\<close>

definition rsdp_verify_checksum :: "memory \<Rightarrow> u64 \<Rightarrow> unit result" where
  "rsdp_verify_checksum m rsdp_address =
     (let checksum = fold (\<lambda>i c. c + kload8 m (rsdp_address + of_nat i)) [0..<20] (0 :: u8);
          checksum = checksum AND 0xFF
      in if checksum = 0 then Inr () else Inl (Panic ''RSDP checksum isn't 0!''))"

definition rsdp_init :: "u64 \<Rightarrow> 'a acpi_state_scheme \<Rightarrow> 'a acpi_state_scheme result" where
  "rsdp_init rsdp_address s =
     rbind (rsdp_verify_checksum (kmem s) rsdp_address) (\<lambda>_.
       let s = s\<lparr>rsdp := rsdp_address\<rparr>
       in if 2 \<le> rsdp_revision (kmem s) (rsdp s)
          then Inr (s\<lparr>has_xsdt_var := rsdp_xsdt_address (kmem s) (rsdp s) \<noteq> 0\<rparr>)
          else Inr s)"

definition get_rsdp_struct :: "'a acpi_state_scheme \<Rightarrow> u64" where "get_rsdp_struct s = rsdp s"
definition has_xsdt :: "'a acpi_state_scheme \<Rightarrow> bool" where "has_xsdt s = has_xsdt_var s"

section \<open>Tables\<close>

text \<open>
  The checksum loop counts with eight bits and compares with the 32-bit length; \<open>None\<close> is the
  loop that never ends.
\<close>

partial_function (option) checksum_loop :: "memory \<Rightarrow> u64 \<Rightarrow> u8 \<Rightarrow> u8 \<Rightarrow> u8 option" where
  "checksum_loop m sdt i checksum =
     (if ucast i < sdt_length m sdt
      then checksum_loop m sdt (i + 1) (checksum + kload8 m (sdt + ucast i))
      else Some checksum)"

definition acpi_verify_sdt_checksum :: "memory \<Rightarrow> u64 \<Rightarrow> string \<Rightarrow> bool result option" where
  "acpi_verify_sdt_checksum m sdt signature =
     map_option (\<lambda>checksum. if checksum AND 0xFF = 0 then Inr True else Inl (Panic (signature @ '' checksum isn't 0!'')))
       (checksum_loop m sdt 0 0)"

text \<open>A string literal as an object of its own.\<close>

definition literal :: "string \<Rightarrow> memory" where
  "literal str a = (if unat a < length str then of_char (str ! unat a) else 0)"

definition acpi_verify_sdt :: "memory \<Rightarrow> u64 \<Rightarrow> string \<Rightarrow> bool result option" where
  "acpi_verify_sdt m sdt signature =
     (if memcmp m (kaddr sdt) (literal signature) 0 4 = 0
      then acpi_verify_sdt_checksum m sdt signature
      else Some (Inr False))"

definition acpi_entry_count :: "'a acpi_state_scheme \<Rightarrow> u64" where
  "acpi_entry_count s =
     (if has_xsdt s then (ucast (sdt_length (kmem s) (xsdt s)) - sizeof_sdt_t) div 8
      else (ucast (sdt_length (kmem s) (rsdt s)) - sizeof_sdt_t) div 4)"

function acpi_find_loop :: "'a acpi_state_scheme \<Rightarrow> string \<Rightarrow> u64 \<Rightarrow> u64 \<Rightarrow> u64 result option" where
  "acpi_find_loop s signature entry_count i =
     (if i < entry_count
      then (let current_entry = (if has_xsdt s then xsdt_entry (kmem s) (xsdt s) i else rsdt_entry (kmem s) (rsdt s) i)
            in case acpi_verify_sdt (kmem s) current_entry signature of
                 None \<Rightarrow> None
               | Some (Inl e) \<Rightarrow> Some (Inl e)
               | Some (Inr found) \<Rightarrow>
                   if found then Some (Inr (PHYS_TO_HIGHER_HALF_DATA current_entry))
                   else acpi_find_loop s signature entry_count (i + 1))
      else Some (Inl (Panic (''Could not find SDT with signature '' @ signature))))"
  by pat_completeness auto
termination
proof (relation "measure (\<lambda>(s, signature, entry_count, i). unat entry_count - unat i)", simp)
  fix entry_count i :: u64
  assume "i < entry_count"
  then have "unat (i + 1) = unat i + 1" "unat i < unat entry_count"
    using unat_u64_less [of entry_count] by (simp_all add: word_less_nat_alt unat_add_no_wrap)
  then show "((s, signature, entry_count, i + 1), s, signature, entry_count, i)
      \<in> measure (\<lambda>(s, signature, entry_count, i). unat entry_count - unat i)" for s :: "'a acpi_state_scheme" and signature :: string
    by simp
qed

declare acpi_find_loop.simps [simp del]

definition acpi_find_sdt :: "'a acpi_state_scheme \<Rightarrow> string \<Rightarrow> u64 result option" where
  "acpi_find_sdt s signature = acpi_find_loop s signature (acpi_entry_count s) 0"

section \<open>The MADT\<close>

text \<open>One turn of the scan: an entry of a known type is appended to its array.\<close>

definition array_put :: "u64 \<Rightarrow> u64 \<Rightarrow> u64 \<Rightarrow> memory \<Rightarrow> memory" where
  "array_put arr i v m = store64 m (kaddr (arr + 8 * i)) v"

definition madt_entry :: "u64 \<Rightarrow> 'a acpi_state_scheme \<Rightarrow> 'a acpi_state_scheme" where
  "madt_entry entry_ptr s =
     (let t = kload8 (kmem s) entry_ptr in
      if t = 0 then s\<lparr>kmem := array_put (madt_lapics s) (madt_lapics_i s) entry_ptr (kmem s), madt_lapics_i := madt_lapics_i s + 1\<rparr>
      else if t = 1 then s\<lparr>kmem := array_put (madt_ioapics s) (madt_ioapics_i s) entry_ptr (kmem s), madt_ioapics_i := madt_ioapics_i s + 1\<rparr>
      else if t = 2 then s\<lparr>kmem := array_put (madt_isos s) (madt_isos_i s) entry_ptr (kmem s), madt_isos_i := madt_isos_i s + 1\<rparr>
      else if t = 4 then s\<lparr>kmem := array_put (madt_lapic_nmis s) (madt_lapic_nmis_i s) entry_ptr (kmem s),
                           madt_lapic_nmis_i := madt_lapic_nmis_i s + 1\<rparr>
      else s)"

text \<open>The scan; an entry of length 0 is met again and again, \<open>None\<close>.\<close>

partial_function (option) madt_loop :: "u64 \<Rightarrow> u64 \<Rightarrow> 'a acpi_state_scheme \<Rightarrow> 'a acpi_state_scheme option" where
  "madt_loop bound entry_ptr s =
     (if entry_ptr < bound
      then (let s = madt_entry entry_ptr s
            in madt_loop bound (entry_ptr + ucast (kload8 (kmem s) (entry_ptr + 1))) s)
      else Some s)"

definition madt_init :: "'a acpi_state_scheme \<Rightarrow> 'a acpi_state_scheme result option" where
  "madt_init s =
     (case acpi_find_sdt s ''APIC'' of
        None \<Rightarrow> None
      | Some (Inl e) \<Rightarrow> Some (Inl e)
      | Some (Inr p) \<Rightarrow>
          let s = s\<lparr>madt := p\<rparr> in
          if p = 0 then Some (Inl (Panic ''No MADT was found on this computer!''))
          else case malloc s 256 of None \<Rightarrow> None | Some (Inl e) \<Rightarrow> Some (Inl e) | Some (Inr (a, s)) \<Rightarrow>
          (let s = s\<lparr>madt_lapics := a\<rparr> in
           case malloc s 256 of None \<Rightarrow> None | Some (Inl e) \<Rightarrow> Some (Inl e) | Some (Inr (a, s)) \<Rightarrow>
          (let s = s\<lparr>madt_ioapics := a\<rparr> in
           case malloc s 256 of None \<Rightarrow> None | Some (Inl e) \<Rightarrow> Some (Inl e) | Some (Inr (a, s)) \<Rightarrow>
          (let s = s\<lparr>madt_isos := a\<rparr> in
           case malloc s 256 of None \<Rightarrow> None | Some (Inl e) \<Rightarrow> Some (Inl e) | Some (Inr (a, s)) \<Rightarrow>
          (let s = s\<lparr>madt_lapic_nmis := a\<rparr>;
               start = madt_entries (madt s);
               bound = madt s + ucast (sdt_length (kmem s) (madt s))
           in map_option Inr (madt_loop bound start s))))))"

section \<open>Initialisation\<close>

definition acpi_init :: "u64 \<Rightarrow> 'a acpi_state_scheme \<Rightarrow> 'a acpi_state_scheme result option" where
  "acpi_init stivale2_struct s =
     (case stivale2_get_tag (kmem s) stivale2_struct STIVALE2_STRUCT_TAG_RSDP_ID of
        None \<Rightarrow> None
      | Some rsdp_tag \<Rightarrow>
          (case rsdp_init (rsdp_tag_rsdp (kmem s) rsdp_tag) s of
             Inl e \<Rightarrow> Some (Inl e)
           | Inr s \<Rightarrow>
               (let s = (if has_xsdt s
                         then s\<lparr>xsdt := PHYS_TO_HIGHER_HALF_DATA (rsdp_xsdt_address (kmem s) (get_rsdp_struct s))\<rparr>
                         else s\<lparr>rsdt := PHYS_TO_HIGHER_HALF_DATA (ucast (rsdp_rsdt_address (kmem s) (get_rsdp_struct s)))\<rparr>)
                in case (if has_xsdt s then acpi_verify_sdt (kmem s) (xsdt s) ''XSDT''
                         else acpi_verify_sdt (kmem s) (rsdt s) ''RSDT'') of
                     None \<Rightarrow> None
                   | Some (Inl e) \<Rightarrow> Some (Inl e)
                   | Some (Inr ok) \<Rightarrow>
                       if \<not> ok then Some (Inl (Panic ''No ACPI was found on this computer!''))
                       else madt_init s)))"

section \<open>Checksums\<close>

lemma counter_value: "i < 256 \<Longrightarrow> unat (ucast (of_nat i :: u8) :: u32) = i"
  by (simp add: unsigned_of_nat take_bit_nat_eq_self)

lemma checksum_loop_sum:
  assumes "sdt_length m sdt < 256" "i \<le> unat (sdt_length m sdt)"
  shows "checksum_loop m sdt (of_nat i) c = Some (c + (\<Sum>j=i..<unat (sdt_length m sdt). kload8 m (sdt + of_nat j)))"
  using assms(2)
proof (induction "unat (sdt_length m sdt) - i" arbitrary: i c)
  case 0
  then have i: "i = unat (sdt_length m sdt)" by simp
  then have "\<not> (ucast (of_nat i :: u8) :: u32) < sdt_length m sdt"
    using assms(1) counter_value [of i] by (simp only: word_less_nat_alt) simp
  then show ?case using i by (subst checksum_loop.simps) simp
next
  case (Suc n)
  then have i: "i < unat (sdt_length m sdt)" by simp
  have len: "unat (sdt_length m sdt) < 256" using assms(1) by (simp add: word_less_nat_alt)
  have u: "unat (ucast (of_nat i :: u8) :: u32) = i" "(ucast (of_nat i :: u8) :: u64) = of_nat i"
    using i len by (simp_all add: unat_of_nat unsigned_of_nat take_bit_nat_eq_self)
  have "checksum_loop m sdt (of_nat (Suc i)) (c + kload8 m (sdt + of_nat i))
      = Some (c + kload8 m (sdt + of_nat i) + (\<Sum>j=Suc i..<unat (sdt_length m sdt). kload8 m (sdt + of_nat j)))"
    using Suc by (intro Suc.hyps(1)) simp_all
  then show ?case
    using i u by (subst checksum_loop.simps) (simp add: word_less_nat_alt sum.atLeast_Suc_lessThan algebra_simps)
qed

lemma checksum_loop_diverges:
  assumes "256 \<le> sdt_length m sdt"
  shows "checksum_loop m sdt i c = None"
proof (rule ccontr)
  assume "checksum_loop m sdt i c \<noteq> None"
  then obtain r where r: "checksum_loop m sdt i c = Some r" by blast
  have "256 \<le> sdt_length m sdt \<longrightarrow> False"
  proof (rule checksum_loop.raw_induct [OF _ r])
    fix rec m sdt c r and i :: u8
    assume IH: "\<And>m sdt i c r. rec m sdt i c = Some r \<Longrightarrow> 256 \<le> sdt_length m sdt \<longrightarrow> False"
      and body: "(if ucast i < sdt_length m sdt then rec m sdt (i + 1) (c + kload8 m (sdt + ucast i)) else Some c) = Some (r :: u8)"
    show "256 \<le> sdt_length m sdt \<longrightarrow> False"
    proof
      assume l: "256 \<le> sdt_length m sdt"
      have "unat (ucast i :: u32) = unat i" using counter_value [of "unat (i :: u8)"] unat_u8_less [of i] by simp
      then have "ucast i < sdt_length m sdt"
        using l unat_u8_less [of i] by (simp add: word_less_nat_alt word_le_nat_alt)
      then show False using body IH l by auto
    qed
  qed
  with assms show False by simp
qed

text \<open>
  The checksum test returns exactly for tables of less than 256 bytes, and accepts them exactly when
  their bytes sum up to 0 modulo 256; for a longer table the eight-bit counter wraps around.
\<close>

lemma acpi_checksum_returns:
  "acpi_verify_sdt_checksum m sdt signature =
    (if sdt_length m sdt < 256
     then Some (if (\<Sum>j=0..<unat (sdt_length m sdt). kload8 m (sdt + of_nat j)) = 0 then Inr True
                else Inl (Panic (signature @ '' checksum isn't 0!'')))
     else None)"
proof (cases "sdt_length m sdt < 256")
  case True
  have ff: "(0xFF :: u8) = - 1" by simp
  have "c AND 0xFF = c" for c :: u8 by (rule bit_word_eqI) (auto simp: ff bit_simps)
  then show ?thesis using True checksum_loop_sum [OF True, of 0 0] by (simp add: acpi_verify_sdt_checksum_def)
next
  case False
  then show ?thesis by (simp add: acpi_verify_sdt_checksum_def checksum_loop_diverges)
qed

section \<open>The search for a table\<close>

definition signature_is :: "memory \<Rightarrow> string \<Rightarrow> u64 \<Rightarrow> bool" where
  "signature_is m signature t \<longleftrightarrow> (\<forall>i<4. m (kaddr t + of_nat i) = literal signature (of_nat i))"

definition acpi_tables :: "'a acpi_state_scheme \<Rightarrow> u64 list" where
  "acpi_tables s = map (\<lambda>i. if has_xsdt s then xsdt_entry (kmem s) (xsdt s) (of_nat i) else rsdt_entry (kmem s) (rsdt s) (of_nat i))
     [0..<unat (acpi_entry_count s)]"

definition table_bytes_sum :: "memory \<Rightarrow> u64 \<Rightarrow> u8" where
  "table_bytes_sum m t = (\<Sum>j=0..<unat (sdt_length m t). kload8 m (t + of_nat j))"

lemma acpi_verify_sdt_eq:
  "acpi_verify_sdt m t signature =
    (if \<not> signature_is m signature t then Some (Inr False)
     else if 256 \<le> sdt_length m t then None
     else Some (if table_bytes_sum m t = 0 then Inr True else Inl (Panic (signature @ '' checksum isn't 0!''))))"
proof -
  have "memcmp m (kaddr t) (literal signature) 0 4 = 0 \<longleftrightarrow> signature_is m signature t"
    by (simp add: memcmp_def memcmp_loop_zero_iff signature_is_def)
  then show ?thesis by (auto simp: acpi_verify_sdt_def acpi_checksum_returns table_bytes_sum_def)
qed

lemma acpi_find_loop_eq:
  assumes "i \<le> unat n"
  shows "acpi_find_loop s signature n (of_nat i) =
    (let es = map (\<lambda>i. if has_xsdt s then xsdt_entry (kmem s) (xsdt s) (of_nat i) else rsdt_entry (kmem s) (rsdt s) (of_nat i)) [i..<unat n]
     in case find (signature_is (kmem s) signature) es of
          None \<Rightarrow> Some (Inl (Panic (''Could not find SDT with signature '' @ signature)))
        | Some t \<Rightarrow> if 256 \<le> sdt_length (kmem s) t then None
                    else Some (if table_bytes_sum (kmem s) t = 0 then Inr (PHYS_TO_HIGHER_HALF_DATA t)
                               else Inl (Panic (signature @ '' checksum isn't 0!''))))"
  using assms
proof (induction "unat n - i" arbitrary: i)
  case 0
  then have "i = unat n" by simp
  then show ?case by (subst acpi_find_loop.simps) (simp add: Let_def)
next
  case (Suc k)
  then have i: "i < unat n" by simp
  then have "(of_nat i :: u64) < n" using unat_u64_less [of n] by (simp add: word_less_nat_alt unat_of_nat)
  moreover have "(of_nat i :: u64) + 1 = of_nat (Suc i)" by simp
  moreover note Suc.hyps(1) [of "Suc i"]
  ultimately show ?case using Suc.hyps(2) i
    by (subst acpi_find_loop.simps) (simp add: upt_conv_Cons acpi_verify_sdt_eq Let_def del: of_nat_Suc)
qed

text \<open>C32. \<open>acpi_find_sdt\<close> looks at the tables in order and decides at the first one with the signature: the
  result is its address in the higher half when its bytes sum up to 0, and a panic otherwise, also
  when no table has the signature. When the table has 256 bytes or more the search never returns,
  because the checksum loop counts with eight bits.\<close>

theorem acpi_find_sdt_first:
  "acpi_find_sdt s signature =
    (case find (signature_is (kmem s) signature) (acpi_tables s) of
       None \<Rightarrow> Some (Inl (Panic (''Could not find SDT with signature '' @ signature)))
     | Some t \<Rightarrow> if 256 \<le> sdt_length (kmem s) t then None
                 else Some (if table_bytes_sum (kmem s) t = 0 then Inr (PHYS_TO_HIGHER_HALF_DATA t)
                            else Inl (Panic (signature @ '' checksum isn't 0!''))))"
  using acpi_find_loop_eq [of 0 "acpi_entry_count s" s signature]
  by (simp add: acpi_find_sdt_def acpi_tables_def Let_def)

section \<open>The scan of the MADT\<close>

text \<open>The entries of a table between two addresses: each one starts where the last one ends.\<close>

fun madt_chain :: "memory \<Rightarrow> u64 \<Rightarrow> u64 \<Rightarrow> u64 list \<Rightarrow> bool" where
  "madt_chain m bound p [] \<longleftrightarrow> bound \<le> p"
| "madt_chain m bound p (e # es) \<longleftrightarrow> p = e \<and> p < bound \<and> madt_chain m bound (p + ucast (kload8 m (p + 1))) es"

text \<open>The types that are collected, the array and the counter of a type, and the slots yet to be filled.\<close>

definition madt_types :: "u8 set" where "madt_types = {0, 1, 2, 4}"

definition madt_array :: "'a acpi_state_scheme \<Rightarrow> u8 \<Rightarrow> u64" where
  "madt_array s t = (if t = 0 then madt_lapics s else if t = 1 then madt_ioapics s else if t = 2 then madt_isos s else madt_lapic_nmis s)"

definition madt_index :: "'a acpi_state_scheme \<Rightarrow> u8 \<Rightarrow> u64" where
  "madt_index s t = (if t = 0 then madt_lapics_i s else if t = 1 then madt_ioapics_i s else if t = 2 then madt_isos_i s else madt_lapic_nmis_i s)"

definition slot :: "'a acpi_state_scheme \<Rightarrow> u8 \<Rightarrow> nat \<Rightarrow> u64" where
  "slot s t k = kaddr (madt_array s t + 8 * (madt_index s t + of_nat k))"

definition off_arrays :: "'a acpi_state_scheme \<Rightarrow> nat \<Rightarrow> u64 \<Rightarrow> nat \<Rightarrow> bool" where
  "off_arrays s n a w \<longleftrightarrow> (\<forall>t\<in>madt_types. \<forall>k<n. separate a w (slot s t k) 8)"

definition slots_apart :: "'a acpi_state_scheme \<Rightarrow> nat \<Rightarrow> bool" where
  "slots_apart s n \<longleftrightarrow> (\<forall>t\<in>madt_types. \<forall>t'\<in>madt_types. \<forall>k<n. \<forall>k'<n. (t, k) \<noteq> (t', k') \<longrightarrow> separate (slot s t k) 8 (slot s t' k') 8)"

abbreviation entry_type :: "'a acpi_state_scheme \<Rightarrow> u64 \<Rightarrow> u8" where "entry_type s e \<equiv> kload8 (kmem s) e"

lemma madt_entry_array [simp]: "madt_array (madt_entry e s) t = madt_array s t"
  by (simp add: madt_array_def madt_entry_def Let_def)

lemma madt_entry_index:
  "t \<in> madt_types \<Longrightarrow> madt_index (madt_entry e s) t = madt_index s t + (if entry_type s e = t then 1 else 0)"
  by (auto simp: madt_index_def madt_entry_def Let_def madt_types_def)

lemma madt_entry_mem:
  "kmem (madt_entry e s) = (if entry_type s e \<in> madt_types then store64 (kmem s) (slot s (entry_type s e) 0) e else kmem s)"
  by (simp add: madt_entry_def Let_def madt_types_def slot_def array_put_def madt_array_def madt_index_def)

lemma slot_entry:
  "t \<in> madt_types \<Longrightarrow> slot (madt_entry e s) t k = slot s t (if entry_type s e = t then Suc k else k)"
  by (simp add: slot_def madt_entry_index add.assoc)

lemma off_arrays_entry: "off_arrays s (Suc n) a w \<Longrightarrow> off_arrays (madt_entry e s) n a w"
  by (simp add: off_arrays_def slot_entry)

lemma slots_apart_entry: "slots_apart s (Suc n) \<Longrightarrow> slots_apart (madt_entry e s) n"
  unfolding slots_apart_def by (simp add: slot_entry)

lemma load_word_entry:
  "off_arrays s (Suc n) a w \<Longrightarrow> load_word w (kmem (madt_entry e s)) a = load_word w (kmem s) a"
  by (simp add: madt_entry_mem off_arrays_def store64_def load_store_separate)

lemma kload8_entry: "off_arrays s (Suc n) (kaddr a) 1 \<Longrightarrow> kload8 (kmem (madt_entry e s)) a = kload8 (kmem s) a"
  using load_word_entry [of s n "kaddr a" 1 e, where 'b = 8] by (simp add: kload8_def)

lemma load_word_fold:
  "off_arrays s (length es) a w \<Longrightarrow> load_word w (kmem (fold madt_entry es s)) a = load_word w (kmem s) a"
  by (induction es arbitrary: s) (simp_all add: off_arrays_entry load_word_entry)

lemma madt_chain_cong:
  "(\<And>e. e \<in> set es \<Longrightarrow> kload8 m' (e + 1) = kload8 m (e + 1)) \<Longrightarrow> madt_chain m' bound p es = madt_chain m bound p es"
  by (induction es arbitrary: p) auto

lemma madt_loop_fold:
  assumes "madt_chain (kmem s) bound p es" "\<forall>e\<in>set es. off_arrays s (length es) (kaddr (e + 1)) 1"
  shows "madt_loop bound p s = Some (fold madt_entry es s)"
  using assms
proof (induction es arbitrary: p s)
  case Nil
  then show ?case by (subst madt_loop.simps) (simp add: leD)
next
  case (Cons e es)
  let ?s = "madt_entry e s"
  have p: "p = e" "p < bound" "madt_chain (kmem s) bound (p + ucast (kload8 (kmem s) (p + 1))) es" using Cons.prems(1) by auto
  have same: "kload8 (kmem ?s) (x + 1) = kload8 (kmem s) (x + 1)" if "x \<in> set (e # es)" for x
    using Cons.prems(2) that by (intro kload8_entry [of _ "length es"]) auto
  have "madt_chain (kmem ?s) bound (p + ucast (kload8 (kmem ?s) (p + 1))) es"
    using p same madt_chain_cong [of es "kmem ?s" "kmem s" bound] by simp
  moreover have "\<forall>x\<in>set es. off_arrays ?s (length es) (kaddr (x + 1)) 1" using Cons.prems(2) by (auto intro: off_arrays_entry)
  ultimately have "madt_loop bound (p + ucast (kload8 (kmem ?s) (p + 1))) ?s = Some (fold madt_entry es ?s)"
    by (rule Cons.IH)
  then show ?case using p by (subst madt_loop.simps) (simp add: Let_def)
qed

text \<open>The entries of a type, in the order of the table.\<close>

definition of_type :: "memory \<Rightarrow> u8 \<Rightarrow> u64 list \<Rightarrow> u64 list" where
  "of_type m t es = filter (\<lambda>e. kload8 m e = t) es"

lemma of_type_entry:
  assumes "\<forall>x\<in>set es. off_arrays s (Suc n) (kaddr x) 1"
  shows "of_type (kmem (madt_entry e s)) t es = of_type (kmem s) t es"
  unfolding of_type_def using assms by (intro filter_cong) (simp_all add: kload8_entry [of s n])

lemma madt_fold_index:
  assumes "\<forall>e\<in>set es. off_arrays s (length es) (kaddr e) 1" "t \<in> madt_types"
  shows "madt_index (fold madt_entry es s) t = madt_index s t + of_nat (length (of_type (kmem s) t es))"
  using assms
proof (induction es arbitrary: s)
  case Nil
  then show ?case by (simp add: of_type_def)
next
  case (Cons e es)
  then have "\<forall>x\<in>set es. off_arrays (madt_entry e s) (length es) (kaddr x) 1" by (auto intro: off_arrays_entry)
  moreover have "of_type (kmem (madt_entry e s)) t es = of_type (kmem s) t es"
    using Cons.prems by (intro of_type_entry [of _ _ "length es"]) simp
  ultimately show ?case using Cons.IH Cons.prems(2) by (simp add: madt_entry_index) (simp add: of_type_def)
qed

lemma slots_off:
  assumes "slots_apart s (Suc n)" "entry_type s e \<in> madt_types"
  shows "off_arrays (madt_entry e s) n (slot s (entry_type s e) 0) 8"
  using assms unfolding off_arrays_def slots_apart_def by (simp add: slot_entry)

lemma madt_fold_slots:
  assumes "\<forall>e\<in>set es. off_arrays s (length es) (kaddr e) 1" "slots_apart s (length es)" "t \<in> madt_types"
    and "k < length (of_type (kmem s) t es)"
  shows "load64 (kmem (fold madt_entry es s)) (slot s t k) = of_type (kmem s) t es ! k"
  using assms
proof (induction es arbitrary: s k)
  case Nil
  then show ?case by (simp add: of_type_def)
next
  case (Cons e es)
  let ?s = "madt_entry e s"
  have off: "\<forall>x\<in>set es. off_arrays ?s (length es) (kaddr x) 1" and ap: "slots_apart ?s (length es)"
    using Cons.prems by (auto intro: off_arrays_entry slots_apart_entry)
  have ty: "of_type (kmem ?s) t es = of_type (kmem s) t es"
    using Cons.prems by (intro of_type_entry [of _ _ "length es"]) simp
  note IH = Cons.IH [OF off ap Cons.prems(3), unfolded ty]
  show ?case
  proof (cases "entry_type s e = t")
    case False
    then show ?thesis using IH [of k] Cons.prems(3,4) by (simp add: slot_entry of_type_def)
  next
    case True
    then have eq: "of_type (kmem s) t (e # es) = e # of_type (kmem s) t es" by (simp add: of_type_def)
    show ?thesis
    proof (cases k)
      case 0
      have "off_arrays ?s (length es) (slot s t 0) 8" using slots_off [of s "length es" e] Cons.prems(2,3) True by simp
      from load_word_fold [OF this, where 'b = 64] have "load64 (kmem (fold madt_entry es ?s)) (slot s t 0) = load64 (kmem ?s) (slot s t 0)"
        by (simp add: load64_def)
      also have "\<dots> = e" using True Cons.prems(3) by (simp add: madt_entry_mem)
      finally show ?thesis using 0 eq by simp
    next
      case (Suc j)
      then have "j < length (of_type (kmem s) t es)" using Cons.prems(4) eq by simp
      from IH [OF this] show ?thesis using Suc eq True Cons.prems(3) by (simp add: slot_entry)
    qed
  qed
qed

text \<open>C33. On a MADT whose entries follow each other, with room for them in the four arrays and away from them, the
  scan returns; each array then holds the addresses of exactly the entries of its type (0 local
  APICs, 1 I/O APICs, 2 source overrides, 4 non-maskable interrupts), in the order of the table, and
  its counter has grown by their number.\<close>

theorem madt_scan_complete:
  assumes "madt_chain (kmem s) bound p es" "slots_apart s (length es)"
    and "\<forall>e\<in>set es. off_arrays s (length es) (kaddr e) 1 \<and> off_arrays s (length es) (kaddr (e + 1)) 1"
  shows "\<exists>s'. madt_loop bound p s = Some s' \<and> (\<forall>t\<in>madt_types.
      madt_index s' t = madt_index s t + of_nat (length (of_type (kmem s) t es))
    \<and> (\<forall>k<length (of_type (kmem s) t es).
        kload64 (kmem s') (madt_array s t + 8 * (madt_index s t + of_nat k)) = of_type (kmem s) t es ! k))"
proof -
  have "\<forall>e\<in>set es. off_arrays s (length es) (kaddr e) 1" using assms(3) by blast
  note facts = madt_fold_index [OF this] madt_fold_slots [OF this assms(2)]
  have "madt_loop bound p s = Some (fold madt_entry es s)" using assms by (intro madt_loop_fold) auto
  then show ?thesis using facts by (simp add: slot_def kload64_def)
qed

text \<open>A table with an I/O APIC and a local APIC, and empty arrays behind it.\<close>

definition example_madt :: acpi_state where
  "example_madt = \<lparr>kmem = (\<lambda>a. if a = 0x2000 then 1 else if a = 0x2001 then 12 else if a = 0x200D then 8 else 0),
     pmm_bitmap = \<lparr>bm_map = [], bm_size = 0\<rparr>, pmm_bitmap_addr = 0, highest_page_top = 0, used_pages_count = 0,
     root_page_table = 0, cr3 = 0, msrs = (\<lambda>_. 0), tlb_flushes = [], slab_caches = [],
     rsdp = 0, has_xsdt_var = False, rsdt = 0, xsdt = 0, madt = 0x1FD4,
     madt_lapics = 0x5000, madt_ioapics = 0x6000, madt_isos = 0x7000, madt_lapic_nmis = 0x8000,
     madt_lapics_i = 0, madt_ioapics_i = 0, madt_isos_i = 0, madt_lapic_nmis_i = 0\<rparr>"

lemma example_slot: "t \<in> madt_types \<Longrightarrow> k < 2 \<Longrightarrow> unat (slot example_madt t k) = unat (madt_array example_madt t) + 8 * k"
  unfolding less_2_cases_iff madt_types_def insert_iff empty_iff
  by (elim disjE) (simp_all add: slot_def madt_array_def madt_index_def example_madt_def
      kaddr_def HIGHER_HALF_CODE_def HEAP_START_ADDR_def HIGHER_HALF_DATA_def)

lemma example_array: "\<exists>c\<in>{5..8}. unat (madt_array example_madt t) = 0x1000 * c"
  by (simp add: madt_array_def example_madt_def)

lemma example_array_inj:
  "unat (madt_array example_madt t) = unat (madt_array example_madt t') \<Longrightarrow> t \<in> madt_types \<Longrightarrow> t' \<in> madt_types \<Longrightarrow> t = t'"
  by (simp add: madt_array_def example_madt_def madt_types_def split: if_splits)

lemma example_slots_apart: "slots_apart example_madt 2"
  unfolding slots_apart_def
proof (intro ballI allI impI)
  fix t t' and k k' :: nat assume t: "t \<in> madt_types" "t' \<in> madt_types" and k: "k < 2" "k' < 2" and ne: "(t, k) \<noteq> (t', k')"
  obtain c c' where c: "c \<le> 8" "c' \<le> 8" and a: "unat (madt_array example_madt t) = 0x1000 * c" "unat (madt_array example_madt t') = 0x1000 * c'"
    using example_array [of t] example_array [of t'] by auto
  have "c \<noteq> c' \<or> k \<noteq> k'" using a ne example_array_inj [OF _ t] by auto
  then consider "c < c'" | "c' < c" | "c = c'" "k < k'" | "c = c'" "k' < k" by linarith
  then have "0x1000 * c + 8 * k + 8 \<le> 0x1000 * c' + 8 * k' \<or> 0x1000 * c' + 8 * k' + 8 \<le> 0x1000 * c + 8 * k"
    using k by cases simp_all
  then show "separate (slot example_madt t k) 8 (slot example_madt t' k') 8"
    unfolding separate_def example_slot [OF t(1) k(1)] example_slot [OF t(2) k(2)] a using c k by auto
qed

lemma example_off_arrays: "unat a < 0x5000 \<Longrightarrow> off_arrays example_madt 2 a 1"
  unfolding off_arrays_def
proof (intro ballI allI impI)
  fix t k assume a: "unat a < 0x5000" and t: "t \<in> madt_types" "k < (2 :: nat)"
  obtain c where "5 \<le> c" "c \<le> 8" "unat (madt_array example_madt t) = 0x1000 * c" using example_array [of t] by auto
  then show "separate a 1 (slot example_madt t k) 8" unfolding separate_def example_slot [OF t] using a t(2) by auto
qed

theorem madt_scan_complete_witness:
  "\<exists>s'. madt_loop 0x2014 0x2000 example_madt = Some s' \<and> madt_index s' 0 = 1 \<and> madt_index s' 1 = 1
    \<and> kload64 (kmem s') 0x5000 = 0x200C \<and> kload64 (kmem s') 0x6000 = 0x2000"
proof -
  have types: "of_type (kmem example_madt) 0 [0x2000, 0x200C] = [0x200C]" "of_type (kmem example_madt) 1 [0x2000, 0x200C] = [0x2000]"
    by (simp_all add: of_type_def kload8_def example_madt_def kaddr_def HIGHER_HALF_CODE_def HEAP_START_ADDR_def HIGHER_HALF_DATA_def)
  have chain: "madt_chain (kmem example_madt) 0x2014 0x2000 [0x2000, 0x200C]"
    by (simp add: kload8_def example_madt_def kaddr_def HIGHER_HALF_CODE_def HEAP_START_ADDR_def HIGHER_HALF_DATA_def)
  have near: "unat (kaddr a) < 0x5000" if "a \<in> {0x2000, 0x2001, 0x200C, 0x200D}" for a
    using that unfolding insert_iff empty_iff
    by (elim disjE) (simp_all add: kaddr_def HIGHER_HALF_CODE_def HEAP_START_ADDR_def HIGHER_HALF_DATA_def)
  have "\<forall>e\<in>set [0x2000, 0x200C]. off_arrays example_madt (length [0x2000, 0x200C :: u64]) (kaddr e) 1
      \<and> off_arrays example_madt (length [0x2000, 0x200C :: u64]) (kaddr (e + 1)) 1"
    using example_off_arrays near by (simp add: numeral_2_eq_2)
  with example_slots_apart obtain s' where s': "madt_loop 0x2014 0x2000 example_madt = Some s'"
    and all: "\<forall>t\<in>madt_types. madt_index s' t = madt_index example_madt t + of_nat (length (of_type (kmem example_madt) t [0x2000, 0x200C]))
      \<and> (\<forall>k<length (of_type (kmem example_madt) t [0x2000, 0x200C]).
        kload64 (kmem s') (madt_array example_madt t + 8 * (madt_index example_madt t + of_nat k))
          = of_type (kmem example_madt) t [0x2000, 0x200C] ! k)"
    using madt_scan_complete [OF chain] by (auto simp: numeral_2_eq_2)
  have start: "madt_array example_madt 0 = 0x5000" "madt_array example_madt 1 = 0x6000"
      "madt_index example_madt 0 = 0" "madt_index example_madt 1 = 0" "0 \<in> madt_types" "1 \<in> madt_types"
    by (simp_all add: madt_array_def madt_index_def example_madt_def madt_types_def)
  from all [THEN bspec, OF start(5)] all [THEN bspec, OF start(6)] show ?thesis
    using s' by (simp add: types start(1-4))
qed

end
