(* ===== verification/Port_IO.thy ===== *)
theory Port_IO
  imports Kernel_Prelude
begin

text \<open>
  Port input and output (\<open>utility/utils.h\<close>) and the two devices behind it: the pair of interrupt
  controllers (\<open>hardware/pic/pic.c\<close>) and the serial line (\<open>hardware/com/com.c\<close>). A run is the list of
  port accesses, oldest first; a device is the function that gives the value a port returns
  after such a list, a parameter of every function that reads a port.
\<close>

section \<open>Port accesses\<close>

datatype io_event = Outb u16 u8 | Inb u16

type_synonym io_device = "io_event list \<Rightarrow> u16 \<Rightarrow> u8"

definition asm_io_outb :: "u16 \<Rightarrow> u8 \<Rightarrow> io_event list \<Rightarrow> io_event list" where
  "asm_io_outb port v h = h @ [Outb port v]"

definition asm_io_inb :: "io_device \<Rightarrow> u16 \<Rightarrow> io_event list \<Rightarrow> u8 \<times> io_event list" where
  "asm_io_inb dev port h = (dev h port, h @ [Inb port])"

definition asm_io_wait :: "io_device \<Rightarrow> io_event list \<Rightarrow> io_event list" where
  "asm_io_wait dev h = snd (asm_io_inb dev 0x80 h)"

section \<open>Interrupt controllers\<close>

abbreviation (input) PIC1_COMMAND :: u16 where "PIC1_COMMAND \<equiv> 0x20"
abbreviation (input) PIC1_DATA :: u16 where "PIC1_DATA \<equiv> 0x21"
abbreviation (input) PIC2_COMMAND :: u16 where "PIC2_COMMAND \<equiv> 0xA0"
abbreviation (input) PIC2_DATA :: u16 where "PIC2_DATA \<equiv> 0xA1"
abbreviation (input) ICW4_8086 :: u8 where "ICW4_8086 \<equiv> 0x01"

definition pic_disable :: "io_event list \<Rightarrow> io_event list" where
  "pic_disable h = asm_io_outb PIC1_DATA 0xFF (asm_io_outb PIC2_DATA 0xFF h)"

definition pic_remap :: "io_device \<Rightarrow> io_event list \<Rightarrow> io_event list" where
  "pic_remap dev h =
     (let (mask1, h) = asm_io_inb dev PIC1_DATA h;
          (mask2, h) = asm_io_inb dev PIC2_DATA h;
          h = asm_io_outb PIC1_COMMAND 0x11 h;
          h = asm_io_outb PIC2_COMMAND 0x11 h;
          h = asm_io_wait dev h;
          h = asm_io_outb PIC1_DATA 0x20 h;
          h = asm_io_outb PIC2_DATA 0x28 h;
          h = asm_io_wait dev h;
          h = asm_io_outb PIC1_DATA 0x04 h;
          h = asm_io_outb PIC2_DATA 0x02 h;
          h = asm_io_wait dev h;
          h = asm_io_outb PIC1_DATA 0x01 h;
          h = asm_io_outb PIC2_DATA 0x01 h;
          h = asm_io_wait dev h;
          h = asm_io_outb PIC1_DATA 0x00 h;
          h = asm_io_outb PIC2_DATA 0x00 h;
          h = asm_io_wait dev h;
          h = asm_io_outb PIC1_DATA ICW4_8086 h;
          h = asm_io_wait dev h;
          h = asm_io_outb PIC2_DATA ICW4_8086 h;
          h = asm_io_wait dev h;
          h = asm_io_outb PIC1_DATA mask1 h
      in asm_io_outb PIC2_DATA mask2 h)"

text \<open>The shift \<open>1 << irq_line\<close> is done in \<open>int\<close>; the result is stored in eight bits.\<close>

definition pic_port_line :: "u8 \<Rightarrow> u16 \<times> u8" where
  "pic_port_line irq_line = (if irq_line < 8 then (PIC1_DATA, irq_line) else (PIC2_DATA, irq_line - 8))"

definition pic_set_mask :: "io_device \<Rightarrow> u8 \<Rightarrow> io_event list \<Rightarrow> io_event list" where
  "pic_set_mask dev irq_line h =
     (let (port, line) = pic_port_line irq_line;
          (v, h) = asm_io_inb dev port h;
          v = v OR ucast (push_bit (unat line) 1 :: u32)
      in asm_io_outb port v h)"

definition pic_clear_mask :: "io_device \<Rightarrow> u8 \<Rightarrow> io_event list \<Rightarrow> io_event list" where
  "pic_clear_mask dev irq_line h =
     (let (port, line) = pic_port_line irq_line;
          (v, h) = asm_io_inb dev port h;
          v = v AND ucast (NOT (push_bit (unat line) 1) :: u32)
      in asm_io_outb port v h)"

definition pic_signal_eoi :: "u64 \<Rightarrow> io_event list \<Rightarrow> io_event list" where
  "pic_signal_eoi isr_number h =
     (let h = (if 40 \<le> isr_number then asm_io_outb PIC2_COMMAND 0x20 h else h)
      in asm_io_outb PIC1_COMMAND 0x20 h)"

section \<open>Serial line\<close>

datatype com_port_t = COM1 | COM2 | COM3 | COM4

fun com_base :: "com_port_t \<Rightarrow> u16" where
  "com_base COM1 = 0x3F8"
| "com_base COM2 = 0x2F8"
| "com_base COM3 = 0x3E8"
| "com_base COM4 = 0x2E8"

definition com_init :: "com_port_t \<Rightarrow> io_event list \<Rightarrow> io_event list" where
  "com_init port h =
     (let p = com_base port;
          h = asm_io_outb (p + 1) 0x00 h;
          h = asm_io_outb (p + 3) 0x80 h;
          h = asm_io_outb (p + 0) 0x03 h;
          h = asm_io_outb (p + 1) 0x00 h;
          h = asm_io_outb (p + 3) 0x03 h;
          h = asm_io_outb (p + 2) 0xC7 h
      in asm_io_outb (p + 4) 0x0B h)"

definition com_is_transmit_empty :: "io_device \<Rightarrow> com_port_t \<Rightarrow> io_event list \<Rightarrow> bool \<times> io_event list" where
  "com_is_transmit_empty dev port h = (let (v, h) = asm_io_inb dev (com_base port + 5) h in (v AND 0x20 \<noteq> 0, h))"

definition com_is_received :: "io_device \<Rightarrow> com_port_t \<Rightarrow> io_event list \<Rightarrow> bool \<times> io_event list" where
  "com_is_received dev port h = (let (v, h) = asm_io_inb dev (com_base port + 5) h in (v AND 1 \<noteq> 0, h))"

text \<open>The busy-wait loops; \<open>None\<close> is a device that never gets ready.\<close>

partial_function (option) com_wait_transmit :: "io_device \<Rightarrow> com_port_t \<Rightarrow> io_event list \<Rightarrow> io_event list option" where
  "com_wait_transmit dev port h =
     (let (ready, h) = com_is_transmit_empty dev port h in if ready then Some h else com_wait_transmit dev port h)"

definition com_send_char :: "io_device \<Rightarrow> com_port_t \<Rightarrow> u8 \<Rightarrow> io_event list \<Rightarrow> io_event list option" where
  "com_send_char dev port c h = map_option (asm_io_outb (com_base port) c) (com_wait_transmit dev port h)"

partial_function (option) com_wait_receive :: "io_device \<Rightarrow> com_port_t \<Rightarrow> io_event list \<Rightarrow> io_event list option" where
  "com_wait_receive dev port h =
     (let (ready, h) = com_is_received dev port h in if ready then Some h else com_wait_receive dev port h)"

definition com_recv :: "io_device \<Rightarrow> com_port_t \<Rightarrow> io_event list \<Rightarrow> (u8 \<times> io_event list) option" where
  "com_recv dev port h = map_option (asm_io_inb dev (com_base port)) (com_wait_receive dev port h)"

text \<open>
  \<open>com_send_string\<close> walks the string from \<open>str\<close> to its null character. The index \<open>i\<close> is an \<open>int\<close>: to count
  past \<open>2^31 - 1\<close> is the error of a signed overflow.
\<close>

partial_function (option) com_send_loop ::
  "io_device \<Rightarrow> com_port_t \<Rightarrow> (u64 \<Rightarrow> u8) \<Rightarrow> u64 \<Rightarrow> int \<Rightarrow> io_event list \<Rightarrow> io_event list result option" where
  "com_send_loop dev port m str i h =
     (if m (str + of_int i) \<noteq> 0
      then Option.bind (com_send_char dev port (m (str + of_int i)) h) (\<lambda>h.
             if i < 2 ^ 31 - 1 then com_send_loop dev port m str (i + 1) h else Some (Inl Int_Overflow))
      else Some (Inr h))"

definition com_send_string ::
  "io_device \<Rightarrow> com_port_t \<Rightarrow> (u64 \<Rightarrow> u8) \<Rightarrow> u64 \<Rightarrow> io_event list \<Rightarrow> io_event list result option" where
  "com_send_string dev port m str h = com_send_loop dev port m str 0 h"

end
