(* ===== verification/APIC.thy ===== *)
theory APIC
  imports ACPI Port_IO
begin

text \<open>
  \<open>hardware/apic/apic.c\<close> and \<open>hardware/hpet/hpet.c\<close>: the local APIC, the I/O APICs, the event timer and
  the start of them all. The controllers are reached through memory-mapped registers: a run is
  the list of register accesses, oldest first, and a device is the function that gives the
  value of a read after such a list, a parameter like the one of the ports.
\<close>

section \<open>Register accesses\<close>

datatype mmio_event = Read32 u64 | Write32 u64 u32 | Read64 u64 | Write64 u64 u64

type_synonym mmio_device = "mmio_event list \<Rightarrow> u64 \<Rightarrow> u64"

record apic_state = acpi_state +
  lapic_address :: u64
  lapic_timer_freq :: u32
  hpet :: u64
  hpet_regs :: u64
  ports :: "io_event list"
  mmio :: "mmio_event list"

definition mmio_read32 :: "mmio_device \<Rightarrow> u64 \<Rightarrow> 'a apic_state_scheme \<Rightarrow> u32 \<times> 'a apic_state_scheme" where
  "mmio_read32 dev a s = (ucast (dev (mmio s) a), s\<lparr>mmio := mmio s @ [Read32 a]\<rparr>)"

definition mmio_write32 :: "u64 \<Rightarrow> u32 \<Rightarrow> 'a apic_state_scheme \<Rightarrow> 'a apic_state_scheme" where
  "mmio_write32 a v s = s\<lparr>mmio := mmio s @ [Write32 a v]\<rparr>"

definition mmio_read64 :: "mmio_device \<Rightarrow> u64 \<Rightarrow> 'a apic_state_scheme \<Rightarrow> u64 \<times> 'a apic_state_scheme" where
  "mmio_read64 dev a s = (dev (mmio s) a, s\<lparr>mmio := mmio s @ [Read64 a]\<rparr>)"

definition mmio_write64 :: "u64 \<Rightarrow> u64 \<Rightarrow> 'a apic_state_scheme \<Rightarrow> 'a apic_state_scheme" where
  "mmio_write64 a v s = s\<lparr>mmio := mmio s @ [Write64 a v]\<rparr>"

section \<open>CPU identification\<close>

text \<open>
  The instruction is a parameter: the values of \<open>eax\<close>, \<open>ebx\<close>, \<open>ecx\<close>, \<open>edx\<close> for a leaf and a subleaf. The first
  query asks for a maximal leaf, which has no subleaves.
\<close>

type_synonym cpuid_instr = "u32 \<Rightarrow> u32 \<Rightarrow> u32 \<times> u32 \<times> u32 \<times> u32"

record cpuid_registers_t =
  leaf :: u32
  subleaf :: u32
  eax :: u32
  ebx :: u32
  ecx :: u32
  edx :: u32

definition cpuid :: "cpuid_instr \<Rightarrow> cpuid_registers_t \<Rightarrow> bool \<times> cpuid_registers_t" where
  "cpuid instr registers =
     (let (cpuid_max, _, _, _) = instr (leaf registers AND 0x80000000) 0 in
      if cpuid_max < leaf registers then (False, registers)
      else let (a, b, c, d) = instr (leaf registers) (subleaf registers)
           in (True, registers\<lparr>eax := a, ebx := b, ecx := c, edx := d\<rparr>))"

abbreviation (input) CPUID_GET_FEATURES :: u32 where "CPUID_GET_FEATURES \<equiv> 1"
abbreviation (input) CPUID_FEAT_EDX_APIC :: u32 where "CPUID_FEAT_EDX_APIC \<equiv> push_bit 9 1"

definition apic_is_available :: "cpuid_instr \<Rightarrow> bool" where
  "apic_is_available instr =
     (let (_, regs) = cpuid instr \<lparr>leaf = CPUID_GET_FEATURES, subleaf = 0, eax = 0, ebx = 0, ecx = 0, edx = 0\<rparr>
      in edx regs AND CPUID_FEAT_EDX_APIC \<noteq> 0)"

section \<open>Event timer\<close>

definition hpet_address :: "memory \<Rightarrow> u64 \<Rightarrow> u64" where "hpet_address m p = kload64 m (p + sizeof_sdt_t + 8)"

abbreviation (input) hpet_capabilities :: "u64 \<Rightarrow> u64" where "hpet_capabilities r \<equiv> r"
abbreviation (input) hpet_general_config :: "u64 \<Rightarrow> u64" where "hpet_general_config r \<equiv> r + 0x10"
abbreviation (input) hpet_counter_value :: "u64 \<Rightarrow> u64" where "hpet_counter_value r \<equiv> r + 0xF0"

definition hpet_init :: "'a apic_state_scheme \<Rightarrow> 'a apic_state_scheme result option" where
  "hpet_init s =
     obind (acpi_find_sdt s ''HPET'') (\<lambda>p.
       let s = s\<lparr>hpet := p\<rparr>;
           s = s\<lparr>hpet_regs := PHYS_TO_HIGHER_HALF_DATA (hpet_address (kmem s) (hpet s))\<rparr>;
           s = mmio_write64 (hpet_counter_value (hpet_regs s)) 0 s
       in Some (Inr (mmio_write64 (hpet_general_config (hpet_regs s)) 1 s)))"

text \<open>The waiting loop; \<open>None\<close> when the counter never reaches the target.\<close>

partial_function (option) hpet_wait :: "mmio_device \<Rightarrow> u64 \<Rightarrow> 'a apic_state_scheme \<Rightarrow> 'a apic_state_scheme option" where
  "hpet_wait dev target_value s =
     (let (v, s) = mmio_read64 dev (hpet_counter_value (hpet_regs s)) s
      in if v < target_value then hpet_wait dev target_value s else Some s)"

text \<open>The quotient is computed with 32 bits, the product with 64.\<close>

definition hpet_ticks :: "u64 \<Rightarrow> u32 \<Rightarrow> u64" where
  "hpet_ticks us clock_period = us * ucast ((1000000000 :: u32) div clock_period)"

definition hpet_usleep :: "mmio_device \<Rightarrow> u64 \<Rightarrow> 'a apic_state_scheme \<Rightarrow> 'a apic_state_scheme result option" where
  "hpet_usleep dev us s =
     (let (capabilities, s) = mmio_read64 dev (hpet_capabilities (hpet_regs s)) s;
          clock_period = ucast (drop_bit 32 capabilities);
          (v, s) = mmio_read64 dev (hpet_counter_value (hpet_regs s)) s
      in if clock_period = 0 then Some (Inl Divide_Error)
         else map_option Inr (hpet_wait dev (v + hpet_ticks us clock_period) s))"

definition hpet_get_counter_value :: "mmio_device \<Rightarrow> 'a apic_state_scheme \<Rightarrow> u64 \<times> 'a apic_state_scheme" where
  "hpet_get_counter_value dev s = mmio_read64 dev (hpet_counter_value (hpet_regs s)) s"

section \<open>Local APIC\<close>

abbreviation (input) LAPIC_ID_REG :: u32 where "LAPIC_ID_REG \<equiv> 0x020"
abbreviation (input) LAPIC_EOI_REG :: u32 where "LAPIC_EOI_REG \<equiv> 0x0B0"
abbreviation (input) LAPIC_SPURIOUS_REG :: u32 where "LAPIC_SPURIOUS_REG \<equiv> 0x0F0"
abbreviation (input) LAPIC_ICR0_REG :: u32 where "LAPIC_ICR0_REG \<equiv> 0x300"
abbreviation (input) LAPIC_ICR1_REG :: u32 where "LAPIC_ICR1_REG \<equiv> 0x310"
abbreviation (input) LAPIC_TIMER_REG :: u32 where "LAPIC_TIMER_REG \<equiv> 0x320"
abbreviation (input) LAPIC_TIMER_INITCNT_REG :: u32 where "LAPIC_TIMER_INITCNT_REG \<equiv> 0x380"
abbreviation (input) LAPIC_TIMER_CURCNT_REG :: u32 where "LAPIC_TIMER_CURCNT_REG \<equiv> 0x390"
abbreviation (input) LAPIC_TIMER_DIV_REG :: u32 where "LAPIC_TIMER_DIV_REG \<equiv> 0x3E0"
abbreviation (input) LAPIC_ENABLE_BIT :: u32 where "LAPIC_ENABLE_BIT \<equiv> push_bit 8 1"
abbreviation (input) LAPIC_TIMER_DISABLE_BIT :: u32 where "LAPIC_TIMER_DISABLE_BIT \<equiv> push_bit 16 1"

abbreviation (input) LAPIC_TIMER_INT :: u32 where "LAPIC_TIMER_INT \<equiv> 32"
abbreviation (input) SPURIOUS_INT :: u32 where "SPURIOUS_INT \<equiv> 255"

definition lapic_read_reg :: "mmio_device \<Rightarrow> u32 \<Rightarrow> 'a apic_state_scheme \<Rightarrow> u32 \<times> 'a apic_state_scheme" where
  "lapic_read_reg dev reg s = mmio_read32 dev (lapic_address s + ucast reg) s"

definition lapic_write_reg :: "u32 \<Rightarrow> u32 \<Rightarrow> 'a apic_state_scheme \<Rightarrow> 'a apic_state_scheme" where
  "lapic_write_reg reg data s = mmio_write32 (lapic_address s + ucast reg) data s"

definition lapic_enable :: "mmio_device \<Rightarrow> 'a apic_state_scheme \<Rightarrow> 'a apic_state_scheme" where
  "lapic_enable dev s =
     (let (v, s) = lapic_read_reg dev LAPIC_SPURIOUS_REG s
      in lapic_write_reg LAPIC_SPURIOUS_REG (v OR LAPIC_ENABLE_BIT OR SPURIOUS_INT) s)"

definition lapic_get_id :: "mmio_device \<Rightarrow> 'a apic_state_scheme \<Rightarrow> u8 \<times> 'a apic_state_scheme" where
  "lapic_get_id dev s = (let (v, s) = lapic_read_reg dev LAPIC_ID_REG s in (ucast (drop_bit 24 v), s))"

definition lapic_signal_eoi :: "'a apic_state_scheme \<Rightarrow> 'a apic_state_scheme" where
  "lapic_signal_eoi s = lapic_write_reg LAPIC_EOI_REG 0 s"

definition lapic_send_ipi :: "u32 \<Rightarrow> u8 \<Rightarrow> 'a apic_state_scheme \<Rightarrow> 'a apic_state_scheme" where
  "lapic_send_ipi lapic_id vector s =
     (let s = lapic_write_reg LAPIC_ICR1_REG (push_bit 24 lapic_id) s
      in lapic_write_reg LAPIC_ICR0_REG (ucast vector) s)"

definition lapic_timer_calibrate :: "mmio_device \<Rightarrow> u32 \<Rightarrow> 'a apic_state_scheme \<Rightarrow> (u32 \<times> 'a apic_state_scheme) result option" where
  "lapic_timer_calibrate dev us s =
     (let s = lapic_write_reg LAPIC_TIMER_DIV_REG 3 s;
          initial_count = 0xFFFFFFFF;
          s = lapic_write_reg LAPIC_TIMER_INITCNT_REG initial_count s
      in obind (hpet_usleep dev (ucast us) s) (\<lambda>s.
           let s = lapic_write_reg LAPIC_TIMER_REG LAPIC_TIMER_DISABLE_BIT s;
               (final_count, s) = lapic_read_reg dev LAPIC_TIMER_CURCNT_REG s;
               total_ticks = initial_count - final_count
           in Some (Inr (total_ticks, s))))"

definition lapic_timer_init :: "mmio_device \<Rightarrow> 'a apic_state_scheme \<Rightarrow> 'a apic_state_scheme result option" where
  "lapic_timer_init dev s =
     obind (lapic_timer_calibrate dev 1000 s) (\<lambda>(ticks, s). Some (Inr (s\<lparr>lapic_timer_freq := ticks * 1000\<rparr>)))"

definition lapic_timer_oneshot :: "u32 \<Rightarrow> 'a apic_state_scheme \<Rightarrow> 'a apic_state_scheme" where
  "lapic_timer_oneshot us s =
     (let ticks = us * (lapic_timer_freq s div 1000000);
          s = lapic_write_reg LAPIC_TIMER_REG LAPIC_TIMER_INT s;
          s = lapic_write_reg LAPIC_TIMER_DIV_REG 3 s
      in lapic_write_reg LAPIC_TIMER_INITCNT_REG ticks s)"

section \<open>I/O APICs\<close>

abbreviation (input) IOREGSEL :: u64 where "IOREGSEL \<equiv> 0"
abbreviation (input) IOWIN :: u64 where "IOWIN \<equiv> 0x10"
abbreviation (input) IOAPICVER_REG :: u8 where "IOAPICVER_REG \<equiv> 1"

definition IRQ_TO_IOREDTBL_REG :: "u32 \<Rightarrow> u32" where "IRQ_TO_IOREDTBL_REG irq = irq * 2 + 0x10"

text \<open>\<open>madt_ioapics[i]\<close> and \<open>madt_isos[i]\<close>.\<close>

definition madt_ioapic_at :: "'a acpi_state_scheme \<Rightarrow> u64 \<Rightarrow> u64" where
  "madt_ioapic_at s i = kload64 (kmem s) (madt_ioapics s + 8 * i)"
definition madt_iso_at :: "'a acpi_state_scheme \<Rightarrow> u64 \<Rightarrow> u64" where
  "madt_iso_at s i = kload64 (kmem s) (madt_isos s + 8 * i)"

definition ioapic_i_addr :: "'a acpi_state_scheme \<Rightarrow> u64 \<Rightarrow> u64" where
  "ioapic_i_addr s ioapic_i = PHYS_TO_HIGHER_HALF_DATA (ucast (ioapic_ioapic_address (kmem s) (madt_ioapic_at s ioapic_i)))"

definition ioapic_read_reg :: "mmio_device \<Rightarrow> u64 \<Rightarrow> u8 \<Rightarrow> 'a apic_state_scheme \<Rightarrow> u32 \<times> 'a apic_state_scheme" where
  "ioapic_read_reg dev ioapic_i reg s =
     (let s = mmio_write32 (ioapic_i_addr s ioapic_i + IOREGSEL) (ucast reg) s
      in mmio_read32 dev (ioapic_i_addr s ioapic_i + IOWIN) s)"

definition ioapic_write_reg :: "u64 \<Rightarrow> u8 \<Rightarrow> u32 \<Rightarrow> 'a apic_state_scheme \<Rightarrow> 'a apic_state_scheme" where
  "ioapic_write_reg ioapic_i reg data s =
     (let s = mmio_write32 (ioapic_i_addr s ioapic_i + IOREGSEL) (ucast reg) s
      in mmio_write32 (ioapic_i_addr s ioapic_i + IOWIN) data s)"

definition ioapic_get_max_redirect :: "mmio_device \<Rightarrow> u64 \<Rightarrow> 'a apic_state_scheme \<Rightarrow> u32 \<times> 'a apic_state_scheme" where
  "ioapic_get_max_redirect dev ioapic_i s =
     (let (v, s) = ioapic_read_reg dev ioapic_i IOAPICVER_REG s in (drop_bit 16 (v AND 0xFF0000), s))"

function ioapic_i_loop :: "mmio_device \<Rightarrow> u32 \<Rightarrow> u64 \<Rightarrow> 'a apic_state_scheme \<Rightarrow> (u64 \<times> 'a apic_state_scheme) result" where
  "ioapic_i_loop dev gsi ioapic_i s =
     (if ioapic_i < madt_ioapics_i s
      then (let start_gsi = ioapic_gsi_base (kmem s) (madt_ioapic_at s ioapic_i);
                (n, s) = ioapic_get_max_redirect dev ioapic_i s;
                end_gsi = start_gsi + n
            in if start_gsi \<le> gsi \<and> gsi < end_gsi then Inr (ioapic_i, s)
               else ioapic_i_loop dev gsi (ioapic_i + 1) s)
      else Inl (Panic ''Couldn't find an IOAPIC for GSI!''))"
  by pat_completeness auto
termination
proof (relation "measure (\<lambda>(dev, gsi, i, s). unat (madt_ioapics_i s) - unat i)", simp)
  fix dev gsi i and s t :: "'a apic_state_scheme" and p q n e
  assume less: "i < madt_ioapics_i s" and p: "p = ioapic_gsi_base (kmem s) (madt_ioapic_at s i)"
    and q: "q = ioapic_get_max_redirect dev i s" "(n, t) = q"
  have "unat (i + 1) = unat i + 1" "unat i < unat (madt_ioapics_i s)"
    using less unat_u64_less [of "madt_ioapics_i s"] by (simp_all add: word_less_nat_alt unat_add_no_wrap)
  moreover have "madt_ioapics_i t = madt_ioapics_i s"
    using q by (simp add: ioapic_get_max_redirect_def ioapic_read_reg_def mmio_read32_def mmio_write32_def Let_def)
  ultimately show "((dev, gsi, i + 1, t), dev, gsi, i, s) \<in> measure (\<lambda>(dev, gsi, i, s). unat (madt_ioapics_i s) - unat i)"
    by simp
qed

declare ioapic_i_loop.simps [simp del]

definition ioapic_i_from_gsi :: "mmio_device \<Rightarrow> u32 \<Rightarrow> 'a apic_state_scheme \<Rightarrow> (u64 \<times> 'a apic_state_scheme) result" where
  "ioapic_i_from_gsi dev gsi s = ioapic_i_loop dev gsi 0 s"

definition ioapic_get_vector_from_gsi :: "mmio_device \<Rightarrow> u32 \<Rightarrow> 'a apic_state_scheme \<Rightarrow> (u8 \<times> 'a apic_state_scheme) result" where
  "ioapic_get_vector_from_gsi dev gsi s =
     rbind (ioapic_i_from_gsi dev gsi s) (\<lambda>(ioapic_i, s).
       let ioredtbl = IRQ_TO_IOREDTBL_REG (gsi - ioapic_gsi_base (kmem s) (madt_ioapic_at s ioapic_i));
           (lo, s) = ioapic_read_reg dev ioapic_i (ucast ioredtbl) s;
           (hi, s) = ioapic_read_reg dev ioapic_i (ucast (ioredtbl + 1)) s;
           entry = (ucast lo :: u64) OR push_bit 32 (ucast hi)
       in Inr (ucast (entry AND 0xFF), s))"

abbreviation (input) IOAPIC_PINPOL_BIT :: u64 where "IOAPIC_PINPOL_BIT \<equiv> push_bit 13 1"
abbreviation (input) IOAPIC_TRIGMODE_BIT :: u64 where "IOAPIC_TRIGMODE_BIT \<equiv> push_bit 15 1"
abbreviation (input) IOAPIC_MASK_BIT :: u64 where "IOAPIC_MASK_BIT \<equiv> push_bit 16 1"

definition redirect_entry :: "u32 \<Rightarrow> u8 \<Rightarrow> u16 \<Rightarrow> bool \<Rightarrow> u64" where
  "redirect_entry lapic_id vector flags mask' =
     (let e = ucast vector;
          e = (if flags AND 2 \<noteq> 0 then e OR IOAPIC_PINPOL_BIT else e);
          e = (if flags AND 8 \<noteq> 0 then e OR IOAPIC_TRIGMODE_BIT else e);
          e = (if mask' then e OR IOAPIC_MASK_BIT else e AND NOT IOAPIC_MASK_BIT)
      in e OR push_bit 56 (ucast lapic_id))"

definition ioapic_set_gsi_redirect ::
    "mmio_device \<Rightarrow> u32 \<Rightarrow> u8 \<Rightarrow> u32 \<Rightarrow> u16 \<Rightarrow> bool \<Rightarrow> 'a apic_state_scheme \<Rightarrow> 'a apic_state_scheme result" where
  "ioapic_set_gsi_redirect dev lapic_id vector gsi flags mask' s =
     (let e = redirect_entry lapic_id vector flags mask' in
      rbind (ioapic_i_from_gsi dev gsi s) (\<lambda>(ioapic_i, s).
        let ioredtbl = IRQ_TO_IOREDTBL_REG (gsi - ioapic_gsi_base (kmem s) (madt_ioapic_at s ioapic_i));
            s = ioapic_write_reg ioapic_i (ucast ioredtbl) (ucast e) s
        in Inr (ioapic_write_reg ioapic_i (ucast (ioredtbl + 1)) (ucast (drop_bit 32 e)) s)))"

text \<open>The first override for the interrupt line decides; without one the line is its own number.\<close>

function iso_loop :: "'a acpi_state_scheme \<Rightarrow> u8 \<Rightarrow> u64 \<Rightarrow> u64 option" where
  "iso_loop s irq isos_i =
     (if isos_i < madt_isos_i s
      then if iso_irq_source (kmem s) (madt_iso_at s isos_i) = irq then Some (madt_iso_at s isos_i)
           else iso_loop s irq (isos_i + 1)
      else None)"
  by pat_completeness auto
termination
proof (relation "measure (\<lambda>(s, irq, i). unat (madt_isos_i s) - unat i)", simp)
  fix irq i and s :: "'a acpi_state_scheme"
  assume "i < madt_isos_i s"
  then have "unat (i + 1) = unat i + 1" "unat i < unat (madt_isos_i s)"
    using unat_u64_less [of "madt_isos_i s"] by (simp_all add: word_less_nat_alt unat_add_no_wrap)
  then show "((s, irq, i + 1), s, irq, i) \<in> measure (\<lambda>(s, irq, i). unat (madt_isos_i s) - unat i)" by simp
qed

declare iso_loop.simps [simp del]

definition ioapic_set_irq_redirect ::
    "mmio_device \<Rightarrow> u32 \<Rightarrow> u8 \<Rightarrow> u8 \<Rightarrow> bool \<Rightarrow> 'a apic_state_scheme \<Rightarrow> (u32 \<times> 'a apic_state_scheme) result" where
  "ioapic_set_irq_redirect dev lapic_id vector irq mask' s =
     (case iso_loop s irq 0 of
        Some e \<Rightarrow>
          rbind (ioapic_set_gsi_redirect dev lapic_id vector (iso_gsi (kmem s) e) (iso_flags (kmem s) e) mask' s)
            (\<lambda>s. Inr (iso_gsi (kmem s) e, s))
      | None \<Rightarrow> rbind (ioapic_set_gsi_redirect dev lapic_id vector (ucast irq) 0 mask' s) (\<lambda>s. Inr (ucast irq, s)))"

section \<open>Initialisation\<close>

text \<open>
  The bitmap of the lines already redirected is an object of its own here, as it is private to the
  function; its block is still taken from the heap and cleared in memory.
\<close>

definition apic_irq_step ::
    "mmio_device \<Rightarrow> nat \<Rightarrow> bitmap_t \<times> 'a apic_state_scheme \<Rightarrow> (bitmap_t \<times> 'a apic_state_scheme) result" where
  "apic_irq_step dev i = (\<lambda>(irq_bitmap, s).
     rbind (bitmap_check_bit irq_bitmap (int i)) (\<lambda>b.
       if b = 0
       then let (id, s) = lapic_get_id dev s in
            rbind (ioapic_set_irq_redirect dev (ucast id) (of_nat (i + 32)) (of_nat i) True s) (\<lambda>(irq, s).
              rbind (bitmap_set_bit irq_bitmap (sint irq)) (\<lambda>irq_bitmap. Inr (irq_bitmap, s)))
       else Inr (irq_bitmap, s)))"

definition apic_init :: "cpuid_instr \<Rightarrow> mmio_device \<Rightarrow> 'a apic_state_scheme \<Rightarrow> 'a apic_state_scheme result option" where
  "apic_init instr dev s =
     (if \<not> apic_is_available instr then Some (Inl (Panic ''No APIC was found on this computer!''))
      else
        let s = s\<lparr>lapic_address := PHYS_TO_HIGHER_HALF_DATA (ucast (madt_lapic_address (kmem s) (madt s)))\<rparr>;
            s = s\<lparr>ports := pic_disable (ports s)\<rparr>;
            s = lapic_enable dev s
        in obind (malloc s 16) (\<lambda>(map_ptr, s).
           let s = s\<lparr>kmem := memset (kmem s) (kaddr map_ptr) 0 16\<rparr> in
           obind (Some (rfold (apic_irq_step dev) [0..<16] (\<lparr>bm_map = replicate 16 0, bm_size = 16\<rparr>, s))) (\<lambda>(_, s).
           obind (hpet_init s) (\<lambda>s. lapic_timer_init dev s))))"

end
