(* ===== verification/IOAPIC_Routing.thy ===== *)
theory IOAPIC_Routing
  imports APIC
begin

text \<open>
  What the I/O APICs make of the register accesses: the 82093AA as a function of the accesses so
  far, the redirection table it then holds, and what the kernel's redirections mean in it.
\<close>

section \<open>The controller\<close>

text \<open>
  A controller has an index register and a window to the register it selects. The version register
  (1) ignores writes; bits 12 and 14 of an entry are set by the controller itself.
\<close>

record ioapic =
  ioregsel :: u8
  ioregs :: "u8 \<Rightarrow> u32"

definition ioapic_step :: "u64 \<Rightarrow> mmio_event \<Rightarrow> ioapic \<Rightarrow> ioapic" where
  "ioapic_step a e st = (case e of
     Write32 x v \<Rightarrow>
       if x = a + IOREGSEL then st\<lparr>ioregsel := ucast v\<rparr>
       else if x = a + IOWIN \<and> ioregsel st \<noteq> 1 then st\<lparr>ioregs := (ioregs st)(ioregsel st := v)\<rparr>
       else st
   | _ \<Rightarrow> st)"

definition ioapic_after :: "u64 \<Rightarrow> ioapic \<Rightarrow> mmio_event list \<Rightarrow> ioapic" where
  "ioapic_after a st h = fold (ioapic_step a) h st"

abbreviation hardware_bits :: u32 where "hardware_bits \<equiv> 0x5000"

definition is_ioapic :: "mmio_device \<Rightarrow> u64 \<Rightarrow> ioapic \<Rightarrow> bool" where
  "is_ioapic dev a st \<longleftrightarrow> (\<forall>h. let t = ioapic_after a st h in
     (ucast (dev h (a + IOWIN)) :: u32) AND NOT hardware_bits = ioregs t (ioregsel t) AND NOT hardware_bits)"

lemma ioapic_after_append [simp]: "ioapic_after a st (h @ h') = ioapic_after a (ioapic_after a st h) h'"
  by (simp add: ioapic_after_def)

lemma ioapic_after_Nil [simp]: "ioapic_after a st [] = st"
  by (simp add: ioapic_after_def)

lemma ioapic_after_Cons [simp]: "ioapic_after a st (e # h) = ioapic_after a (ioapic_step a e st) h"
  by (simp add: ioapic_after_def)

lemma ioapic_step_read [simp]: "ioapic_step a (Read32 x) st = st"
  by (simp add: ioapic_step_def)

lemma ioapic_step_select [simp]: "ioapic_step a (Write32 a v) st = st\<lparr>ioregsel := ucast v\<rparr>"
  by (simp add: ioapic_step_def)

lemma ioapic_step_window [simp]:
  "ioregsel st \<noteq> 1 \<Longrightarrow> ioapic_step a (Write32 (a + 0x10) v) st = st\<lparr>ioregs := (ioregs st)(ioregsel st := v)\<rparr>"
  by (simp add: ioapic_step_def)

lemma ioapic_step_other: "x \<noteq> a \<Longrightarrow> x \<noteq> a + 0x10 \<Longrightarrow> ioapic_step a (Write32 x v) st = st"
  by (simp add: ioapic_step_def)

lemma version_kept: "ioregs (ioapic_after a st h) 1 = ioregs st 1"
proof (induction h arbitrary: st)
  case Nil
  then show ?case by simp
next
  case (Cons e h)
  then show ?case by (simp add: ioapic_step_def split: mmio_event.split)
qed

section \<open>The bank of controllers\<close>

text \<open>
  The controllers the MADT lists: their number, addresses and first interrupts, as the arrays of
  the scan have them. Two controllers share no register.
\<close>

definition ioapic_count :: "'a apic_state_scheme \<Rightarrow> nat" where "ioapic_count s = unat (madt_ioapics_i s)"

abbreviation ioapic_addr :: "'a apic_state_scheme \<Rightarrow> nat \<Rightarrow> u64" where "ioapic_addr s i \<equiv> ioapic_i_addr s (of_nat i)"

definition gsi_base :: "'a apic_state_scheme \<Rightarrow> nat \<Rightarrow> u32" where
  "gsi_base s i = ioapic_gsi_base (kmem s) (madt_ioapic_at s (of_nat i))"

definition ioapic_bank :: "mmio_device \<Rightarrow> (nat \<Rightarrow> ioapic) \<Rightarrow> 'a apic_state_scheme \<Rightarrow> bool" where
  "ioapic_bank dev st s \<longleftrightarrow> (\<forall>i<ioapic_count s. is_ioapic dev (ioapic_addr s i) (st i) \<and>
     (\<forall>j<ioapic_count s. i \<noteq> j \<longrightarrow> ioapic_addr s i \<noteq> ioapic_addr s j \<and> ioapic_addr s i \<noteq> ioapic_addr s j + 0x10))"

text \<open>The content of the version register that the kernel compares with, and the interrupts it takes a controller for.\<close>

definition max_redirect :: "ioapic \<Rightarrow> u32" where "max_redirect st = drop_bit 16 (ioregs st 1 AND 0xFF0000)"

definition handles :: "(nat \<Rightarrow> ioapic) \<Rightarrow> 'a apic_state_scheme \<Rightarrow> u32 \<Rightarrow> nat \<Rightarrow> bool" where
  "handles st s gsi i \<longleftrightarrow> gsi_base s i \<le> gsi \<and> gsi < gsi_base s i + max_redirect (st i)"

text \<open>The accesses that read the version register of a controller.\<close>

definition probe :: "'a apic_state_scheme \<Rightarrow> nat \<Rightarrow> mmio_event list" where
  "probe s i = [Write32 (ioapic_addr s i) 1, Read32 (ioapic_addr s i + 0x10)]"

lemma same_bank [simp]:
  "ioapic_i_addr (s\<lparr>mmio := h\<rparr>) i = ioapic_i_addr s i" "madt_ioapic_at (s\<lparr>mmio := h\<rparr>) i = madt_ioapic_at s i"
  "ioapic_count (s\<lparr>mmio := h\<rparr>) = ioapic_count s" "gsi_base (s\<lparr>mmio := h\<rparr>) j = gsi_base s j"
  "handles st (s\<lparr>mmio := h\<rparr>) gsi = handles st s gsi" "probe (s\<lparr>mmio := h\<rparr>) = probe s"
  "ioapic_bank dev st (s\<lparr>mmio := h\<rparr>) = ioapic_bank dev st s"
  by (auto simp: ioapic_i_addr_def madt_ioapic_at_def ioapic_count_def gsi_base_def handles_def fun_eq_iff probe_def ioapic_bank_def)

lemma off_hardware_bits:
  fixes x y m :: u32
  assumes "x AND NOT hardware_bits = y AND NOT hardware_bits" "NOT hardware_bits AND m = m"
  shows "x AND m = y AND m"
proof -
  have "x AND m = (x AND NOT hardware_bits) AND m" by (simp only: and.assoc assms(2))
  also have "\<dots> = y AND m" by (simp only: assms(1) and.assoc assms(2))
  finally show ?thesis .
qed

lemma low_byte_bits:
  fixes x y :: u32
  assumes "x AND NOT hardware_bits = y AND NOT hardware_bits" "n < 8"
  shows "bit x n = bit y n"
proof -
  have "x AND mask 8 = y AND mask 8" by (rule off_hardware_bits [OF assms(1)]) (simp add: mask_eq_exp_minus_1)
  then have "bit (x AND mask 8) n = bit (y AND mask 8) n" by simp
  then show ?thesis using assms(2) by (simp add: bit_and_iff bit_mask_iff)
qed

lemma ucast_u8_u32 [simp]: "(ucast (ucast (x :: u8) :: u32) :: u8) = x"
  by (rule bit_word_eqI) (simp add: bit_simps)

lemma ioapic_read_reg_value:
  assumes "ioapic_bank dev st s" "i < ioapic_count s"
  shows "\<exists>v. ioapic_read_reg dev (of_nat i) reg s
      = (v, s\<lparr>mmio := mmio s @ [Write32 (ioapic_addr s i) (ucast reg), Read32 (ioapic_addr s i + 0x10)]\<rparr>)
    \<and> v AND NOT hardware_bits = ioregs (ioapic_after (ioapic_addr s i) (st i) (mmio s)) reg AND NOT hardware_bits"
proof -
  let ?a = "ioapic_addr s i" and ?h = "mmio s @ [Write32 (ioapic_addr s i) (ucast reg)]"
  have "is_ioapic dev ?a (st i)" using assms by (simp add: ioapic_bank_def)
  then have "(ucast (dev ?h (?a + 0x10)) :: u32) AND NOT hardware_bits
      = ioregs (ioapic_after ?a (st i) (mmio s)) reg AND NOT hardware_bits"
    unfolding is_ioapic_def Let_def by (simp add: ucast_u8_u32)
  then show ?thesis by (simp add: ioapic_read_reg_def mmio_read32_def mmio_write32_def)
qed

lemma read_max_redirect:
  assumes "ioapic_bank dev st s" "i < ioapic_count s"
  shows "ioapic_get_max_redirect dev (of_nat i) s = (max_redirect (st i), s\<lparr>mmio := mmio s @ probe s i\<rparr>)"
proof -
  obtain v where "ioapic_read_reg dev (of_nat i) 1 s = (v, s\<lparr>mmio := mmio s @ probe s i\<rparr>)"
    and "v AND NOT hardware_bits = ioregs (st i) 1 AND NOT hardware_bits"
    using ioapic_read_reg_value [OF assms, of 1] by (auto simp: probe_def version_kept)
  then show ?thesis
    using arg_cong [OF off_hardware_bits [of v "ioregs (st i) 1" "0xFF0000"], of "drop_bit 16"]
    by (simp add: ioapic_get_max_redirect_def max_redirect_def)
qed

lemma ioapic_i_loop_find:
  assumes "ioapic_bank dev st s" "k \<le> ioapic_count s"
  shows "ioapic_i_loop dev gsi (of_nat k) s = (case find (handles st s gsi) [k..<ioapic_count s] of
     None \<Rightarrow> Inl (Panic ''Couldn't find an IOAPIC for GSI!'')
   | Some i \<Rightarrow> Inr (of_nat i, s\<lparr>mmio := mmio s @ concat (map (probe s) [k..<Suc i])\<rparr>))"
  using assms
proof (induction "ioapic_count s - k" arbitrary: k s)
  case 0
  then have "(of_nat k :: u64) = madt_ioapics_i s" by (simp add: ioapic_count_def)
  then show ?case using 0 by (subst ioapic_i_loop.simps) simp
next
  case (Suc n)
  then have k: "k < ioapic_count s" by simp
  then have less: "of_nat k < madt_ioapics_i s"
    using unat_u64_less [of "madt_ioapics_i s"] by (simp add: ioapic_count_def word_less_nat_alt unat_of_nat)
  let ?t = "s\<lparr>mmio := mmio s @ probe s k\<rparr>"
  have IH: "ioapic_i_loop dev gsi (of_nat k + 1) ?t = (case find (handles st s gsi) [Suc k..<ioapic_count s] of
     None \<Rightarrow> Inl (Panic ''Couldn't find an IOAPIC for GSI!'')
   | Some i \<Rightarrow> Inr (of_nat i, ?t\<lparr>mmio := mmio ?t @ concat (map (probe s) [Suc k..<Suc i])\<rparr>))"
    using Suc.hyps(1) [of ?t "Suc k"] Suc.hyps(2) Suc.prems k by (simp add: add.commute split: option.split)
  have ge: "Suc k \<le> i" if "find (handles st s gsi) [Suc k..<ioapic_count s] = Some i" for i
    using that by (auto simp: find_Some_iff)
  show ?case
    using less k IH read_max_redirect [OF Suc.prems(1) k] ge
    by (subst ioapic_i_loop.simps) (auto simp: Let_def upt_conv_Cons handles_def gsi_base_def split: option.split)
qed

section \<open>Redirections\<close>

text \<open>The redirection table of a controller and the meaning of an entry.\<close>

definition redirection :: "ioapic \<Rightarrow> nat \<Rightarrow> u64" where
  "redirection st k = ucast (ioregs st (of_nat (0x10 + 2 * k))) OR push_bit 32 (ucast (ioregs st (of_nat (0x11 + 2 * k))))"

record route =
  route_vector :: u8
  route_active_low :: bool
  route_level :: bool
  route_masked :: bool
  route_destination :: u8

definition decode_route :: "u64 \<Rightarrow> route" where
  "decode_route e = \<lparr>route_vector = ucast e, route_active_low = bit e 13, route_level = bit e 15, route_masked = bit e 16,
     route_destination = ucast (drop_bit 56 e)\<rparr>"

lemma bit_or_one: "bit ((e :: u64) OR push_bit k 1) n \<longleftrightarrow> bit e n \<or> n = k \<and> k < 64"
  by (auto simp: bit_simps)

lemma bit_and_not_one: "bit ((e :: u64) AND NOT (push_bit k 1)) n \<longleftrightarrow> bit e n \<and> n \<noteq> k"
  by (auto simp: bit_simps dest: bit_imp_le_length)

lemma bit_redirect_entry:
  "bit (redirect_entry lapic_id vector flags mask') n \<longleftrightarrow> n < 64 \<and> (n < 8 \<and> bit vector n \<or> n = 13 \<and> bit flags 1
    \<or> n = 15 \<and> bit flags 3 \<or> n = 16 \<and> mask' \<or> 56 \<le> n \<and> bit lapic_id (n - 56))"
proof -
  have f: "bit flags 1 \<longleftrightarrow> flags AND 2 \<noteq> 0" "bit flags 3 \<longleftrightarrow> flags AND 8 \<noteq> 0"
    using and_exp_eq_0_iff_not_bit [of flags 1] and_exp_eq_0_iff_not_bit [of flags 3] by simp_all
  show ?thesis
    unfolding f redirect_entry_def Let_def bit_or_iff
    by (cases "flags AND 2 = 0"; cases "flags AND 8 = 0"; cases mask';
        simp only: if_True if_False bit_or_one bit_and_not_one bit_push_bit_iff bit_unsigned_iff simp_thms;
        auto dest: bit_imp_le_length)
qed

lemma decode_redirect_entry:
  "decode_route (redirect_entry lapic_id vector flags mask') =
    \<lparr>route_vector = vector, route_active_low = bit flags 1, route_level = bit flags 3, route_masked = mask',
     route_destination = ucast lapic_id\<rparr>"
proof -
  let ?e = "redirect_entry lapic_id vector flags mask'"
  have "ucast ?e = vector" by (rule bit_word_eqI) (simp add: bit_unsigned_iff bit_redirect_entry)
  moreover have "(ucast (drop_bit 56 ?e) :: u8) = ucast lapic_id"
    by (rule bit_word_eqI) (simp add: bit_unsigned_iff bit_drop_bit_eq bit_redirect_entry)
  ultimately show ?thesis by (simp add: decode_route_def bit_redirect_entry)
qed

text \<open>The registers of an entry, for a controller with at most 120 entries.\<close>

abbreviation entry_reg :: "nat \<Rightarrow> u8" where "entry_reg n \<equiv> of_nat (0x10 + n)"

lemma entry_reg_inj: "m < 240 \<Longrightarrow> n < 240 \<Longrightarrow> entry_reg m = entry_reg n \<longleftrightarrow> m = n"
  by (subst word_unat_eq_iff) (simp add: unat_of_nat del: of_nat_add)

lemma entry_reg_not_version: "n < 240 \<Longrightarrow> entry_reg n \<noteq> 1"
  by (subst word_unat_eq_iff) (simp add: unat_of_nat del: of_nat_add)

lemma ucast_of_nat_u8: "(ucast (of_nat x :: u32) :: u8) = of_nat x"
  by (rule bit_word_eqI) (simp add: bit_simps)

lemma redirect_registers:
  "(ucast (IRQ_TO_IOREDTBL_REG (of_nat k)) :: u8) = entry_reg (2 * k)"
  "(ucast (IRQ_TO_IOREDTBL_REG (of_nat k) + 1) :: u8) = entry_reg (2 * k + 1)"
proof -
  have "IRQ_TO_IOREDTBL_REG (of_nat k) = of_nat (0x10 + 2 * k)" "IRQ_TO_IOREDTBL_REG (of_nat k) + 1 = of_nat (0x10 + (2 * k + 1))"
    by (simp_all add: IRQ_TO_IOREDTBL_REG_def)
  then show "(ucast (IRQ_TO_IOREDTBL_REG (of_nat k)) :: u8) = entry_reg (2 * k)"
    "(ucast (IRQ_TO_IOREDTBL_REG (of_nat k) + 1) :: u8) = entry_reg (2 * k + 1)"
    by (simp_all only: ucast_of_nat_u8)
qed

lemma words_of_entry: "ucast (ucast e :: u32) OR push_bit 32 (ucast (ucast (drop_bit 32 e) :: u32)) = (e :: u64)"
  by (rule bit_word_eqI) (auto simp: bit_simps)

lemma redirection_eq:
  "redirection st k = ucast (ioregs st (entry_reg (2 * k))) OR push_bit 32 (ucast (ioregs st (entry_reg (2 * k + 1))))"
  by (simp add: redirection_def)

lemma redirection_update:
  assumes "ioregs st' = (ioregs st)(entry_reg (2 * k) := ucast e, entry_reg (2 * k + 1) := ucast (drop_bit 32 e))" "k < 120" "j < 120"
  shows "redirection st' j = (if j = k then e else redirection st j)"
proof -
  have "2 * j \<noteq> 2 * k + 1" "2 * k \<noteq> 2 * j + 1" by presburger+
  then show ?thesis
    unfolding redirection_eq assms(1) using assms(2,3) words_of_entry [of e]
    by (simp only: fun_upd_apply entry_reg_inj) auto
qed

section \<open>The kernel's redirections\<close>

lemma quiet_history:
  assumes "\<forall>v. Write32 (a + 0x10) v \<notin> set h"
  shows "ioregs (ioapic_after a st h) = ioregs st"
  using assms
proof (induction h arbitrary: st)
  case Nil
  then show ?case by simp
next
  case (Cons e h)
  then have "ioregs (ioapic_step a e st) = ioregs st" by (auto simp: ioapic_step_def split: mmio_event.split)
  with Cons show ?case by simp
qed

lemma addr_window_neq: "(a :: u64) \<noteq> a + 0x10"
  by simp

lemma probes_quiet:
  assumes "ioapic_bank dev st s" "j < ioapic_count s" "set is \<subseteq> {..<ioapic_count s}"
  shows "ioregs (ioapic_after (ioapic_addr s j) st' (concat (map (probe s) is))) = ioregs st'"
proof (rule quiet_history, intro allI)
  fix v
  have "ioapic_addr s i \<noteq> ioapic_addr s j + 0x10" if "i < ioapic_count s" for i
    using assms(1,2) that addr_window_neq [of "ioapic_addr s j"] by (cases "i = j") (auto simp: ioapic_bank_def)
  then show "Write32 (ioapic_addr s j + 0x10) v \<notin> set (concat (map (probe s) is))"
    using assms(3) by (force simp: probe_def)
qed

lemma ioapic_writes_entry:
  fixes e :: u64
  assumes bank: "ioapic_bank dev st s" and i: "i < ioapic_count s" and j: "j < ioapic_count s" and k: "k < 120" "n < 120"
    and "set is \<subseteq> {..<ioapic_count s}"
  defines "h \<equiv> mmio s @ concat (map (probe s) is) @ [Write32 (ioapic_addr s i) (ucast (entry_reg (2 * k))), Write32 (ioapic_addr s i + 0x10) (ucast e),
      Write32 (ioapic_addr s i) (ucast (entry_reg (2 * k + 1))), Write32 (ioapic_addr s i + 0x10) (ucast (drop_bit 32 e))]"
  shows "redirection (ioapic_after (ioapic_addr s j) (st j) h) n =
    (if j = i \<and> n = k then e else redirection (ioapic_after (ioapic_addr s j) (st j) (mmio s)) n)"
proof -
  let ?st = "\<lambda>j. ioapic_after (ioapic_addr s j) (st j) (mmio s)"
  have quiet: "ioregs (ioapic_after (ioapic_addr s j) (?st j) (concat (map (probe s) is))) = ioregs (?st j)"
    by (rule probes_quiet [OF bank j assms(6)])
  show ?thesis
  proof (cases "j = i")
    case True
    have "ioregs (ioapic_after (ioapic_addr s i) (st i) h)
        = (ioregs (?st i))(entry_reg (2 * k) := ucast e, entry_reg (2 * k + 1) := ucast (drop_bit 32 e))"
      using quiet True entry_reg_not_version [of "2 * k"] entry_reg_not_version [of "2 * k + 1"] k(1) by (simp add: h_def)
    from redirection_update [OF this k] show ?thesis using True by simp
  next
    case False
    then have "ioapic_addr s i \<noteq> ioapic_addr s j" "ioapic_addr s i \<noteq> ioapic_addr s j + 0x10" "ioapic_addr s j \<noteq> ioapic_addr s i + 0x10"
      using bank i j by (auto simp: ioapic_bank_def)
    then have "ioregs (ioapic_after (ioapic_addr s j) (st j) h) = ioregs (?st j)"
      using quiet by (simp add: h_def ioapic_step_other)
    then show ?thesis using False by (simp add: redirection_def)
  qed
qed

lemma ioapic_i_from_gsi_find:
  assumes "ioapic_bank dev st s"
  shows "ioapic_i_from_gsi dev gsi s = (case find (handles st s gsi) [0..<ioapic_count s] of
     None \<Rightarrow> Inl (Panic ''Couldn't find an IOAPIC for GSI!'')
   | Some i \<Rightarrow> Inr (of_nat i, s\<lparr>mmio := mmio s @ concat (map (probe s) [0..<Suc i])\<rparr>))"
  using ioapic_i_loop_find [OF assms, of 0 gsi] by (simp add: ioapic_i_from_gsi_def)

lemma handled_entry:
  assumes "handles st s gsi i" "max_redirect (st i) \<le> 120"
  shows "unat (gsi - gsi_base s i) < 120" "of_nat (unat (gsi - gsi_base s i)) = gsi - gsi_base s i"
proof -
  have le: "gsi_base s i \<le> gsi" and less: "gsi < gsi_base s i + max_redirect (st i)" using assms(1) by (simp_all add: handles_def)
  have "unat (gsi_base s i + max_redirect (st i)) \<le> unat (gsi_base s i) + unat (max_redirect (st i))"
    by (simp add: unat_word_ariths(1))
  then have "unat gsi < unat (gsi_base s i) + unat (max_redirect (st i))" using less by (simp add: word_less_nat_alt)
  moreover have "unat (gsi - gsi_base s i) = unat gsi - unat (gsi_base s i)" using le by (rule unat_sub)
  ultimately show "unat (gsi - gsi_base s i) < 120" using assms(2) le by (simp add: word_le_nat_alt)
qed simp

lemma set_gsi_redirect_writes:
  fixes lapic_id :: u32 and vector :: u8 and flags :: u16 and mask' :: bool
  assumes "ioapic_bank dev st s" "find (handles st s gsi) [0..<ioapic_count s] = Some i" "max_redirect (st i) \<le> 120"
  defines "k \<equiv> unat (gsi - gsi_base s i)" and "e \<equiv> redirect_entry lapic_id vector flags mask'"
  shows "ioapic_set_gsi_redirect dev lapic_id vector gsi flags mask' s = Inr (s\<lparr>mmio := mmio s @ concat (map (probe s) [0..<Suc i]) @
    [Write32 (ioapic_addr s i) (ucast (entry_reg (2 * k))), Write32 (ioapic_addr s i + 0x10) (ucast e),
     Write32 (ioapic_addr s i) (ucast (entry_reg (2 * k + 1))), Write32 (ioapic_addr s i + 0x10) (ucast (drop_bit 32 e))]\<rparr>)"
proof -
  have "handles st s gsi i" using assms(2) by (auto simp: find_Some_iff)
  note k = handled_entry [OF this assms(3)]
  have "gsi - ioapic_gsi_base (kmem s) (madt_ioapic_at s (of_nat i)) = of_nat k" using k(2) by (simp add: k_def gsi_base_def)
  then show ?thesis
    using redirect_registers [of k] assms(1,2)
    by (simp add: ioapic_set_gsi_redirect_def ioapic_i_from_gsi_find Let_def ioapic_write_reg_def mmio_write32_def e_def [symmetric]
        del: of_nat_add)
qed

lemma get_vector_reads:
  assumes "ioapic_bank dev st s" "find (handles st s gsi) [0..<ioapic_count s] = Some i" "max_redirect (st i) \<le> 120"
  shows "\<exists>s'. ioapic_get_vector_from_gsi dev gsi s
    = Inr (ucast (redirection (ioapic_after (ioapic_addr s i) (st i) (mmio s)) (unat (gsi - gsi_base s i))), s')"
proof -
  let ?k = "unat (gsi - gsi_base s i)" and ?s = "s\<lparr>mmio := mmio s @ concat (map (probe s) [0..<Suc i])\<rparr>"
  let ?st = "ioapic_after (ioapic_addr s i) (st i) (mmio s)"
  have i: "i < ioapic_count s" "handles st s gsi i" using assms(2) by (auto simp: find_Some_iff)
  note k = handled_entry [OF i(2) assms(3)]
  have "set [0..<Suc i] \<subseteq> {..<ioapic_count s}" using i(1) by auto
  from probes_quiet [OF assms(1) i(1) this, of ?st]
  have q: "ioregs (ioapic_after (ioapic_addr s i) (st i) (mmio ?s)) = ioregs ?st" by simp
  obtain v t where v: "ioapic_read_reg dev (of_nat i) (entry_reg (2 * ?k)) ?s = (v, t)"
    and low: "v AND NOT hardware_bits = ioregs ?st (entry_reg (2 * ?k)) AND NOT hardware_bits"
    using ioapic_read_reg_value [of dev st ?s i "entry_reg (2 * ?k)"] assms(1) i(1) q by auto
  have byte: "bit v n = bit (ioregs ?st (entry_reg (2 * ?k))) n" if "n < 8" for n
    using low that by (rule low_byte_bits)
  have ff: "(0xFF :: u64) = mask 8" by (simp add: mask_eq_exp_minus_1)
  have "(ucast (((ucast v :: u64) OR push_bit 32 x) AND 0xFF) :: u8) = ucast (redirection ?st ?k)" for x
    unfolding ff by (rule bit_word_eqI) (use byte in \<open>simp add: redirection_eq bit_simps\<close>)
  moreover have "gsi - ioapic_gsi_base (kmem s) (madt_ioapic_at s (of_nat i)) = of_nat ?k" using k(2) by (simp add: gsi_base_def)
  ultimately show ?thesis
    using redirect_registers [of ?k] assms(1,2) v
    by (simp add: ioapic_get_vector_from_gsi_def ioapic_i_from_gsi_find Let_def split: prod.split del: of_nat_add)
qed

text \<open>C34. When some I/O APIC of the MADT handles a global interrupt, \<open>ioapic_set_gsi_redirect\<close> changes exactly one
  entry of the redirection tables of all the I/O APICs: the one of the interrupt in the first of
  them that handles it, which then delivers the given vector to the given local APIC, with the
  polarity and trigger mode of the flags, masked as asked; \<open>ioapic_get_vector_from_gsi\<close> reads
  the vector back.\<close>

theorem ioapic_redirect_programs:
  assumes "ioapic_bank dev st s" "find (handles st s gsi) [0..<ioapic_count s] = Some i" "max_redirect (st i) \<le> 120"
  shows "\<exists>s'. ioapic_set_gsi_redirect dev lapic_id vector gsi flags mask' s = Inr s'
    \<and> decode_route (redirection (ioapic_after (ioapic_addr s i) (st i) (mmio s')) (unat (gsi - gsi_base s i)))
        = \<lparr>route_vector = vector, route_active_low = bit flags 1, route_level = bit flags 3, route_masked = mask',
           route_destination = ucast lapic_id\<rparr>
    \<and> (\<forall>j<ioapic_count s. \<forall>n<120. (j, n) \<noteq> (i, unat (gsi - gsi_base s i)) \<longrightarrow>
        redirection (ioapic_after (ioapic_addr s j) (st j) (mmio s')) n = redirection (ioapic_after (ioapic_addr s j) (st j) (mmio s)) n)
    \<and> (\<exists>s''. ioapic_get_vector_from_gsi dev gsi s' = Inr (vector, s''))"
proof -
  let ?k = "unat (gsi - gsi_base s i)" and ?e = "redirect_entry lapic_id vector flags mask'"
  have i: "i < ioapic_count s" "handles st s gsi i" "set [0..<Suc i] \<subseteq> {..<ioapic_count s}"
    using assms(2) by (auto simp: find_Some_iff)
  note k = handled_entry(1) [OF i(2) assms(3)]
  obtain h where set_ok: "ioapic_set_gsi_redirect dev lapic_id vector gsi flags mask' s = Inr (s\<lparr>mmio := h\<rparr>)"
    and entry: "\<And>j n. j < ioapic_count s \<Longrightarrow> n < 120 \<Longrightarrow> redirection (ioapic_after (ioapic_addr s j) (st j) h) n =
      (if j = i \<and> n = ?k then ?e else redirection (ioapic_after (ioapic_addr s j) (st j) (mmio s)) n)"
    using set_gsi_redirect_writes [OF assms] ioapic_writes_entry [OF assms(1) i(1) _ k _ i(3)] by blast
  have dec: "decode_route (redirection (ioapic_after (ioapic_addr s i) (st i) h) ?k)
        = \<lparr>route_vector = vector, route_active_low = bit flags 1, route_level = bit flags 3, route_masked = mask',
           route_destination = ucast lapic_id\<rparr>"
    using entry [OF i(1) k] by (simp add: decode_redirect_entry)
  then have "ucast (redirection (ioapic_after (ioapic_addr s i) (st i) h) ?k) = vector" by (simp add: decode_route_def)
  then have "\<exists>s''. ioapic_get_vector_from_gsi dev gsi (s\<lparr>mmio := h\<rparr>) = Inr (vector, s'')"
    using get_vector_reads [of dev st "s\<lparr>mmio := h\<rparr>" gsi i] assms by simp
  with set_ok dec entry show ?thesis by (intro exI [of _ "s\<lparr>mmio := h\<rparr>"]) auto
qed

text \<open>One I/O APIC for the global interrupts from 0 on, with 24 entries.\<close>

definition example_apic :: apic_state where
  "example_apic = \<lparr>kmem = (\<lambda>_. 0), pmm_bitmap = \<lparr>bm_map = [], bm_size = 0\<rparr>, pmm_bitmap_addr = 0, highest_page_top = 0, used_pages_count = 0,
     root_page_table = 0, cr3 = 0, msrs = (\<lambda>_. 0), tlb_flushes = [], slab_caches = [],
     rsdp = 0, has_xsdt_var = False, rsdt = 0, xsdt = 0, madt = 0, madt_lapics = 0, madt_ioapics = 0, madt_isos = 0, madt_lapic_nmis = 0,
     madt_lapics_i = 0, madt_ioapics_i = 1, madt_isos_i = 0, madt_lapic_nmis_i = 0,
     lapic_address = 0, lapic_timer_freq = 0, hpet = 0, hpet_regs = 0, ports = [], mmio = []\<rparr>"

definition example_ioapic :: ioapic where
  "example_ioapic = \<lparr>ioregsel = 0, ioregs = (\<lambda>r. if r = 1 then 0x00170011 else 0)\<rparr>"

definition example_device :: mmio_device where
  "example_device h a = (let t = ioapic_after (ioapic_addr example_apic 0) example_ioapic h in ucast (ioregs t (ioregsel t)))"

theorem ioapic_redirect_programs_witness:
  "\<exists>s'. ioapic_set_gsi_redirect example_device 0 0x21 1 0 True example_apic = Inr s'
    \<and> (\<exists>s''. ioapic_get_vector_from_gsi example_device 1 s' = Inr (0x21, s''))"
proof -
  have n: "ioapic_count example_apic = 1" by (simp add: ioapic_count_def example_apic_def)
  have "(ucast (ucast (x :: u32) :: u64) :: u32) = x" for x by (rule bit_word_eqI) (simp add: bit_simps)
  then have bank: "ioapic_bank example_device (\<lambda>_. example_ioapic) example_apic"
    by (simp add: ioapic_bank_def n is_ioapic_def example_device_def Let_def)
  have m: "max_redirect example_ioapic = 0x17" by (simp add: max_redirect_def example_ioapic_def)
  have "gsi_base example_apic 0 = 0"
    by (simp add: gsi_base_def ioapic_gsi_base_def kload32_def load32_def example_apic_def load_word_zero)
  then have "find (handles (\<lambda>_. example_ioapic) example_apic 1) [0..<ioapic_count example_apic] = Some 0"
    by (simp add: n handles_def m)
  from ioapic_redirect_programs [OF bank this, of 0 "0x21" 0 True] show ?thesis by (auto simp: m)
qed

section \<open>The event timer\<close>

text \<open>
  One microsecond is 1000000000 femtoseconds; the quotient by the period of the counter is rounded
  down, so a wait takes up to one period less per microsecond.
\<close>

lemma hpet_wait_returns:
  assumes "\<exists>n. target \<le> dev (mmio s @ replicate n (Read64 (hpet_regs s + 0xF0))) (hpet_regs s + 0xF0)"
  shows "\<exists>n. hpet_wait dev target s = Some (s\<lparr>mmio := mmio s @ replicate (Suc n) (Read64 (hpet_regs s + 0xF0))\<rparr>)
    \<and> target \<le> dev (mmio s @ replicate n (Read64 (hpet_regs s + 0xF0))) (hpet_regs s + 0xF0)
    \<and> (\<forall>m<n. dev (mmio s @ replicate m (Read64 (hpet_regs s + 0xF0))) (hpet_regs s + 0xF0) < target)"
proof -
  let ?r = "Read64 (hpet_regs s + 0xF0)"
  let ?P = "\<lambda>n. target \<le> dev (mmio s @ replicate n ?r) (hpet_regs s + 0xF0)"
  define n where "n = (LEAST n. ?P n)"
  have n: "?P n" unfolding n_def using assms by (rule LeastI_ex)
  have least: "\<not> ?P m" if "m < n" for m using that unfolding n_def by (rule not_less_Least)
  have "hpet_wait dev target (s\<lparr>mmio := mmio s @ replicate m ?r\<rparr>) = Some (s\<lparr>mmio := mmio s @ replicate (Suc n) ?r\<rparr>)" if "m \<le> n" for m
    using that
  proof (induction "n - m" arbitrary: m)
    case 0
    then show ?case using n by (subst hpet_wait.simps) (simp add: mmio_read64_def replicate_append_same leD)
  next
    case (Suc d)
    then have "hpet_wait dev target (s\<lparr>mmio := mmio s @ replicate (Suc m) ?r\<rparr>) = Some (s\<lparr>mmio := mmio s @ replicate (Suc n) ?r\<rparr>)"
      by (intro Suc.hyps(1)) simp_all
    then show ?case
      using Suc.hyps(2) least [of m] by (subst hpet_wait.simps) (simp add: mmio_read64_def replicate_append_same not_le)
  qed
  from this [of 0] have "hpet_wait dev target s = Some (s\<lparr>mmio := mmio s @ replicate (Suc n) ?r\<rparr>)" by simp
  then show ?thesis using n least by (auto simp: not_le)
qed

text \<open>The accesses of the \<open>n\<close>th look at the counter, and what it shows then.\<close>

definition hpet_history :: "'a apic_state_scheme \<Rightarrow> nat \<Rightarrow> mmio_event list" where
  "hpet_history s n = mmio s @ [Read64 (hpet_regs s)] @ replicate n (Read64 (hpet_regs s + 0xF0))"

definition hpet_count :: "mmio_device \<Rightarrow> 'a apic_state_scheme \<Rightarrow> nat \<Rightarrow> u64" where
  "hpet_count dev s n = dev (hpet_history s n) (hpet_regs s + 0xF0)"

definition hpet_period :: "mmio_device \<Rightarrow> 'a apic_state_scheme \<Rightarrow> u32" where
  "hpet_period dev s = ucast (drop_bit 32 (dev (mmio s) (hpet_regs s)))"

lemma hpet_ticks_value:
  assumes "unat us * (1000000000 div unat p) < 2 ^ 64"
  shows "unat (hpet_ticks us p) = unat us * (1000000000 div unat p)"
proof -
  have "unat (ucast ((1000000000 :: u32) div p) :: u64) = 1000000000 div unat p"
    by (simp add: unat_div unsigned_ucast_eq take_bit_nat_eq_self div_le_dividend [THEN order.strict_trans1])
  then show ?thesis using assms by (simp add: hpet_ticks_def unat_word_ariths(2))
qed

text \<open>C35. \<open>hpet_usleep\<close> returns when the counter of the timer ever reaches the target, at the first look that
  sees it there. The counter has then advanced by at least \<open>us * (1000000000 div period)\<close> ticks, which
  is at most the requested time and less than one period per microsecond short of it.\<close>

theorem hpet_usleep_waits:
  assumes "hpet_period dev s \<noteq> 0"
    and "unat (hpet_count dev s 0) + unat us * (1000000000 div unat (hpet_period dev s)) < 2 ^ 64"
    and "\<exists>n. hpet_count dev s 0 + hpet_ticks us (hpet_period dev s) \<le> hpet_count dev s (Suc n)"
  shows "\<exists>n. hpet_usleep dev us s = Some (Inr (s\<lparr>mmio := hpet_history s (Suc (Suc n))\<rparr>))
    \<and> unat (hpet_count dev s 0) + unat us * (1000000000 div unat (hpet_period dev s)) \<le> unat (hpet_count dev s (Suc n))
    \<and> (\<forall>m<n. unat (hpet_count dev s (Suc m)) < unat (hpet_count dev s 0) + unat us * (1000000000 div unat (hpet_period dev s)))
    \<and> unat us * (1000000000 div unat (hpet_period dev s)) * unat (hpet_period dev s) \<le> unat us * 1000000000
    \<and> unat us * 1000000000 \<le> unat us * (1000000000 div unat (hpet_period dev s)) * unat (hpet_period dev s) + unat us * (unat (hpet_period dev s) - 1)"
proof -
  let ?p = "unat (hpet_period dev s)" and ?r = "Read64 (hpet_regs s + 0xF0)"
  let ?t = "s\<lparr>mmio := hpet_history s 1\<rparr>" and ?target = "hpet_count dev s 0 + hpet_ticks us (hpet_period dev s)"
  have target: "unat ?target = unat (hpet_count dev s 0) + unat us * (1000000000 div ?p)"
    using assms(2) hpet_ticks_value [of us "hpet_period dev s"] by (simp add: unat_word_ariths(1))
  have h: "mmio ?t @ replicate n ?r = hpet_history s (Suc n)" for n by (simp add: hpet_history_def)
  have "\<exists>n. ?target \<le> dev (mmio ?t @ replicate n (Read64 (hpet_regs ?t + 0xF0))) (hpet_regs ?t + 0xF0)"
    using assms(3) h by (simp add: hpet_count_def)
  note wait = hpet_wait_returns [of ?target dev ?t, OF this]
  have r: "hpet_regs ?t = hpet_regs s" by simp
  obtain n where n: "hpet_wait dev ?target ?t = Some (s\<lparr>mmio := hpet_history s (Suc (Suc n))\<rparr>)"
    "?target \<le> hpet_count dev s (Suc n)" "\<forall>m<n. hpet_count dev s (Suc m) < ?target"
    using wait unfolding r h by (auto simp: hpet_count_def)
  have "hpet_usleep dev us s = map_option Inr (hpet_wait dev ?target ?t)"
    using assms(1) by (simp add: hpet_usleep_def mmio_read64_def Let_def hpet_period_def hpet_count_def hpet_history_def)
  moreover have pos: "0 < ?p" using assms(1) by (simp add: unat_gt_0)
  moreover have "?p * (1000000000 div ?p) \<le> 1000000000" "1000000000 \<le> ?p * (1000000000 div ?p) + (?p - 1)"
    using mod_less_divisor [OF pos, of 1000000000] mult_div_mod_eq [of ?p 1000000000] by linarith+
  then have "unat us * (1000000000 div ?p) * ?p \<le> unat us * 1000000000"
    "unat us * 1000000000 \<le> unat us * (1000000000 div ?p) * ?p + unat us * (?p - 1)"
    using mult_le_mono2 [of "?p * (1000000000 div ?p)" 1000000000 "unat us"]
      mult_le_mono2 [of 1000000000 "?p * (1000000000 div ?p) + (?p - 1)" "unat us"]
    by (simp_all only: distrib_left mult.commute mult.left_commute)
  ultimately show ?thesis
    using n target by (intro exI [of _ n] conjI) (simp_all add: word_le_nat_alt word_less_nat_alt)
qed

text \<open>A counter of 100 MHz that advances at every access.\<close>

theorem hpet_usleep_waits_witness:
  "\<exists>n. hpet_usleep (\<lambda>h a. if a = 0xF0 then of_nat (length h) else push_bit 32 10000000) 2 example_apic
      = Some (Inr (example_apic\<lparr>mmio := hpet_history example_apic (Suc (Suc n))\<rparr>))"
proof -
  let ?dev = "\<lambda>h (a :: u64). if a = 0xF0 then of_nat (length (h :: mmio_event list)) else push_bit 32 (10000000 :: u64)"
  have p: "hpet_period ?dev example_apic = 10000000" by (simp add: hpet_period_def example_apic_def)
  have c: "hpet_count ?dev example_apic n = of_nat (Suc n)" for n by (simp add: hpet_count_def hpet_history_def example_apic_def)
  have t: "hpet_ticks 2 10000000 = 200" by (simp add: hpet_ticks_def)
  have "\<exists>n. hpet_count ?dev example_apic 0 + hpet_ticks 2 (hpet_period ?dev example_apic) \<le> hpet_count ?dev example_apic (Suc n)"
    unfolding p t c by (rule exI [of _ 300]) simp
  moreover have "unat (hpet_count ?dev example_apic 0) + unat (2 :: u64) * (1000000000 div unat (hpet_period ?dev example_apic)) < 2 ^ 64"
    by (simp add: p c)
  ultimately show ?thesis using hpet_usleep_waits [of ?dev example_apic 2] p by auto
qed

end
