(* ===== verification/Devices.thy ===== *)
theory Devices
  imports Port_IO
begin

text \<open>
  What the port programs of \<open>Port_IO\<close> do to documented hardware: the initialisation sequence of
  the 8259 interrupt controllers, and a serial line whose transmitter gets ready again.
\<close>

section \<open>The 8259 controllers\<close>

text \<open>
  One chip: the initialisation word it expects next on its data port (0 when it is ready), the
  vector offset, the cascade word, the mode word and the interrupt mask. A command with bit 4
  starts the sequence and clears the mask; outside the sequence the data port is the mask.
\<close>

record pic_chip =
  expects :: nat
  vector_offset :: u8
  cascade :: u8
  pic_mode :: u8
  imr :: u8

definition pic_command :: "u8 \<Rightarrow> pic_chip \<Rightarrow> pic_chip" where
  "pic_command v chip = (if bit v 4 then chip\<lparr>expects := 2, imr := 0\<rparr> else chip)"

definition pic_data :: "u8 \<Rightarrow> pic_chip \<Rightarrow> pic_chip" where
  "pic_data v chip =
     (if expects chip = 2 then chip\<lparr>expects := 3, vector_offset := v\<rparr>
      else if expects chip = 3 then chip\<lparr>expects := 4, cascade := v\<rparr>
      else if expects chip = 4 then chip\<lparr>expects := 0, pic_mode := v\<rparr>
      else chip\<lparr>imr := v\<rparr>)"

fun pic_event :: "io_event \<Rightarrow> pic_chip \<times> pic_chip \<Rightarrow> pic_chip \<times> pic_chip" where
  "pic_event (Outb port v) (chip1, chip2) =
     (if port = PIC1_COMMAND then (pic_command v chip1, chip2)
      else if port = PIC1_DATA then (pic_data v chip1, chip2)
      else if port = PIC2_COMMAND then (chip1, pic_command v chip2)
      else if port = PIC2_DATA then (chip1, pic_data v chip2)
      else (chip1, chip2))"
| "pic_event (Inb port) chips = chips"

definition pic_run :: "pic_chip \<times> pic_chip \<Rightarrow> io_event list \<Rightarrow> pic_chip \<times> pic_chip" where
  "pic_run chips h = fold pic_event h chips"

text \<open>A device that is a pair of such chips at the two data ports.\<close>

definition is_pic_pair :: "pic_chip \<times> pic_chip \<Rightarrow> io_device \<Rightarrow> bool" where
  "is_pic_pair chips dev \<longleftrightarrow>
     (\<forall>h. dev h PIC1_DATA = imr (fst (pic_run chips h)) \<and> dev h PIC2_DATA = imr (snd (pic_run chips h)))"

lemma pic_run_append [simp]: "pic_run chips (h @ h') = pic_run (pic_run chips h) h'"
  by (simp add: pic_run_def)

lemma pic_run_Nil [simp]: "pic_run chips [] = chips"
  by (simp add: pic_run_def)

lemma pic_run_Cons [simp]: "pic_run chips (e # h) = pic_run (pic_event e chips) h"
  by (simp add: pic_run_def)

lemmas port_defs = asm_io_outb_def asm_io_inb_def asm_io_wait_def

text \<open>C29. \<open>pic_remap\<close> takes both controllers through their whole initialisation sequence: interrupts 0 to 7
  and 8 to 15 are moved to the vectors 32 to 47, the chips are chained on line 2 in 8086 mode, and
  both interrupt masks are what they were before.\<close>

theorem pic_remap_programs:
  assumes "is_pic_pair chips dev"
  shows "pic_run chips (pic_remap dev h) =
    (\<lparr>expects = 0, vector_offset = 0x20, cascade = 0x04, pic_mode = 0x01, imr = imr (fst (pic_run chips h))\<rparr>,
     \<lparr>expects = 0, vector_offset = 0x28, cascade = 0x02, pic_mode = 0x01, imr = imr (snd (pic_run chips h))\<rparr>)"
proof -
  obtain c1 c2 where c: "pic_run chips h = (c1, c2)" by fastforce
  have dev: "dev h PIC1_DATA = imr c1" "dev (h @ [Inb PIC1_DATA]) PIC2_DATA = imr c2"
    using assms c by (simp_all add: is_pic_pair_def)
  show ?thesis
    by (simp add: pic_remap_def port_defs dev c pic_command_def pic_data_def bit_numeral_rec)
qed

definition ready_chip :: pic_chip where
  "ready_chip = \<lparr>expects = 0, vector_offset = 0x08, cascade = 0, pic_mode = 0, imr = 0xB8\<rparr>"

definition example_pics :: io_device where
  "example_pics h port =
     (if port = PIC1_DATA then imr (fst (pic_run (ready_chip, ready_chip) h))
      else if port = PIC2_DATA then imr (snd (pic_run (ready_chip, ready_chip) h)) else 0)"

lemma example_pics: "is_pic_pair (ready_chip, ready_chip) example_pics"
  by (simp add: is_pic_pair_def example_pics_def)

theorem pic_remap_programs_witness:
  "pic_run (ready_chip, ready_chip) (pic_remap example_pics []) =
    (\<lparr>expects = 0, vector_offset = 0x20, cascade = 0x04, pic_mode = 0x01, imr = 0xB8\<rparr>,
     \<lparr>expects = 0, vector_offset = 0x28, cascade = 0x02, pic_mode = 0x01, imr = 0xB8\<rparr>)"
  using pic_remap_programs [OF example_pics, of "[]"] by (simp add: ready_chip_def)

text \<open>\<open>pic_set_mask\<close> and \<open>pic_clear_mask\<close> change exactly the mask bit of their line.\<close>

lemma pic_set_mask_bit:
  assumes "is_pic_pair chips dev" "pic_run chips h = (c1, c2)" "expects c1 = 0" "expects c2 = 0" "irq < 16"
  shows "pic_run chips (pic_set_mask dev irq h) =
    (if irq < 8 then (c1\<lparr>imr := set_bit (unat irq) (imr c1)\<rparr>, c2)
     else (c1, c2\<lparr>imr := set_bit (unat irq - 8) (imr c2)\<rparr>))"
proof -
  have dev: "dev h PIC1_DATA = imr c1" "dev h PIC2_DATA = imr c2" using assms(1,2) by (simp_all add: is_pic_pair_def)
  have or: "v OR ucast (push_bit k 1 :: u32) = set_bit k v" if "k < 8" for v :: u8 and k
    by (rule bit_word_eqI) (use that in \<open>auto simp: bit_simps\<close>)
  have "unat irq < 16" using assms(5) by (simp add: word_less_nat_alt)
  then show ?thesis
    using assms dev or [of "unat irq" "imr c1"] or [of "unat (irq - 8)" "imr c2"]
    by (auto simp: pic_set_mask_def pic_port_line_def port_defs pic_data_def word_less_nat_alt unat_sub_if_size word_size)
qed

section \<open>Sending on the serial line\<close>

text \<open>The history after \<open>n\<close> polls of the line status that found the transmitter busy.\<close>

definition polls :: "com_port_t \<Rightarrow> nat \<Rightarrow> io_event list" where
  "polls port n = replicate n (Inb (com_base port + 5))"

text \<open>A device whose transmitter is ready after finitely many polls, whatever happened before.\<close>

definition transmits :: "io_device \<Rightarrow> com_port_t \<Rightarrow> bool" where
  "transmits dev port \<longleftrightarrow> (\<forall>h. \<exists>n. dev (h @ polls port n) (com_base port + 5) AND 0x20 \<noteq> 0)"

text \<open>The bytes that reach the data register of the port.\<close>

definition sent :: "com_port_t \<Rightarrow> io_event list \<Rightarrow> u8 list" where
  "sent port h = concat (map (\<lambda>e. case e of Outb p v \<Rightarrow> if p = com_base port then [v] else [] | Inb p \<Rightarrow> []) h)"

lemma sent_append [simp]: "sent port (h @ h') = sent port h @ sent port h'"
  by (simp add: sent_def)

lemma sent_polls [simp]: "sent port (polls port n) = []"
  by (induction n) (simp_all add: sent_def polls_def)

lemma polls_Suc: "polls port (Suc n) = Inb (com_base port + 5) # polls port n"
  by (simp add: polls_def)

lemma com_wait_transmit_ready:
  "dev (h @ polls port n) (com_base port + 5) AND 0x20 \<noteq> 0 \<Longrightarrow> \<exists>k. com_wait_transmit dev port h = Some (h @ polls port k)"
proof (induction n arbitrary: h)
  case 0
  then show ?case
    by (subst com_wait_transmit.simps) (auto simp: com_is_transmit_empty_def port_defs polls_def intro!: exI [of _ 1])
next
  case (Suc n)
  show ?case
  proof (cases "dev h (com_base port + 5) AND 0x20 \<noteq> 0")
    case True
    then show ?thesis
      by (subst com_wait_transmit.simps) (auto simp: com_is_transmit_empty_def port_defs polls_def intro!: exI [of _ 1])
  next
    case False
    have "dev ((h @ [Inb (com_base port + 5)]) @ polls port n) (com_base port + 5) AND 0x20 \<noteq> 0"
      using Suc.prems by (simp add: polls_Suc)
    from Suc.IH [of "h @ [Inb (com_base port + 5)]", OF this] obtain k where
      "com_wait_transmit dev port (h @ [Inb (com_base port + 5)]) = Some ((h @ [Inb (com_base port + 5)]) @ polls port k)"
      by blast
    then have "com_wait_transmit dev port h = Some (h @ polls port (Suc k))"
      using False by (subst com_wait_transmit.simps) (simp add: com_is_transmit_empty_def port_defs polls_Suc)
    then show ?thesis by blast
  qed
qed

lemma com_send_char_sent:
  assumes "transmits dev port"
  shows "\<exists>h'. com_send_char dev port c h = Some h' \<and> sent port h' = sent port h @ [c]"
proof -
  obtain n where "dev (h @ polls port n) (com_base port + 5) AND 0x20 \<noteq> 0" using assms by (auto simp: transmits_def)
  from com_wait_transmit_ready [of dev h port n, OF this] obtain k where "com_wait_transmit dev port h = Some (h @ polls port k)" by blast
  then show ?thesis by (simp add: com_send_char_def port_defs) (simp add: sent_def)
qed

text \<open>The null-terminated string of \<open>n\<close> bytes at an address.\<close>

definition cstring :: "(u64 \<Rightarrow> u8) \<Rightarrow> u64 \<Rightarrow> nat \<Rightarrow> u8 list" where
  "cstring m p n = map (\<lambda>i. m (p + of_nat i)) [0..<n]"

definition cstring_at :: "(u64 \<Rightarrow> u8) \<Rightarrow> u64 \<Rightarrow> nat \<Rightarrow> bool" where
  "cstring_at m p n \<longleftrightarrow> m (p + of_nat n) = 0 \<and> (\<forall>i<n. m (p + of_nat i) \<noteq> 0)"

lemma com_send_loop_sent:
  assumes "transmits dev port" and "cstring_at m p n" and "n < 2 ^ 31" and "i \<le> n"
  shows "\<exists>h'. com_send_loop dev port m p (int i) h = Some (Inr h') \<and> sent port h' = sent port h @ drop i (cstring m p n)"
  using assms(4)
proof (induction i arbitrary: h rule: inc_induct)
  case base
  show ?case using assms(2) by (subst com_send_loop.simps) (simp add: cstring_at_def cstring_def)
next
  case (step i)
  let ?c = "m (p + of_nat i)"
  have c: "?c \<noteq> 0" using assms(2) step(2) by (simp add: cstring_at_def)
  have d: "drop i (cstring m p n) = ?c # drop (Suc i) (cstring m p n)"
    using step(2) by (simp add: cstring_def Cons_nth_drop_Suc [symmetric])
  obtain h1 where 1: "com_send_char dev port ?c h = Some h1" "sent port h1 = sent port h @ [?c]"
    using com_send_char_sent [OF assms(1)] by blast
  obtain h2 where "com_send_loop dev port m p (int (Suc i)) h1 = Some (Inr h2)"
      "sent port h2 = sent port h1 @ drop (Suc i) (cstring m p n)"
    using step.IH by blast
  with 1 c d step(2) assms(3) show ?case by (subst com_send_loop.simps) (simp add: add.commute)
qed

lemma com_send_string_sent:
  "transmits dev port \<Longrightarrow> cstring_at m p n \<Longrightarrow> n < 2 ^ 31 \<Longrightarrow>
   \<exists>h'. com_send_string dev port m p h = Some (Inr h') \<and> sent port h' = sent port h @ cstring m p n"
  using com_send_loop_sent [of dev port m p n 0 h] by (simp add: com_send_string_def)

end
