(* ===== verification/Descriptor_Tables.thy ===== *)
theory Descriptor_Tables
  imports Devices
begin

text \<open>
  \<open>tables/gdt.c\<close> and \<open>tables/idt.c\<close>: the segment descriptors, the task state segment and the
  interrupt gates, and what the processor finds in these tables. The addresses of the static
  tables and of the interrupt stubs (\<open>_isr_vector_asm\<close>) are chosen by the linker and are parameters.
\<close>

section \<open>Structures\<close>

record tss_descriptor_t =
  tss_length :: u16
  tss_base_low :: u16
  tss_base_middle :: u8
  tss_flags1 :: u8
  tss_flags2 :: u8
  tss_base_high :: u8
  tss_base_upper :: u32
  tss_reserved :: u32

record gdt_descriptor_t =
  limit_low :: u16
  base_low :: u16
  base_middle :: u8
  access :: u8
  limit_high_and_flags :: u8
  base_high :: u8

record tss_t =
  reserved0 :: u32
  tss_rsp :: "u64 list"
  reserved1 :: u64
  tss_ist :: "u64 list"
  reserved2 :: u32
  reserved3 :: u32
  reserved4 :: u16
  iopb_offset :: u16

record gdt_t =
  entries :: "gdt_descriptor_t list"
  tss_descriptor :: tss_descriptor_t

record gdtr_t =
  gdtr_limit :: u16
  gdtr_base :: u64

record idt_descriptor_t =
  offset_low :: u16
  selector :: u16
  gate_ist :: u8
  type_attributes :: u8
  offset_middle :: u16
  offset_high :: u32
  zero_field :: u32

record idtr_t =
  idtr_limit :: u16
  idtr_base :: u64

text \<open>The packed layout: the bytes of a structure in memory, fields in order, low byte first.\<close>

definition le_bytes :: "nat \<Rightarrow> 'a::len word \<Rightarrow> u8 list" where
  "le_bytes n w = map (\<lambda>i. ucast (drop_bit (8 * i) w)) [0..<n]"

definition gdt_descriptor_bytes :: "gdt_descriptor_t \<Rightarrow> u8 list" where
  "gdt_descriptor_bytes d =
     le_bytes 2 (limit_low d) @ le_bytes 2 (base_low d) @ [base_middle d, access d, limit_high_and_flags d, base_high d]"

definition tss_descriptor_bytes :: "tss_descriptor_t \<Rightarrow> u8 list" where
  "tss_descriptor_bytes d =
     le_bytes 2 (tss_length d) @ le_bytes 2 (tss_base_low d) @ [tss_base_middle d, tss_flags1 d, tss_flags2 d, tss_base_high d]
     @ le_bytes 4 (tss_base_upper d) @ le_bytes 4 (tss_reserved d)"

definition gdt_bytes :: "gdt_t \<Rightarrow> u8 list" where
  "gdt_bytes g = concat (map gdt_descriptor_bytes (entries g)) @ tss_descriptor_bytes (tss_descriptor g)"

definition idt_descriptor_bytes :: "idt_descriptor_t \<Rightarrow> u8 list" where
  "idt_descriptor_bytes d =
     le_bytes 2 (offset_low d) @ le_bytes 2 (selector d) @ [gate_ist d, type_attributes d]
     @ le_bytes 2 (offset_middle d) @ le_bytes 4 (offset_high d) @ le_bytes 4 (zero_field d)"

section \<open>The state of the two files and of the processor\<close>

record tables_state =
  gdt :: gdt_t
  gdtr :: gdtr_t
  idt :: "idt_descriptor_t list"
  idtr :: idtr_t
  cpu_gdtr :: gdtr_t
  cpu_idtr :: idtr_t
  cpu_cs :: u16
  cpu_ds :: u16
  cpu_tr :: u16
  cpu_if :: bool
  ports :: "io_event list"

abbreviation (input) GDT_NULL_DESCRIPTOR :: nat where "GDT_NULL_DESCRIPTOR \<equiv> 0"
abbreviation (input) GDT_KERNEL_CODE :: nat where "GDT_KERNEL_CODE \<equiv> 1"
abbreviation (input) GDT_KERNEL_DATA :: nat where "GDT_KERNEL_DATA \<equiv> 2"
abbreviation (input) GDT_USER_DATA :: nat where "GDT_USER_DATA \<equiv> 3"
abbreviation (input) GDT_USER_CODE :: nat where "GDT_USER_CODE \<equiv> 4"
abbreviation (input) INT_GATE :: u8 where "INT_GATE \<equiv> 0x8E"

section \<open>Segments\<close>

text \<open>The six assignments to one entry; base and limit are 0 in all of them.\<close>

definition set_segment :: "nat \<Rightarrow> u8 \<Rightarrow> u8 \<Rightarrow> 'a tables_state_scheme \<Rightarrow> 'a tables_state_scheme" where
  "set_segment i acc flags s =
     s\<lparr>gdt := (gdt s)\<lparr>entries := (entries (gdt s))[i := \<lparr>limit_low = 0, base_low = 0, base_middle = 0, access = acc,
         limit_high_and_flags = flags, base_high = 0\<rparr>]\<rparr>\<rparr>"

definition tss_create_segment :: "u64 \<Rightarrow> 'a tables_state_scheme \<Rightarrow> 'a tables_state_scheme" where
  "tss_create_segment addr s =
     s\<lparr>gdt := (gdt s)\<lparr>tss_descriptor := \<lparr>tss_length = 104, tss_base_low = ucast addr,
         tss_base_middle = ucast (drop_bit 16 addr), tss_flags1 = 0b10001001, tss_flags2 = 0,
         tss_base_high = ucast (drop_bit 24 addr), tss_base_upper = ucast (drop_bit 32 addr), tss_reserved = 0\<rparr>\<rparr>\<rparr>"

text \<open>
  \<open>_gdt_load_asm\<close> loads the table register and both kinds of segment registers, \<open>_tss_load_asm\<close> the
  task register.
\<close>

definition gdt_load :: "'a tables_state_scheme \<Rightarrow> 'a tables_state_scheme" where
  "gdt_load s = s\<lparr>cpu_gdtr := gdtr s, cpu_ds := 0x10, cpu_cs := 0x08\<rparr>"

definition tss_load :: "'a tables_state_scheme \<Rightarrow> 'a tables_state_scheme" where
  "tss_load s = s\<lparr>cpu_tr := 0x28\<rparr>"

definition gdt_init :: "u64 \<Rightarrow> 'a tables_state_scheme \<Rightarrow> 'a tables_state_scheme" where
  "gdt_init gdt_addr s =
     (let s = set_segment GDT_NULL_DESCRIPTOR 0 0 s;
          s = set_segment GDT_KERNEL_CODE 0b10011010 0b00100000 s;
          s = set_segment GDT_KERNEL_DATA 0b10010010 0 s;
          s = set_segment GDT_USER_DATA 0b11110010 0 s;
          s = set_segment GDT_USER_CODE 0b11111010 0b00100000 s;
          s = tss_create_segment 0 s;
          s = s\<lparr>gdtr := \<lparr>gdtr_limit = of_nat (length (gdt_bytes (gdt s)) - 1), gdtr_base = gdt_addr\<rparr>\<rparr>
      in gdt_load s)"

section \<open>Interrupt gates\<close>

definition create_descriptor :: "(nat \<Rightarrow> u64) \<Rightarrow> u8 \<Rightarrow> u8 \<Rightarrow> 'a tables_state_scheme \<Rightarrow> 'a tables_state_scheme" where
  "create_descriptor isr_vector index attributes s =
     (let offset = isr_vector (unat index)
      in s\<lparr>idt := (idt s)[unat index := \<lparr>offset_low = ucast (offset AND 0xFFFF), selector = 0x08, gate_ist = 0,
           type_attributes = attributes, offset_middle = ucast (drop_bit 16 offset AND 0xFFFF),
           offset_high = ucast (drop_bit 32 offset AND 0xFFFFFFFF), zero_field = 0\<rparr>]\<rparr>)"

definition idt_load :: "'a tables_state_scheme \<Rightarrow> 'a tables_state_scheme" where
  "idt_load s = s\<lparr>cpu_idtr := idtr s\<rparr>"

definition idt_init :: "io_device \<Rightarrow> (nat \<Rightarrow> u64) \<Rightarrow> u64 \<Rightarrow> 'a tables_state_scheme \<Rightarrow> 'a tables_state_scheme" where
  "idt_init dev isr_vector idt_addr s =
     (let s = fold (\<lambda>i. create_descriptor isr_vector (of_nat i) INT_GATE) [0..<32] s;
          s = s\<lparr>ports := pic_remap dev (ports s)\<rparr>;
          s = fold (\<lambda>i. create_descriptor isr_vector (of_nat i) INT_GATE) [32..<48] s;
          s = fold (\<lambda>i. create_descriptor isr_vector (of_nat i) INT_GATE) [48..<256] s;
          s = s\<lparr>idtr := \<lparr>idtr_limit = of_nat (length (concat (map idt_descriptor_bytes (idt s))) - 1), idtr_base = idt_addr\<rparr>\<rparr>;
          s = idt_load s
      in s\<lparr>cpu_if := True\<rparr>)"

section \<open>What the processor finds\<close>

text \<open>
  Interrupt delivery in 64-bit mode, as the processor manual has it: the gate at \<open>16 * i\<close> of the
  interrupt table must lie within the limit, be present and be an interrupt gate; its selector
  must pick a present 64-bit code segment within the limit of the segment table. The result is
  the selector and the entry point.
\<close>

definition le_word :: "u8 list \<Rightarrow> u64" where
  "le_word bs = foldr (\<lambda>b w. ucast b OR push_bit 8 w) bs 0"

definition is_code_segment :: "u8 list \<Rightarrow> u16 \<Rightarrow> nat \<Rightarrow> bool" where
  "is_code_segment gdt_mem limit sel \<longleftrightarrow> sel div 8 \<noteq> 0 \<and> sel div 8 * 8 + 7 \<le> unat limit
     \<and> (let acc = gdt_mem ! (sel div 8 * 8 + 5); flags = gdt_mem ! (sel div 8 * 8 + 6)
        in bit acc 7 \<and> bit acc 4 \<and> bit acc 3 \<and> bit flags 5 \<and> \<not> bit flags 6)"

definition deliver_interrupt :: "u8 list \<Rightarrow> u16 \<Rightarrow> u8 list \<Rightarrow> u16 \<Rightarrow> nat \<Rightarrow> (u64 \<times> u64) option" where
  "deliver_interrupt gdt_mem glimit idt_mem ilimit i =
     (let g = take 16 (drop (16 * i) idt_mem);
          sel = le_word [g ! 2, g ! 3];
          rip = le_word [g ! 0, g ! 1, g ! 6, g ! 7, g ! 8, g ! 9, g ! 10, g ! 11]
      in if 16 * i + 15 \<le> unat ilimit \<and> bit (g ! 5) 7 \<and> g ! 5 AND 0xF = 0xE
            \<and> is_code_segment gdt_mem glimit (unat sel)
         then Some (sel, rip) else None)"

text \<open>The base address in the sixteen-byte system descriptor at a selector.\<close>

definition system_base :: "u8 list \<Rightarrow> nat \<Rightarrow> u64" where
  "system_base gdt_mem sel =
     (let d = take 16 (drop sel gdt_mem) in le_word [d ! 2, d ! 3, d ! 4, d ! 7, d ! 8, d ! 9, d ! 10, d ! 11])"

section \<open>The tables after initialisation\<close>

lemma le_bytes_simps:
  "le_bytes 2 w = [ucast w, ucast (drop_bit 8 w)]"
  "le_bytes 4 w = [ucast w, ucast (drop_bit 8 w), ucast (drop_bit 16 w), ucast (drop_bit 24 w)]"
  by (simp_all add: le_bytes_def numeral_eq_Suc)

lemma length_gdt_descriptor_bytes [simp]: "length (gdt_descriptor_bytes d) = 8"
  by (simp add: gdt_descriptor_bytes_def le_bytes_def)

lemma length_tss_descriptor_bytes [simp]: "length (tss_descriptor_bytes d) = 16"
  by (simp add: tss_descriptor_bytes_def le_bytes_def)

lemma length_idt_descriptor_bytes [simp]: "length (idt_descriptor_bytes d) = 16"
  by (simp add: idt_descriptor_bytes_def le_bytes_def)

lemma drop_concat_const:
  "\<forall>x\<in>set xs. length (f x) = n \<Longrightarrow> i < length xs \<Longrightarrow> take n (drop (n * i) (concat (map f xs))) = f (xs ! i)"
proof (induction xs arbitrary: i)
  case Nil
  then show ?case by simp
next
  case (Cons x xs)
  then show ?case by (cases i) simp_all
qed

lemma length_concat_const: "\<forall>x\<in>set xs. length (f x) = n \<Longrightarrow> length (concat (map f xs)) = n * length xs"
  by (induction xs) auto

lemma le_word_bytes:
  fixes a :: u64
  shows "le_word [ucast a, ucast (drop_bit 8 a), ucast (drop_bit 16 a), ucast (drop_bit 24 a), ucast (drop_bit 32 a),
    ucast (drop_bit 40 a), ucast (drop_bit 48 a), ucast (drop_bit 56 a)] = a"
proof (rule bit_word_eqI)
  fix n assume "n < LENGTH(64)"
  then consider "n < 8" | "8 \<le> n" "n < 16" | "16 \<le> n" "n < 24" | "24 \<le> n" "n < 32" | "32 \<le> n" "n < 40"
    | "40 \<le> n" "n < 48" | "48 \<le> n" "n < 56" | "56 \<le> n" "n < 64" by fastforce
  then show "bit (le_word [ucast a, ucast (drop_bit 8 a), ucast (drop_bit 16 a), ucast (drop_bit 24 a), ucast (drop_bit 32 a),
      ucast (drop_bit 40 a), ucast (drop_bit 48 a), ucast (drop_bit 56 a)]) n = bit a n"
    by cases (auto simp: le_word_def bit_simps)
qed

text \<open>Bytes of fields that hold parts of an address.\<close>

lemma part_bytes:
  fixes a :: u64
  shows "(ucast (ucast a :: u16) :: u8) = ucast a" "(ucast (drop_bit 8 (ucast a :: u16)) :: u8) = ucast (drop_bit 8 a)"
    "(ucast (ucast a :: u32) :: u8) = ucast a" "(ucast (drop_bit 8 (ucast a :: u32)) :: u8) = ucast (drop_bit 8 a)"
    "(ucast (drop_bit 16 (ucast a :: u32)) :: u8) = ucast (drop_bit 16 a)"
    "(ucast (drop_bit 24 (ucast a :: u32)) :: u8) = ucast (drop_bit 24 a)"
    "(ucast (a AND 0xFFFF) :: u16) = ucast a" "(ucast (a AND 0xFFFFFFFF) :: u32) = ucast a"
proof -
  have m: "(0xFFFF :: u64) = mask 16" "(0xFFFFFFFF :: u64) = mask 32" by (simp_all add: mask_eq_exp_minus_1)
  show "(ucast (a AND 0xFFFF) :: u16) = ucast a" "(ucast (a AND 0xFFFFFFFF) :: u32) = ucast a"
    unfolding m by (rule bit_word_eqI; simp add: bit_simps)+
qed (rule bit_word_eqI; auto simp: bit_simps)+

lemma idt_fold_create:
  "idt (fold (\<lambda>i. create_descriptor vec (of_nat i) a) is s) =
     fold (\<lambda>i xs. xs[unat (of_nat i :: u8) := \<lparr>offset_low = ucast (vec (unat (of_nat i :: u8)) AND 0xFFFF), selector = 0x08, gate_ist = 0,
           type_attributes = a, offset_middle = ucast (drop_bit 16 (vec (unat (of_nat i :: u8))) AND 0xFFFF),
           offset_high = ucast (drop_bit 32 (vec (unat (of_nat i :: u8))) AND 0xFFFFFFFF), zero_field = 0\<rparr>]) is (idt s)"
  by (induction "is" arbitrary: s) (simp_all add: create_descriptor_def Let_def)

lemma gdt_fold_create: "gdt (fold (\<lambda>i. create_descriptor vec (of_nat i) a) is s) = gdt s"
  "gdtr (fold (\<lambda>i. create_descriptor vec (of_nat i) a) is s) = gdtr s"
  "cpu_gdtr (fold (\<lambda>i. create_descriptor vec (of_nat i) a) is s) = cpu_gdtr s"
  "ports (fold (\<lambda>i. create_descriptor vec (of_nat i) a) is s) = ports s"
  by (induction "is" arbitrary: s) (simp_all add: create_descriptor_def Let_def)

lemma fold_update_nth:
  assumes "j < length xs" "distinct js" "\<And>i. i \<in> set js \<Longrightarrow> g i = i"
  shows "fold (\<lambda>i xs. xs[g i := f i]) js xs ! j = (if j \<in> set js then f j else xs ! j)
    \<and> length (fold (\<lambda>i xs. xs[g i := f i]) js xs) = length xs"
  using assms
proof (induction js arbitrary: xs)
  case Nil
  then show ?case by simp
next
  case (Cons i js)
  then show ?case by (auto simp: nth_list_update)
qed


text \<open>The tables as the linker leaves them, all zero.\<close>

definition tables_sized :: "'a tables_state_scheme \<Rightarrow> bool" where
  "tables_sized s \<longleftrightarrow> length (entries (gdt s)) = 5 \<and> length (idt s) = 256"

lemma gdt_init_tables:
  assumes "length (entries (gdt s)) = 5"
  shows "gdt_bytes (gdt (gdt_init a s)) = replicate 8 0 @ [0, 0, 0, 0, 0, 0x9A, 0x20, 0] @ [0, 0, 0, 0, 0, 0x92, 0, 0]
      @ [0, 0, 0, 0, 0, 0xF2, 0, 0] @ [0, 0, 0, 0, 0, 0xFA, 0x20, 0] @ tss_descriptor_bytes (tss_descriptor (gdt (gdt_init a s)))"
    and "cpu_gdtr (gdt_init a s) = \<lparr>gdtr_limit = 55, gdtr_base = a\<rparr>" "idt (gdt_init a s) = idt s"
proof -
  obtain e0 e1 e2 e3 e4 where e: "entries (gdt s) = [e0, e1, e2, e3, e4]"
    using assms by (auto simp: length_Suc_conv numeral_eq_Suc)
  show "gdt_bytes (gdt (gdt_init a s)) = replicate 8 0 @ [0, 0, 0, 0, 0, 0x9A, 0x20, 0] @ [0, 0, 0, 0, 0, 0x92, 0, 0]
      @ [0, 0, 0, 0, 0, 0xF2, 0, 0] @ [0, 0, 0, 0, 0, 0xFA, 0x20, 0] @ tss_descriptor_bytes (tss_descriptor (gdt (gdt_init a s)))"
    using e by (simp add: gdt_init_def gdt_load_def set_segment_def tss_create_segment_def gdt_bytes_def
        gdt_descriptor_bytes_def le_bytes_def Let_def numeral_eq_Suc)
  show "cpu_gdtr (gdt_init a s) = \<lparr>gdtr_limit = 55, gdtr_base = a\<rparr>"
    using e by (simp add: gdt_init_def gdt_load_def set_segment_def tss_create_segment_def gdt_bytes_def Let_def)
  show "idt (gdt_init a s) = idt s"
    by (simp add: gdt_init_def gdt_load_def set_segment_def tss_create_segment_def Let_def)
qed

lemma unat_of_nat_u8: "i < 256 \<Longrightarrow> unat (of_nat i :: u8) = i"
  by (simp add: unat_of_nat)

definition gate_of :: "(nat \<Rightarrow> u64) \<Rightarrow> nat \<Rightarrow> idt_descriptor_t" where
  "gate_of vec i = \<lparr>offset_low = ucast (vec i), selector = 0x08, gate_ist = 0, type_attributes = INT_GATE,
     offset_middle = ucast (drop_bit 16 (vec i)), offset_high = ucast (drop_bit 32 (vec i)), zero_field = 0\<rparr>"

lemma idt_init_tables:
  assumes "length (idt s) = 256"
  shows "idt (idt_init dev vec a s) = map (gate_of vec) [0..<256]"
    "cpu_idtr (idt_init dev vec a s) = \<lparr>idtr_limit = 4095, idtr_base = a\<rparr>"
    "gdt (idt_init dev vec a s) = gdt s" "cpu_gdtr (idt_init dev vec a s) = cpu_gdtr s"
    "ports (idt_init dev vec a s) = pic_remap dev (ports s)"
  supply upt_rec_numeral [simp del]
proof -
  let ?f = "\<lambda>i xs. xs[unat (of_nat i :: u8) := gate_of vec (unat (of_nat i :: u8))]"
  have i: "idt (idt_init dev vec a s) = fold ?f [48..<256] (fold ?f [32..<48] (fold ?f [0..<32] (idt s)))"
    by (simp add: idt_init_def idt_load_def idt_fold_create gate_of_def part_bytes Let_def)
  also have "\<dots> = fold ?f ([0..<32] @ [32..<48] @ [48..<256]) (idt s)" by simp
  also have "[0..<32] @ [32..<48] @ [48..<256] = [0..<256 :: nat]"
    using upt_add_eq_append [of 0 32 16] upt_add_eq_append [of 0 48 208] by simp
  also have "fold ?f [0..<256] (idt s) = map (gate_of vec) [0..<256]"
  proof (rule nth_equalityI)
    note n = fold_update_nth [where xs = "idt s" and js = "[0..<256]" and g = "\<lambda>i. unat (of_nat i :: u8)"
        and f = "\<lambda>i. gate_of vec (unat (of_nat i :: u8))"]
    show "length (fold ?f [0..<256] (idt s)) = length (map (gate_of vec) [0..<256])"
      using n [of 0] assms by (simp add: unat_of_nat_u8)
    then show "fold ?f [0..<256] (idt s) ! j = map (gate_of vec) [0..<256] ! j" if "j < length (fold ?f [0..<256] (idt s))" for j
      using n [of j] that assms by (simp add: unat_of_nat_u8)
  qed
  finally show gates: "idt (idt_init dev vec a s) = map (gate_of vec) [0..<256]" .
  then show "cpu_idtr (idt_init dev vec a s) = \<lparr>idtr_limit = 4095, idtr_base = a\<rparr>"
    by (simp add: idt_init_def idt_load_def Let_def length_concat_const [where n = 16])
  show "gdt (idt_init dev vec a s) = gdt s" "cpu_gdtr (idt_init dev vec a s) = cpu_gdtr s"
    "ports (idt_init dev vec a s) = pic_remap dev (ports s)"
    by (simp_all add: idt_init_def idt_load_def gdt_fold_create Let_def)
qed

lemma deliver_to_stub:
  assumes "tables_sized s" and "i < 256" and "t = idt_init dev isr_vector idt_addr (gdt_init gdt_addr s)"
  shows "deliver_interrupt (gdt_bytes (gdt t)) (gdtr_limit (cpu_gdtr t)) (concat (map idt_descriptor_bytes (idt t)))
    (idtr_limit (cpu_idtr t)) i = Some (0x08, isr_vector i)"
proof -
  have len: "length (idt (gdt_init gdt_addr s)) = 256" "length (entries (gdt s)) = 5"
    using assms(1) gdt_init_tables(3) [of s gdt_addr] by (simp_all add: tables_sized_def)
  note g = gdt_init_tables [OF len(2), of gdt_addr] and t = idt_init_tables [OF len(1), of dev isr_vector idt_addr]
  have gate: "take 16 (drop (16 * i) (concat (map idt_descriptor_bytes (idt t)))) = idt_descriptor_bytes (gate_of isr_vector i)"
    using drop_concat_const [of "map (gate_of isr_vector) [0..<256]" idt_descriptor_bytes 16 i] assms(2,3) t(1)
    by (simp del: upt_rec_numeral)
  have code: "is_code_segment (gdt_bytes (gdt t)) 55 8"
    unfolding assms(3) t(3) g(1) by (simp add: is_code_segment_def Let_def nth_append bit_numeral_rec)
  have sel: "le_word [8, 0] = 8" by (simp add: le_word_def)
  have "16 * i + 15 \<le> 4095" using assms(2) by simp
  then show ?thesis
    using gate code sel g(2) t(2,4) assms(3) le_word_bytes [of "isr_vector i"]
    by (simp add: deliver_interrupt_def Let_def idt_descriptor_bytes_def gate_of_def le_bytes_simps part_bytes
        bit_numeral_rec drop_bit_drop_bit)
qed

text \<open>C10. After \<open>gdt_init\<close> and \<open>idt_init\<close>, every one of the 256 interrupts is delivered to its stub: the gate
  is within the limit and valid, its selector picks the kernel code segment of the segment
  table, and the entry point is the address of the stub.\<close>

theorem interrupts_reach_stubs:
  assumes "tables_sized s" and "i < 256" and "t = idt_init dev isr_vector idt_addr (gdt_init gdt_addr s)"
  shows "deliver_interrupt (gdt_bytes (gdt t)) (gdtr_limit (cpu_gdtr t)) (concat (map idt_descriptor_bytes (idt t)))
    (idtr_limit (cpu_idtr t)) i = Some (0x08, isr_vector i)"
  using assms by (rule deliver_to_stub)

definition example_tables :: tables_state where
  "example_tables = \<lparr>gdt = \<lparr>entries = replicate 5 (gdt_descriptor_t.make 0 0 0 0 0 0), tss_descriptor = tss_descriptor_t.make 0 0 0 0 0 0 0 0\<rparr>,
     gdtr = \<lparr>gdtr_limit = 0, gdtr_base = 0\<rparr>, idt = replicate 256 (idt_descriptor_t.make 0 0 0 0 0 0 0),
     idtr = \<lparr>idtr_limit = 0, idtr_base = 0\<rparr>, cpu_gdtr = \<lparr>gdtr_limit = 0, gdtr_base = 0\<rparr>,
     cpu_idtr = \<lparr>idtr_limit = 0, idtr_base = 0\<rparr>, cpu_cs = 0, cpu_ds = 0, cpu_tr = 0, cpu_if = False, ports = []\<rparr>"

theorem interrupts_reach_stubs_witness:
  "let t = idt_init example_pics (\<lambda>i. 0xFFFFFFFF80001000 + 16 * of_nat i) 0xFFFFFFFF80100000 (gdt_init 0xFFFFFFFF80110000 example_tables)
   in deliver_interrupt (gdt_bytes (gdt t)) (gdtr_limit (cpu_gdtr t)) (concat (map idt_descriptor_bytes (idt t)))
        (idtr_limit (cpu_idtr t)) 32 = Some (0x08, 0xFFFFFFFF80001200)"
proof -
  have "tables_sized example_tables" by (simp add: tables_sized_def example_tables_def)
  from interrupts_reach_stubs [OF this _ refl, of 32] show ?thesis by (simp add: Let_def)
qed

lemma tss_segment_base:
  assumes "length (entries (gdt s)) = 5"
  shows "system_base (gdt_bytes (gdt (tss_create_segment addr s))) 0x28 = addr"
proof -
  obtain e0 e1 e2 e3 e4 where e: "entries (gdt s) = [e0, e1, e2, e3, e4]"
    using assms by (auto simp: length_Suc_conv numeral_eq_Suc)
  let ?t = "tss_create_segment addr s"
  have "length (concat (map gdt_descriptor_bytes (entries (gdt ?t)))) = 0x28"
    using e by (simp add: tss_create_segment_def)
  then have "take 16 (drop 0x28 (gdt_bytes (gdt ?t))) = tss_descriptor_bytes (tss_descriptor (gdt ?t))"
    by (simp add: gdt_bytes_def)
  then show ?thesis
    using le_word_bytes [of addr]
    by (simp add: system_base_def Let_def tss_create_segment_def tss_descriptor_bytes_def le_bytes_simps part_bytes
        drop_bit_drop_bit)
qed

text \<open>C27. The task state segment descriptor at selector 0x28 of the segment table gives back, in the eight
  places the processor reads it from, the address it was made for.\<close>

theorem tss_descriptor_roundtrip:
  assumes "tables_sized s"
  shows "system_base (gdt_bytes (gdt (tss_create_segment addr (gdt_init gdt_addr s)))) 0x28 = addr
    \<and> cpu_tr (tss_load (tss_create_segment addr (gdt_init gdt_addr s))) = 0x28"
proof -
  have "length (entries (gdt (gdt_init gdt_addr s))) = 5"
    using assms by (simp add: tables_sized_def gdt_init_def gdt_load_def set_segment_def tss_create_segment_def Let_def)
  from tss_segment_base [OF this] show ?thesis by (simp add: tss_load_def)
qed

theorem tss_descriptor_roundtrip_witness:
  "system_base (gdt_bytes (gdt (tss_create_segment 0xFFFF900000012345 (gdt_init 0x1000 example_tables)))) 0x28 = 0xFFFF900000012345"
  using tss_descriptor_roundtrip [of example_tables "0xFFFF900000012345" "0x1000"] by (simp add: tables_sized_def example_tables_def)

end
