(* ===== verification/Realloc.thy ===== *)
theory Realloc
  imports Malloc
begin

text \<open>
  \<open>realloc\<close> of \<open>libk/malloc/malloc.c\<close> on blocks of the slab caches: what a move to another cache
  copies, and where it writes.
\<close>

section \<open>Blocks\<close>

text \<open>The buffer \<open>p\<close> of cache \<open>i\<close> is allocated: it is not free and its metadata names the cache.\<close>

definition heap_block :: "pool list \<Rightarrow> memory \<Rightarrow> nat \<Rightarrow> u64 \<Rightarrow> bool" where
  "heap_block H m i p \<longleftrightarrow> i < 6 \<and> metadata_size m p = of_nat i \<and> p AND 0xFFF \<noteq> 0
     \<and> (case H ! i of (c, mx, ss) \<Rightarrow> (\<exists>r\<in>fst ` set ss. p \<in> bufs (16 * 2 ^ i) r) \<and> p \<notin> set (free_bufs ss)
          \<and> pool_free mx p ss \<noteq> None)"

lemma heap_blockE:
  assumes "heap_block H m i p"
  obtains c mx ss ss' r where "i < 6" "metadata_size m p = of_nat i" "p AND 0xFFF \<noteq> 0" "H ! i = (c, mx, ss)" "r \<in> fst ` set ss"
    "p \<in> bufs (16 * 2 ^ i) r" "p \<notin> set (free_bufs ss)" "pool_free mx p ss = Some ss'"
  using assms by (auto simp: heap_block_def split: prod.splits)

lemma pool_inv_at: "heap_inv s H \<Longrightarrow> i < 6 \<Longrightarrow> H ! i = (c, mx, ss) \<Longrightarrow> pool_inv (kmem s) (slab_caches s ! i) (16 * 2 ^ i) (c, mx, ss)"
  by (metis heap_inv_def)

lemma sz_ge: "(16 :: nat) \<le> 16 * 2 ^ i"
  using one_le_power [of "2 :: nat" i] by linarith

lemma buf_page:
  assumes "heap_inv s H" "i < 6" "H ! i = (c, mx, ss)" "p \<in> bufs (16 * 2 ^ i) r" "r \<in> fst ` set ss"
  obtains n where "p = loc r n" "n + 16 * 2 ^ i \<le> 4056" "r < 2 ^ 31" "r \<in> pool_pages (H ! i)"
proof -
  have "cache_inv (kmem s) c (16 * 2 ^ i) mx ss" using pool_inv_at [OF assms(1-3)] by (simp add: pool_inv_def)
  then have "r < 2 ^ 31" using assms(5) by (auto simp: cache_inv_def pool_shape_def)
  moreover obtain n where "p = loc r n" "n + 16 * 2 ^ i \<le> 4056" using bufsE [OF assms(4) sz_ge] .
  moreover have "r \<in> pool_pages (H ! i)" using assms(3,5) by (simp add: pool_pages_def)
  ultimately show thesis using that by blast
qed

lemma loc_offset: "unat (a - loc r n) < k \<Longrightarrow> r < 2 ^ 31 \<Longrightarrow> n + k \<le> 4096 \<Longrightarrow> unat a = r * 4096 + n + unat (a - loc r n)"
proof -
  assume a: "unat (a - loc r n) < k" "r < 2 ^ 31" "n + k \<le> 4096"
  have "a = loc r (n + unat (a - loc r n))" by (simp add: loc_def)
  then have "unat a = unat (loc r (n + unat (a - loc r n)))" by simp
  also have "\<dots> = r * 4096 + n + unat (a - loc r n)" using a by (subst unat_loc) simp_all
  finally show ?thesis .
qed

text \<open>The buffer a pool hands out.\<close>

lemma pool_alloc_buf:
  assumes "heap_inv s H" "j < 6" "H ! j = (d, my, tt)" "pool_alloc tt = Some (p, tt')"
  obtains r n where "p = loc r n" "n + 16 * 2 ^ j \<le> 4056" "r < 2 ^ 31" "r \<in> pool_pages (H ! j)" "r \<in> fst ` set tt'" "p \<in> bufs (16 * 2 ^ j) r"
    "p \<in> set (free_bufs tt)" "p \<notin> set (free_bufs tt')" "p AND 0xFFF \<noteq> 0" "pool_free my p tt' \<noteq> None"
proof -
  have pinv: "pool_inv (kmem s) (slab_caches s ! j) (16 * 2 ^ j) (d, my, tt)" by (rule pool_inv_at [OF assms(1-3)])
  then have cinv: "cache_inv (kmem s) d (16 * 2 ^ j) my tt" by (simp add: pool_inv_def)
  then have ps: "pool_shape d (16 * 2 ^ j) my tt" by (simp add: cache_inv_def)
  note al = pool_alloc_SomeD [OF assms(4)]
  have pin: "p \<in> set (free_bufs tt)" using al by simp
  then obtain r where r: "r \<in> fst ` set tt" "p \<in> bufs (16 * 2 ^ j) r" using ps unfolding pool_shape_def by blast
  obtain n where n: "p = loc r n" "n + 16 * 2 ^ j \<le> 4056" "r < 2 ^ 31" "r \<in> pool_pages (H ! j)" by (rule buf_page [OF assms(1-3) r(2,1)])
  have "p AND 0xFFF \<noteq> 0" using pinv pin unfolding pool_inv_def by blast
  moreover have "r \<in> fst ` set tt'" using r(1) al by (metis list.set_map)
  moreover have "p \<notin> set (free_bufs tt')" using ps al by (simp add: pool_shape_def)
  moreover have "pool_free my p tt' \<noteq> None" using pool_free_after_alloc [OF cinv assms(4)] by blast
  ultimately show thesis using that [OF n] r(2) pin by blast
qed

lemma loc_byte_page: "x < k \<Longrightarrow> r < 2 ^ 31 \<Longrightarrow> n + k \<le> 4096 \<Longrightarrow> unat (loc r n + of_nat x) div 4096 = r"
proof -
  assume x: "x < k" "r < 2 ^ 31" "n + k \<le> 4096"
  have "loc r n + of_nat x = loc r (n + x)" by (simp add: loc_def)
  with x show ?thesis by (simp add: unat_loc)
qed

lemma metadata_cong: "(\<And>x. x < 2 \<Longrightarrow> m' (p + of_nat x) = m (p + of_nat x)) \<Longrightarrow> metadata_size m' p = metadata_size m p"
  unfolding metadata_size_def load16_def by (rule load_word_cong) simp

text \<open>A write that leaves the links and counters of a cache alone keeps the heap well formed, as does
  any write into an allocated buffer.\<close>

lemma heap_inv_write:
  assumes inv: "heap_inv s H" and i: "i < 6" "H ! i = (c, mx, ss)"
    and links: "\<And>a. a \<in> footprint c ss \<Longrightarrow> load64 m a = load64 (kmem s) a"
    and frame: "\<And>a. unat a div 4096 \<notin> pool_pages (H ! i) \<Longrightarrow> m a = kmem s a"
  shows "heap_inv (s\<lparr>kmem := m\<rparr>) H"
proof -
  have pinv: "pool_inv (kmem s) (slab_caches s ! i) (16 * 2 ^ i) (c, mx, ss)" by (rule pool_inv_at [OF inv i])
  then have "cache_inv m c (16 * 2 ^ i) mx ss" using cache_inv_cong [of c ss m "kmem s"] links by (simp add: pool_inv_def)
  then have "pool_inv m (slab_caches s ! i) (16 * 2 ^ i) (c, mx, ss)" using pinv by (simp add: pool_inv_def)
  from heap_inv_step [OF inv i frame this] show ?thesis using i by (metis list_update_id)
qed

lemma heap_inv_buffer_write:
  assumes inv: "heap_inv s H" and i: "i < 6" "H ! i = (c, mx, ss)"
    and p: "p \<in> bufs (16 * 2 ^ i) r" "r \<in> fst ` set ss" "p \<notin> set (free_bufs ss)"
    and same: "\<And>a. \<not> unat (a - p) < 16 * 2 ^ i \<Longrightarrow> m a = kmem s a"
  shows "heap_inv (s\<lparr>kmem := m\<rparr>) H"
proof (rule heap_inv_write [OF inv i])
  have ps: "pool_shape c (16 * 2 ^ i) mx ss" using pool_inv_at [OF inv i] by (simp add: pool_inv_def cache_inv_def)
  show "load64 m a = load64 (kmem s) a" if "a \<in> footprint c ss" for a
    unfolding load64_def using separate_byte [OF footprint_buf [OF ps that p]] by (intro load_word_cong same) (simp add: not_less)
  obtain n where n: "p = loc r n" "n + 16 * 2 ^ i \<le> 4056" "r < 2 ^ 31" "r \<in> pool_pages (H ! i)" by (rule buf_page [OF inv i p(1,2)])
  show "m a = kmem s a" if a: "unat a div 4096 \<notin> pool_pages (H ! i)" for a
  proof (rule same, rule notI)
    assume "unat (a - p) < 16 * 2 ^ i"
    with loc_offset [of a r n] n have "unat a div 4096 = r" by simp
    with a n(4) show False by simp
  qed
qed

section \<open>Moving a block\<close>

lemma kaddr_heap_addr: "unat x < 2 ^ 44 \<Longrightarrow> kaddr (x + HEAP_START_ADDR) = x"
  by (simp add: kaddr_def HIGHER_HALF_CODE_def HEAP_START_ADDR_def word_le_nat_alt unat_word_ariths)

lemma kaddr_heap: "r < 2 ^ 31 \<Longrightarrow> k < 4096 \<Longrightarrow> kaddr (loc r k + HEAP_START_ADDR) = loc r k"
  by (rule kaddr_heap_addr) (simp add: unat_loc)

text \<open>The number of bytes \<open>realloc\<close> copies: the smaller of the old buffer and the rounded new size.\<close>

definition copied :: "nat \<Rightarrow> nat \<Rightarrow> nat" where "copied i n = 16 * 2 ^ min i (block_index n)"

lemma copied_le: "copied i n \<le> 16 * 2 ^ i" "copied i n \<le> 16 * 2 ^ block_index (n + 2)"
proof -
  show "copied i n \<le> 16 * 2 ^ i" by (simp add: copied_def power_increasing)
  have "block_index n \<le> block_index (n + 2)" using block_index_fits [of "n + 2"] by (intro block_index_least) simp
  then show "copied i n \<le> 16 * 2 ^ block_index (n + 2)" by (simp add: copied_def power_increasing)
qed

definition moved :: "memory \<Rightarrow> memory \<Rightarrow> u64 \<Rightarrow> u64 \<Rightarrow> nat \<Rightarrow> memory" where
  "moved m0 m p' p k = (\<lambda>x. if unat (x - (p' + 2)) < k then m0 (p + 2 + (x - (p' + 2))) else m x)"

lemma moved_page:
  assumes "r < 2 ^ 31" "n + 2 + k \<le> 4096" "unat a div 4096 \<noteq> r"
  shows "moved m0 m (loc r n) p k a = m a"
proof -
  have "\<not> unat (a - loc r (n + 2)) < k"
  proof
    assume "unat (a - loc r (n + 2)) < k"
    from loc_offset [OF this assms(1,2)] assms(2,3) \<open>unat (a - loc r (n + 2)) < k\<close> show False by simp
  qed
  then show ?thesis by (simp add: moved_def)
qed

text \<open>Sizes of the caches as words, and the size that \<open>realloc\<close> reads off the metadata.\<close>

lemma cache_size_word:
  shows "k < 6 \<Longrightarrow> unat (16 * 2 ^ k :: u64) = 16 * 2 ^ k" and "x < 6 \<Longrightarrow> y < 6 \<Longrightarrow> (16 * 2 ^ x < (16 * 2 ^ y :: u64)) = (x < y)"
proof -
  have u: "unat (16 * 2 ^ k :: u64) = 16 * 2 ^ k" if "k < 6" for k
  proof -
    have "k \<in> {0, 1, 2, 3, 4, 5}" using that by auto
    then show ?thesis by auto
  qed
  then show "k < 6 \<Longrightarrow> unat (16 * 2 ^ k :: u64) = 16 * 2 ^ k" .
  show "(16 * 2 ^ x < (16 * 2 ^ y :: u64)) = (x < y)" if "x < 6" "y < 6" using that by (simp add: word_less_nat_alt u)
qed

lemma block_size_read:
  assumes "i < 6" "metadata_size m p = of_nat i"
  shows "slab_cache_index_to_size (ucast (metadata_size m p)) = 16 * 2 ^ i" "slab_cache_index_to_size (ucast (metadata_size m p)) \<noteq> - 1"
    "of_int (16 * 2 ^ i) = (16 * 2 ^ i :: u64)"
proof -
  show sz: "slab_cache_index_to_size (ucast (metadata_size m p)) = 16 * 2 ^ i" "of_int (16 * 2 ^ i) = (16 * 2 ^ i :: u64)"
    using size_to_index_block(3) [OF assms(1)] assms by (simp_all add: unsigned_of_nat take_bit_nat_eq_self)
  have "0 < (16 * 2 ^ i :: int)" by simp
  then show "slab_cache_index_to_size (ucast (metadata_size m p)) \<noteq> - 1" using sz(1) by linarith
qed

text \<open>Copying between buffers in different pages.\<close>

lemma buffers_separate:
  assumes "r < 2 ^ 31" "r' < 2 ^ 31" "r \<noteq> r'" "a + 2 + k \<le> 4096" "b + 2 + k \<le> 4096" "a < 4094" "b < 4094"
  shows "separate (loc r' (b + 2)) k (loc r (a + 2)) k"
proof -
  have u: "unat (loc r (a + 2)) = r * 4096 + (a + 2)" "unat (loc r' (b + 2)) = r' * 4096 + (b + 2)" using assms by (simp_all add: unat_loc)
  have "r * 4096 + 4096 \<le> r' * 4096 \<or> r' * 4096 + 4096 \<le> r * 4096" using assms(3) by linarith
  moreover have "r * 4096 + 4096 \<le> 2 ^ 64" "r' * 4096 + 4096 \<le> 2 ^ 64" using assms(1,2) by simp_all
  ultimately show ?thesis using assms(4,5) unfolding separate_def u by linarith
qed

lemma memcpy_moved:
  assumes "r < 2 ^ 31" "r' < 2 ^ 31" "r \<noteq> r'" "a + 2 + unat len \<le> 4096" "b + 2 + unat len \<le> 4096" "a < 4094" "b < 4094"
    and same: "\<And>x. unat x div 4096 = r \<Longrightarrow> m x = m0 x"
  shows "memcpy m (loc r' b + 2) (loc r a + 2) len = moved m0 m (loc r' b) (loc r a) (unat len)"
proof
  fix x
  have sep: "separate (loc r' b + 2) (unat len) (loc r a + 2) (unat len)" using buffers_separate [OF assms(1-7)] by simp
  show "memcpy m (loc r' b + 2) (loc r a + 2) len x = moved m0 m (loc r' b) (loc r a) (unat len) x"
  proof (cases "unat (x - (loc r' b + 2)) < unat len")
    case True
    let ?y = "loc r a + 2 + (x - (loc r' b + 2))"
    have "?y = loc r (a + 2) + of_nat (unat (x - (loc r' b + 2)))" by simp
    then have "unat ?y div 4096 = r" using loc_byte_page [OF True assms(1,4)] by (simp only:)
    then have "m ?y = m0 ?y" by (rule same)
    then show ?thesis using True memcpy_closed [OF sep, of m] by (simp add: moved_def)
  next
    case False
    then show ?thesis using memcpy_closed [OF sep, of m] by (simp add: moved_def)
  qed
qed

lemma realloc_copies:
  fixes s :: "'a heap_state_scheme"
  assumes inv: "heap_inv s H" and old: "heap_block H (kmem s) i p"
    and n: "0 < unat n" "unat n \<le> 510" "block_index (unat n) \<noteq> i" and j: "j = block_index (unat n + 2)" "H ! j = (d, my, tt)" "i \<noteq> j"
    and pop: "pool_alloc tt = Some (p', tt')"
  shows "\<exists>m. heap_inv (s\<lparr>kmem := m\<rparr>) (H[j := (d, my, tt')]) \<and> metadata_size m p' = of_nat j
    \<and> (\<forall>a. unat a div 4096 \<notin> pool_pages (H ! j) \<longrightarrow> m a = kmem s a)
    \<and> realloc s (p + 2 + HEAP_START_ADDR) n = map_option (\<lambda>r. rbind r (\<lambda>s. Inr (p' + 2 + HEAP_START_ADDR, s)))
        (free (s\<lparr>kmem := moved (kmem s) m p' p (copied i (unat n))\<rparr>) (p + 2 + HEAP_START_ADDR))"
proof -
  obtain c mx ss ss' r where o: "i < 6" "metadata_size (kmem s) p = of_nat i" "p AND 0xFFF \<noteq> 0" "H ! i = (c, mx, ss)" "r \<in> fst ` set ss"
    "p \<in> bufs (16 * 2 ^ i) r" using old by (rule heap_blockE)
  have j6: "j < 6" using malloc_small_bounds [OF n(2)] j(1) by simp
  obtain m where m: "malloc s n = Some (Inr (p' + 2 + HEAP_START_ADDR, s\<lparr>kmem := m\<rparr>))"
      "heap_inv (s\<lparr>kmem := m\<rparr>) (H[j := (d, my, tt')])" "metadata_size m p' = of_nat j"
      "\<forall>a. unat a div 4096 \<notin> pool_pages (H ! j) \<longrightarrow> m a = kmem s a"
    using malloc_small [OF inv n(2) j(1,2) pop] by blast
  obtain a where a: "p = loc r a" "a + 16 * 2 ^ i \<le> 4056" "r < 2 ^ 31" "r \<in> pool_pages (H ! i)" by (rule buf_page [OF inv o(1,4,6,5)])
  obtain r' b where b: "p' = loc r' b" "b + 16 * 2 ^ j \<le> 4056" "r' < 2 ^ 31" "r' \<in> pool_pages (H ! j)" "p' \<in> bufs (16 * 2 ^ j) r'"
    by (rule pool_alloc_buf [OF inv j6 j(2) pop])
  have disj: "pool_pages (H ! i) \<inter> pool_pages (H ! j) = {}" using inv o(1) j6 j(3) by (simp add: heap_inv_def)
  then have rr: "r \<noteq> r'" using a(4) b(4) by auto
  have k: "kaddr (p + 2 + HEAP_START_ADDR) = p + 2" "kaddr (p' + 2 + HEAP_START_ADDR) = p' + 2"
    using kaddr_heap [of r "a + 2"] kaddr_heap [of r' "b + 2"] a(1-3) b(1-3) sz_ge [of i] sz_ge [of j] by simp_all
  have nz: "p + 2 + HEAP_START_ADDR \<noteq> 0" "p' + 2 + HEAP_START_ADDR \<noteq> 0"
    using heap_pointer_nonzero [OF o(6) sz_ge a(3)] heap_pointer_nonzero [OF b(5) sz_ge b(3)] by simp_all
  define len where "len = (16 * 2 ^ min i (block_index (unat n)) :: u64)"
  have bi: "block_index (unat n) < 6" "round_alloc_size n = 16 * 2 ^ block_index (unat n)" using round_alloc_size_small [of n] n(2) by simp_all
  have len: "unat len = copied i (unat n)" unfolding len_def copied_def using o(1) by (intro cache_size_word(1)) simp
  note lt = cache_size_word(2)
  have pick: "(if (16 * 2 ^ block_index (unat n) < (16 * 2 ^ i :: u64)) then 16 * 2 ^ block_index (unat n) else 16 * 2 ^ i) = len"
    using lt [OF bi(1) o(1)] by (auto simp: len_def min_def)
  have ne: "(16 * 2 ^ i :: u64) \<noteq> 16 * 2 ^ block_index (unat n)"
    using lt [OF bi(1) o(1)] lt [OF o(1) bi(1)] n(3) by (metis linorder_neqE_nat word_less_def less_irrefl)
  note old_size = block_size_read [OF o(1,2)]
  have "a + 2 + unat len \<le> 4096" "b + 2 + unat len \<le> 4096" "a < 4094" "b < 4094"
    using copied_le(1) [of i "unat n"] copied_le(2) [of i "unat n", folded j(1)] len a(2) b(2) sz_ge [of i] sz_ge [of j] by linarith+
  then have copy: "memcpy m (p' + 2) (p + 2) len = moved (kmem s) m p' p (copied i (unat n))"
    unfolding a(1) b(1) len [symmetric] using m(4) a(4) disj by (intro memcpy_moved [OF a(3) b(3) rr]) blast+
  have "realloc s (p + 2 + HEAP_START_ADDR) n = map_option (\<lambda>r. rbind r (\<lambda>s. Inr (p' + 2 + HEAP_START_ADDR, s)))
        (free (s\<lparr>kmem := moved (kmem s) m p' p (copied i (unat n))\<rparr>) (p + 2 + HEAP_START_ADDR))"
    using nz o(3) n(1) m(1) old_size ne k copy pick bi(2)
    by (auto simp: realloc_def sizeof_malloc_metadata_t_def Let_def)
  then show ?thesis using m(2-4) by blast
qed

lemma moved_behind_metadata:
  assumes "k + 2 \<le> sz" "sz \<le> 4096" "\<not> unat (a - p) < sz \<or> unat (a - p) < 2"
  shows "moved m0 m p q k a = m a"
proof -
  define e where "e = a - (p + 2)"
  have e: "a - p = e + of_nat 2" by (simp add: e_def)
  show ?thesis
  proof (cases "unat e < k")
    case True
    then have "unat (e + of_nat 2) = unat e + 2" using assms(1,2) by (intro unat_add_of_nat) simp
    then show ?thesis using assms True unfolding e by linarith
  next
    case False
    then show ?thesis by (simp add: moved_def e_def)
  qed
qed

text \<open>When the copied bytes fit behind the metadata of the new buffer, the move keeps the heap well formed.\<close>

lemma realloc_moves:
  fixes s :: "'a heap_state_scheme"
  assumes inv: "heap_inv s H" and old: "heap_block H (kmem s) i p" "H ! i = (c, mx, ss)" "pool_free mx p ss = Some ss'"
    and n: "0 < unat n" "unat n \<le> 510" "block_index (unat n) \<noteq> i" and j: "j = block_index (unat n + 2)" "H ! j = (d, my, tt)" "i \<noteq> j"
    and pop: "pool_alloc tt = Some (p', tt')" and fits: "copied i (unat n) + 2 \<le> 16 * 2 ^ j"
  shows "\<exists>m. realloc s (p + 2 + HEAP_START_ADDR) n = Some (Inr (p' + 2 + HEAP_START_ADDR, s\<lparr>kmem := m\<rparr>))
    \<and> heap_inv (s\<lparr>kmem := m\<rparr>) (H[j := (d, my, tt'), i := (c, mx, ss')])
    \<and> heap_block (H[j := (d, my, tt'), i := (c, mx, ss')]) m j p'
    \<and> (\<forall>x<copied i (unat n). m (p' + 2 + of_nat x) = kmem s (p + 2 + of_nat x))
    \<and> (\<forall>a. unat a div 4096 \<notin> pool_pages (H ! i) \<union> pool_pages (H ! j) \<longrightarrow> m a = kmem s a)"
proof -
  let ?H = "H[j := (d, my, tt')]" and ?k = "copied i (unat n)"
  obtain r where o: "i < 6" "metadata_size (kmem s) p = of_nat i" "p AND 0xFFF \<noteq> 0" "r \<in> fst ` set ss"
    "p \<in> bufs (16 * 2 ^ i) r" "p \<notin> set (free_bufs ss)" using old(1,2) by (rule_tac heap_blockE [OF old(1)]) auto
  have j6: "j < 6" using malloc_small_bounds [OF n(2)] j(1) by simp
  obtain m where m: "heap_inv (s\<lparr>kmem := m\<rparr>) ?H" "metadata_size m p' = of_nat j"
      "\<And>a. unat a div 4096 \<notin> pool_pages (H ! j) \<Longrightarrow> m a = kmem s a"
      "realloc s (p + 2 + HEAP_START_ADDR) n = map_option (\<lambda>r. rbind r (\<lambda>s. Inr (p' + 2 + HEAP_START_ADDR, s)))
        (free (s\<lparr>kmem := moved (kmem s) m p' p ?k\<rparr>) (p + 2 + HEAP_START_ADDR))"
    using realloc_copies [OF inv old(1) n j pop] by blast
  define m2 where "m2 = moved (kmem s) m p' p ?k"
  have len: "length H = 6" using inv by (simp add: heap_inv_def)
  have Hj: "?H ! j = (d, my, tt')" and Hi: "?H ! i = (c, mx, ss)" using j6 len j(3) old(2) by simp_all
  obtain r' b where b: "p' = loc r' b" "b + 16 * 2 ^ j \<le> 4056" "r' < 2 ^ 31" "r' \<in> pool_pages (H ! j)" "r' \<in> fst ` set tt'"
      "p' \<in> bufs (16 * 2 ^ j) r'" "p' \<notin> set (free_bufs tt')" "p' AND 0xFFF \<noteq> 0" "pool_free my p' tt' \<noteq> None"
    by (rule pool_alloc_buf [OF inv j6 j(2) pop])
  have same: "m2 a = m a" if "\<not> unat (a - p') < 16 * 2 ^ j \<or> unat (a - p') < 2" for a
    unfolding m2_def using moved_behind_metadata [OF fits _ that] b(2) by simp
  have inv2: "heap_inv (s\<lparr>kmem := m2\<rparr>) ?H"
    using heap_inv_buffer_write [OF m(1) j6 Hj b(6,5,7), of m2] same by simp
  have page: "m2 a = m a" if "unat a div 4096 \<notin> pool_pages (H ! j)" for a
  proof (rule same, rule disjI1, rule notI)
    assume "unat (a - p') < 16 * 2 ^ j"
    with loc_offset [of a r' b "16 * 2 ^ j"] b have "unat a div 4096 = r'" by simp
    with that b(4) show False by simp
  qed
  have disj: "pool_pages (H ! i) \<inter> pool_pages (H ! j) = {}" using inv o(1) j6 j(3) by (simp add: heap_inv_def)
  obtain a0 where a: "p = loc r a0" "a0 + 16 * 2 ^ i \<le> 4056" "r < 2 ^ 31" "r \<in> pool_pages (H ! i)" by (rule buf_page [OF inv o(1) old(2) o(5,4)])
  have "m2 (p + of_nat x) = kmem s (p + of_nat x)" if "x < 2" for x
  proof -
    have "unat (p + of_nat x) div 4096 = r" unfolding a(1) using that a(2,3) sz_ge [of i] by (intro loc_byte_page [of x 2]) simp_all
    then have "unat (p + of_nat x) div 4096 \<notin> pool_pages (H ! j)" using a(4) disj by blast
    then show ?thesis using m(3) page by simp
  qed
  then have meta: "metadata_size (kmem (s\<lparr>kmem := m2\<rparr>)) p = of_nat i" using metadata_cong [of m2 p "kmem s"] o(2) by simp
  have nz: "p + 2 + HEAP_START_ADDR \<noteq> 0" by (rule heap_pointer_nonzero [OF o(5) sz_ge a(3)])
  obtain m3 where m3: "free (s\<lparr>kmem := m2\<rparr>) (p + 2 + HEAP_START_ADDR) = Some (Inr (s\<lparr>kmem := m2\<rparr>\<lparr>kmem := m3\<rparr>))"
      "heap_inv (s\<lparr>kmem := m2\<rparr>\<lparr>kmem := m3\<rparr>) (?H[i := (c, mx, ss')])"
      "\<And>a. unat a div 4096 \<notin> pool_pages (H ! i) \<Longrightarrow> m3 a = m2 a"
    using free_small [OF inv2 o(1) Hi meta o(5,4,6,3) old(3) nz] old(2) Hi by auto
  have inj: "m3 (p' + of_nat x) = m2 (p' + of_nat x)" if "x < 16 * 2 ^ j" for x
  proof -
    have "unat (p' + of_nat x) div 4096 = r'" unfolding b(1) using b(2) by (intro loc_byte_page [OF that b(3)]) linarith
    then show ?thesis using m3(3) b(4) disj by blast
  qed
  have "metadata_size m3 p' = metadata_size m p'"
  proof (rule metadata_cong)
    fix x :: nat assume x: "x < 2"
    then have "unat (p' + of_nat x - p') < 2" by (simp add: unat_of_nat)
    then show "m3 (p' + of_nat x) = m (p' + of_nat x)" using inj [of x] same x sz_ge [of j] by simp
  qed
  then have "heap_block (?H[i := (c, mx, ss')]) m3 j p'"
    using m(2) j6 Hj j(3) b(5-9) by (auto simp: heap_block_def)
  moreover have "m3 (p' + 2 + of_nat x) = kmem s (p + 2 + of_nat x)" if "x < ?k" for x
  proof -
    have "?k \<le> 4096" using copied_le(1) [of i "unat n"] a(2) by linarith
    then have "unat (p' + 2 + of_nat x - (p' + 2)) = x" using that by (simp add: unat_of_nat)
    then show ?thesis using inj [of "x + 2"] that fits by (simp add: m2_def moved_def add.commute add.left_commute)
  qed
  moreover have "m3 a = kmem s a" if "unat a div 4096 \<notin> pool_pages (H ! i) \<union> pool_pages (H ! j)" for a
    using that m3(3) page m(3) by simp
  ultimately show ?thesis using m(4) m3(1,2) by (intro exI [of _ m3]) (simp add: m2_def)
qed

section \<open>Keeping a block\<close>

lemma realloc_keeps:
  assumes "heap_inv s H" "heap_block H (kmem s) i p" "0 < unat n" "unat n \<le> 510" "block_index (unat n) = i"
  shows "realloc s (p + 2 + HEAP_START_ADDR) n = Some (Inr (p + 2 + HEAP_START_ADDR, s))"
proof -
  obtain c mx ss ss' r where o: "i < 6" "metadata_size (kmem s) p = of_nat i" "p AND 0xFFF \<noteq> 0" "H ! i = (c, mx, ss)" "r \<in> fst ` set ss"
    "p \<in> bufs (16 * 2 ^ i) r" using assms(2) by (rule heap_blockE)
  obtain a where a: "r < 2 ^ 31" by (rule buf_page [OF assms(1) o(1,4,6,5)])
  have nz: "p + 2 + HEAP_START_ADDR \<noteq> 0" by (rule heap_pointer_nonzero [OF o(6) sz_ge a])
  have sz: "slab_cache_index_to_size (ucast (metadata_size (kmem s) p)) = 16 * 2 ^ i"
    using size_to_index_block(3) [OF o(1)] o(1,2) by (simp add: unsigned_of_nat take_bit_nat_eq_self)
  moreover have "0 < (16 * 2 ^ i :: int)" by simp
  then have "slab_cache_index_to_size (ucast (metadata_size (kmem s) p)) \<noteq> - 1" using sz by linarith
  moreover have "round_alloc_size n = 16 * 2 ^ i" using round_alloc_size_small(1) [of n] assms(4,5) by simp
  ultimately show ?thesis using nz o(3) assms(3) by (auto simp: realloc_def sizeof_malloc_metadata_t_def Let_def)
qed

section \<open>Allocating a block\<close>

lemma malloc_block:
  assumes "heap_inv s H" "unat n \<le> 510" "i = block_index (unat n + 2)" "H ! i = (c, mx, ss)" "pool_alloc ss = Some (p, ss')"
  shows "\<exists>m. malloc s n = Some (Inr (p + 2 + HEAP_START_ADDR, s\<lparr>kmem := m\<rparr>)) \<and> heap_inv (s\<lparr>kmem := m\<rparr>) (H[i := (c, mx, ss')])
    \<and> heap_block (H[i := (c, mx, ss')]) m i p \<and> (\<forall>a. unat a div 4096 \<notin> pool_pages (H ! i) \<longrightarrow> m a = kmem s a)"
proof -
  have i6: "i < 6" using malloc_small_bounds [OF assms(2)] assms(3) by simp
  have "length H = 6" using assms(1) by (simp add: heap_inv_def)
  moreover obtain r n where "r \<in> fst ` set ss'" "p \<in> bufs (16 * 2 ^ i) r" "p \<notin> set (free_bufs ss')" "p AND 0xFFF \<noteq> 0" "pool_free mx p ss' \<noteq> None"
    by (rule pool_alloc_buf [OF assms(1) i6 assms(4,5)])
  ultimately have "heap_block (H[i := (c, mx, ss')]) m i p" if "metadata_size m p = of_nat i" for m
    using that i6 by (auto simp: heap_block_def)
  then show ?thesis using malloc_small [OF assms] by blast
qed

lemma block_index_eqI:
  assumes "n \<le> 16 * 2 ^ i" "i = 0 \<or> 16 * 2 ^ (i - 1) < n"
  shows "block_index n = i"
proof (rule antisym)
  show "i \<le> block_index n"
  proof (cases "i = 0")
    case False
    then have "(2 :: nat) ^ (i - 1) < 2 ^ block_index n" using assms(2) block_index_fits [of n] by linarith
    then have "i - 1 < block_index n" by simp
    then show ?thesis by linarith
  qed simp
qed (rule block_index_least [OF assms(1)])

lemma block_index_examples: "block_index 42 = 2" "block_index 162 = 4" "block_index 18 = 1" "block_index 160 = 4" "block_index 16 = 0"
    "block_index 40 = 2" "block_index 8 = 0" "block_index 10 = 0"
  by (rule block_index_eqI; simp)+

section \<open>Properties\<close>

lemma heap_blockD:
  assumes "heap_inv s H" "heap_block H m i p"
  obtains c mx ss ss' r n where "i < 6" "H ! i = (c, mx, ss)" "pool_free mx p ss = Some ss'" "p = loc r n" "n + 16 * 2 ^ i \<le> 4056" "r < 2 ^ 31"
    "r \<in> pool_pages (H ! i)" "r \<in> fst ` set ss" "p \<in> bufs (16 * 2 ^ i) r" "p \<notin> set (free_bufs ss)" "p AND 0xFFF \<noteq> 0" "metadata_size m p = of_nat i"
proof -
  obtain c mx ss ss' r where o: "i < 6" "metadata_size m p = of_nat i" "p AND 0xFFF \<noteq> 0" "H ! i = (c, mx, ss)" "r \<in> fst ` set ss"
    "p \<in> bufs (16 * 2 ^ i) r" "p \<notin> set (free_bufs ss)" "pool_free mx p ss = Some ss'" using assms(2) by (rule heap_blockE)
  moreover obtain n where "p = loc r n" "n + 16 * 2 ^ i \<le> 4056" "r < 2 ^ 31" "r \<in> pool_pages (H ! i)" by (rule buf_page [OF assms(1) o(1,4,6,5)])
  ultimately show thesis using that by blast
qed

text \<open>C36. \<open>realloc\<close> of a block to a size its buffer cannot hold moves it: the new block comes from the cache for
  the new size and starts with the bytes of the old one, the old buffer is free again, and the heap
  stays well formed.\<close>

theorem realloc_grow_keeps_contents:
  assumes "heap_inv s H" and "heap_block H (kmem s) i p" and "16 * 2 ^ i < unat n" and "unat n \<le> 510"
    and "j = block_index (unat n + 2)" and "free_bufs (snd (snd (H ! j))) \<noteq> []"
  shows "\<exists>p' m H'. realloc s (p + 2 + HEAP_START_ADDR) n = Some (Inr (p' + 2 + HEAP_START_ADDR, s\<lparr>kmem := m\<rparr>))
    \<and> heap_inv (s\<lparr>kmem := m\<rparr>) H' \<and> heap_block H' m j p' \<and> unat n + 2 \<le> 16 * 2 ^ j \<and> p \<in> set (free_bufs (snd (snd (H' ! i))))
    \<and> (\<forall>x<16 * 2 ^ i. m (p' + 2 + of_nat x) = kmem s (p + 2 + of_nat x))"
proof -
  obtain c mx ss ss' where o: "i < 6" "H ! i = (c, mx, ss)" "pool_free mx p ss = Some ss'" by (rule heap_blockD [OF assms(1,2)])
  obtain d my tt where t: "H ! j = (d, my, tt)" by (cases "H ! j")
  obtain p' tt' where pop: "pool_alloc tt = Some (p', tt')" using pool_alloc_None_iff [of tt] assms(6) t by fastforce
  have fit: "unat n \<le> 16 * 2 ^ block_index (unat n)" "unat n + 2 \<le> 16 * 2 ^ j" using block_index_fits assms(5) by auto
  have "(2 :: nat) ^ i < 2 ^ block_index (unat n)" "(2 :: nat) ^ i < 2 ^ j" using fit assms(3) by linarith+
  then have lt: "i < block_index (unat n)" "i < j" by simp_all
  have k: "copied i (unat n) = 16 * 2 ^ i" using lt(1) by (simp add: copied_def)
  have fits: "copied i (unat n) + 2 \<le> 16 * 2 ^ j" using k assms(3) fit(2) by linarith
  have len: "length H = 6" using assms(1) by (simp add: heap_inv_def)
  have "p \<in># add_mset p (mset (free_bufs ss))" by simp
  then have "p \<in> set (free_bufs ss')" using pool_free_SomeD [OF o(3)] by (metis set_mset_mset)
  then have "p \<in> set (free_bufs (snd (snd (H[j := (d, my, tt'), i := (c, mx, ss')] ! i))))" using o(1) len by simp
  moreover have "0 < unat n" "block_index (unat n) \<noteq> i" "i \<noteq> j" using assms(3) lt by simp_all
  ultimately show ?thesis
    using realloc_moves [OF assms(1,2) o(2,3) _ assms(4) _ assms(5) t _ pop fits] fit(2) unfolding k by blast
qed

text \<open>A heap with one block of 40 bytes, for the examples.\<close>

lemma example_block:
  "\<exists>s H p c q d u. heap_inv (s :: heap_state) H \<and> heap_block H (kmem s) 2 p
    \<and> H ! 0 = fresh_pool c q 16 \<and> H ! 4 = fresh_pool d u 256"
proof -
  obtain s H where s: "heap_inv (s :: heap_state) H" "\<And>i. i < 6 \<Longrightarrow> \<exists>c q. H ! i = fresh_pool c q (16 * 2 ^ i)"
    using example_heap by meson
  obtain c q where H2: "H ! 2 = fresh_pool c q 64" using s(2) [of 2] by auto
  obtain ss where a: "pool_alloc (snd (snd (fresh_pool c q 64))) = Some (loc q 64, ss)" using fresh_pool_alloc [of 64 c q] by auto
  have i: "2 = block_index (unat (40 :: u64) + 2)" by (simp add: block_index_examples)
  obtain m where "heap_inv (s\<lparr>kmem := m\<rparr>) (H[2 := (c, 4056 div 64 - 1, ss)])" "heap_block (H[2 := (c, 4056 div 64 - 1, ss)]) m 2 (loc q 64)"
    using malloc_block [OF s(1) _ i, of c "4056 div 64 - 1" "snd (snd (fresh_pool c q 64))" "loc q 64" ss] H2 a by (auto simp: fresh_pool_def)
  moreover obtain e f where "H ! 0 = fresh_pool e f 16" using s(2) [of 0] by auto
  moreover obtain d u where "H ! 4 = fresh_pool d u 256" using s(2) [of 4] by auto
  ultimately show ?thesis
    by (intro exI [of _ "s\<lparr>kmem := m\<rparr>"] exI [of _ "H[2 := (c, 4056 div 64 - 1, ss)]"] exI [of _ "loc q 64"] exI) (simp_all)
qed

theorem realloc_grow_keeps_contents_witness:
  "\<exists>s H p p' m H'. heap_inv (s :: heap_state) H \<and> heap_block H (kmem s) 2 p
    \<and> realloc s (p + 2 + HEAP_START_ADDR) 160 = Some (Inr (p' + 2 + HEAP_START_ADDR, s\<lparr>kmem := m\<rparr>))
    \<and> heap_inv (s\<lparr>kmem := m\<rparr>) H' \<and> heap_block H' m 4 p'
    \<and> (\<forall>x<16 * 2 ^ 2. m (p' + 2 + of_nat x) = kmem s (p + 2 + of_nat x))"
proof -
  obtain s H p d u where s: "heap_inv (s :: heap_state) H" "heap_block H (kmem s) 2 p" "H ! 4 = fresh_pool d u 256"
    using example_block by blast
  have a: "16 * 2 ^ 2 < unat (160 :: u64)" "unat (160 :: u64) \<le> 510" "4 = block_index (unat (160 :: u64) + 2)"
    by (simp_all add: block_index_examples)
  have free: "free_bufs (snd (snd (H ! 4))) \<noteq> []" using s(3) by (simp add: fresh_pool_def)
  obtain p' m H' where "realloc s (p + 2 + HEAP_START_ADDR) 160 = Some (Inr (p' + 2 + HEAP_START_ADDR, s\<lparr>kmem := m\<rparr>))"
      "heap_inv (s\<lparr>kmem := m\<rparr>) H'" "heap_block H' m 4 p'" "\<forall>x<16 * 2 ^ 2. m (p' + 2 + of_nat x) = kmem s (p + 2 + of_nat x)"
    using realloc_grow_keeps_contents [OF s(1,2) a free] by (elim exE conjE)
  with s(1,2) show ?thesis by (intro exI conjI)
qed

text \<open>C37. Shrinking copies too much: unless the new size is a power of two or one below it, \<open>realloc\<close>
  to a smaller cache copies as many bytes as the new buffer has, behind the two bytes of metadata, so
  the last two land in the buffer that follows, over its metadata or its free-list link.\<close>

theorem realloc_shrink_overruns:
  assumes "heap_inv s H" and "heap_block H (kmem s) i p" and "0 < unat n" and "unat n \<le> 510"
    and "j = block_index (unat n)" and "j = block_index (unat n + 2)" and "j < i" and "free_bufs (snd (snd (H ! j))) \<noteq> []"
  shows "\<exists>p' m. realloc s (p + 2 + HEAP_START_ADDR) n = Some (Inr (p' + 2 + HEAP_START_ADDR, s\<lparr>kmem := m\<rparr>))
    \<and> p' \<in> set (free_bufs (snd (snd (H ! j))))
    \<and> (\<forall>x<2. m (p' + 16 * 2 ^ j + of_nat x) = kmem s (p + 16 * 2 ^ j + of_nat x))"
proof -
  obtain c mx ss ss' r a where o: "i < 6" "H ! i = (c, mx, ss)" "pool_free mx p ss = Some ss'" "p = loc r a" "a + 16 * 2 ^ i \<le> 4056" "r < 2 ^ 31"
    "r \<in> pool_pages (H ! i)" "r \<in> fst ` set ss" "p \<in> bufs (16 * 2 ^ i) r" "p \<notin> set (free_bufs ss)" "p AND 0xFFF \<noteq> 0" "metadata_size (kmem s) p = of_nat i"
    by (rule heap_blockD [OF assms(1,2)])
  obtain d my tt where t: "H ! j = (d, my, tt)" by (cases "H ! j")
  obtain p' tt' where pop: "pool_alloc tt = Some (p', tt')" using pool_alloc_None_iff [of tt] assms(8) t by fastforce
  have k: "copied i (unat n) = 16 * 2 ^ j" using assms(5,7) by (simp add: copied_def)
  have "block_index (unat n) \<noteq> i" "i \<noteq> j" using assms(5,7) by simp_all
  from realloc_copies [OF assms(1-4) this(1) assms(6) t this(2) pop] obtain m where
    m: "\<And>a. unat a div 4096 \<notin> pool_pages (H ! j) \<Longrightarrow> m a = kmem s a"
      "realloc s (p + 2 + HEAP_START_ADDR) n = map_option (\<lambda>r. rbind r (\<lambda>s. Inr (p' + 2 + HEAP_START_ADDR, s)))
        (free (s\<lparr>kmem := moved (kmem s) m p' p (16 * 2 ^ j)\<rparr>) (p + 2 + HEAP_START_ADDR))" unfolding k by blast
  have j6: "j < 6" using o(1) assms(7) by simp
  obtain r' b where b: "p' = loc r' b" "b + 16 * 2 ^ j \<le> 4056" "r' < 2 ^ 31" "r' \<in> pool_pages (H ! j)" "p' \<in> set (free_bufs tt)"
    by (rule pool_alloc_buf [OF assms(1) j6 t pop])
  have disj: "pool_pages (H ! i) \<inter> pool_pages (H ! j) = {}" using assms(1,7) o(1) j6 by (simp add: heap_inv_def)
  define m2 where "m2 = moved (kmem s) m p' p (16 * 2 ^ j)"
  have room: "b + 2 + 16 * 2 ^ j \<le> 4096" using b(2) by linarith
  have kept: "m2 x = kmem s x" if x: "unat x div 4096 \<in> pool_pages (H ! i)" for x
  proof -
    have "unat x div 4096 \<notin> pool_pages (H ! j)" "unat x div 4096 \<noteq> r'" using x disj b(4) by blast+
    then show ?thesis using m(1) [of x] moved_page [OF b(3) room] unfolding m2_def b(1) by simp
  qed
  have sc: "length (slab_caches (s\<lparr>kmem := m2\<rparr>)) = 6" using assms(1) by (simp add: heap_inv_def)
  have pinv: "pool_inv (kmem (s\<lparr>kmem := m2\<rparr>)) (slab_caches (s\<lparr>kmem := m2\<rparr>) ! i) (16 * 2 ^ i) (c, mx, ss)"
    using pool_inv_at [OF assms(1) o(1,2)] cache_inv_page_cong [of "kmem s" c "16 * 2 ^ i" mx ss m2] kept o(2) by (simp add: pool_inv_def)
  have "m2 (p + of_nat x) = kmem s (p + of_nat x)" if "x < 2" for x
    using loc_byte_page [OF that o(6), of a] o(4,5,7) sz_ge [of i] by (intro kept) simp
  then have meta: "metadata_size (kmem (s\<lparr>kmem := m2\<rparr>)) p = of_nat i" using metadata_cong [of m2 p "kmem s"] o(12) by simp
  have nz: "p + 2 + HEAP_START_ADDR \<noteq> 0" by (rule heap_pointer_nonzero [OF o(9) sz_ge o(6)])
  obtain m3 where m3: "free (s\<lparr>kmem := m2\<rparr>) (p + 2 + HEAP_START_ADDR) = Some (Inr (s\<lparr>kmem := m2\<rparr>\<lparr>kmem := m3\<rparr>))"
      "\<And>x. unat x div 4096 \<notin> pool_pages (H ! i) \<Longrightarrow> m3 x = m2 x"
    using free_pool [OF o(1) sc pinv meta o(9,8,10,11,3) nz] o(2) by auto
  have "m3 (p' + 16 * 2 ^ j + of_nat x) = kmem s (p + 16 * 2 ^ j + of_nat x)" if x: "x < 2" for x
  proof -
    have "unat (p' + of_nat (16 * 2 ^ j + x)) div 4096 = r'"
      unfolding b(1) using x b(2) by (intro loc_byte_page [of _ "16 * 2 ^ j + 2"]) (use b(3) in linarith)+
    then have "m3 (p' + of_nat (16 * 2 ^ j + x)) = m2 (p' + of_nat (16 * 2 ^ j + x))" using m3(2) b(4) disj by blast
    moreover define y where "y = 14 + 16 * (2 ^ j - 1) + x"
    have "1 \<le> (2 :: nat) ^ j" by simp
    then have y: "16 * 2 ^ j + x = y + 2" "y < 16 * 2 ^ j" "y < 4096" using x b(2) unfolding y_def by linarith+
    then have "(of_nat (16 * 2 ^ j + x) :: u64) = of_nat y + 2" "unat (of_nat y :: u64) = y" by (simp_all add: unat_of_nat)
    ultimately show ?thesis using y(2) unfolding m2_def moved_def by (simp add: ac_simps)
  qed
  then show ?thesis using m(2) m3(1) b(5) t by (intro exI [of _ p'] exI [of _ m3]) (simp add: m2_def)
qed

theorem realloc_shrink_overruns_witness:
  "\<exists>s H p p' m. heap_inv (s :: heap_state) H \<and> heap_block H (kmem s) 2 p
    \<and> realloc s (p + 2 + HEAP_START_ADDR) 8 = Some (Inr (p' + 2 + HEAP_START_ADDR, s\<lparr>kmem := m\<rparr>))
    \<and> (\<forall>x<2. m (p' + 16 + of_nat x) = kmem s (p + 16 + of_nat x))"
proof -
  obtain s H p c q where s: "heap_inv (s :: heap_state) H" "heap_block H (kmem s) 2 p" "H ! 0 = fresh_pool c q 16"
    using example_block by blast
  have i: "0 = block_index (unat (8 :: u64))" "0 = block_index (unat (8 :: u64) + 2)" by (simp_all add: block_index_examples)
  have free: "free_bufs (snd (snd (H ! 0))) \<noteq> []" using s(3) by (simp add: fresh_pool_def)
  have "0 < unat (8 :: u64)" "unat (8 :: u64) \<le> 510" "(0 :: nat) < 2" by simp_all
  from realloc_shrink_overruns [OF s(1,2) this(1,2) i this(3) free] s(1,2) show ?thesis
    unfolding power_0 mult_1_right by blast
qed

end
