(* ===== verification/Realloc_Test.thy ===== *)
theory Realloc_Test
  imports Realloc
begin

text \<open>
  The test of \<open>realloc\<close> at the end of \<open>kinit_all\<close> in \<open>kernel.c\<close>, on the heap that \<open>malloc_heap_init\<close>
  builds. The debug lines are left out.
\<close>

section \<open>The test\<close>

text \<open>The test: three blocks of ten integers are resized; -120 is stored at an index and printed.\<close>

definition store_int :: "u64 \<Rightarrow> u64 \<Rightarrow> 'a heap_state_scheme \<Rightarrow> 'a heap_state_scheme" where
  "store_int ptr i s = s\<lparr>kmem := store32 (kmem s) (kaddr (ptr + 4 * i)) (- 120)\<rparr>"

definition realloc_test :: "'a heap_state_scheme \<Rightarrow> 'a heap_state_scheme result option" where
  "realloc_test s =
     obind (malloc s (10 * 4)) (\<lambda>(ptr, s).
     obind (realloc s ptr (40 * 4)) (\<lambda>(ptr, s).
       let s = store_int ptr 100 s in
     obind (malloc s (10 * 4)) (\<lambda>(ptr1, s).
       let s = store_int ptr1 3 s in
     obind (realloc s ptr1 (4 * 4)) (\<lambda>(ptr1, s).
     obind (malloc s (10 * 4)) (\<lambda>(ptr2, s).
       let s = store_int ptr2 3 s in
     obind (realloc s ptr2 (10 * 4)) (\<lambda>(ptr2, s). Some (Inr s)))))))"

section \<open>The heap under the test\<close>

text \<open>A fresh pool with its first buffer taken.\<close>

definition taken_slabs :: "nat \<Rightarrow> nat \<Rightarrow> (nat \<times> u64 list) list" where
  "taken_slabs q sz = [(q, map (\<lambda>k. loc q (k * sz)) [2..<4056 div sz])]"

definition fresh_slabs :: "nat \<Rightarrow> nat \<Rightarrow> (nat \<times> u64 list) list" where
  "fresh_slabs q sz = [(q, loc q sz # map (\<lambda>k. loc q (k * sz)) [2..<4056 div sz])]"

lemma fresh_pool_take:
  assumes "1 < 4056 div sz"
  shows "fresh_pool c q sz = (c, 4056 div sz - 1, fresh_slabs q sz)"
    and "pool_alloc (fresh_slabs q sz) = Some (loc q sz, taken_slabs q sz)"
    and "pool_free (4056 div sz - 1) (loc q sz) (taken_slabs q sz) = Some (fresh_slabs q sz)"
  using assms by (simp_all add: fresh_pool_def taken_slabs_def fresh_slabs_def upt_conv_Cons numeral_2_eq_2)

abbreviation taken_pool :: "nat \<Rightarrow> nat \<Rightarrow> nat \<Rightarrow> pool" where
  "taken_pool c q sz \<equiv> (c, 4056 div sz - 1, taken_slabs q sz)"

lemma test_pool_pages: "pool_pages (fresh_pool c q sz) = {c, q}" "pool_pages (taken_pool c q sz) = {c, q}"
  by (simp_all add: pool_pages_def fresh_pool_def taken_slabs_def)

lemma taken_cache_pages: "cache_inv m c sz mx (taken_slabs q sz') \<Longrightarrow> c < 2 ^ 31 \<and> q < 2 ^ 31 \<and> c \<noteq> q"
  by (simp add: taken_slabs_def cache_inv_def pool_shape_def)

lemma test_malloc:
  assumes "heap_inv s H" "H ! 2 = fresh_pool c q 64"
  shows "\<exists>m. malloc s (10 * 4) = Some (Inr (loc q 64 + 2 + HEAP_START_ADDR, s\<lparr>kmem := m\<rparr>))
    \<and> heap_inv (s\<lparr>kmem := m\<rparr>) (H[2 := taken_pool c q 64]) \<and> heap_block (H[2 := taken_pool c q 64]) m 2 (loc q 64)
    \<and> off_pages {c, q} (kmem s) m"
proof -
  have n: "unat (10 * 4 :: u64) \<le> 510" "2 = block_index (unat (10 * 4 :: u64) + 2)" "1 < 4056 div (64 :: nat)" by (simp_all add: block_index_examples)
  note take = fresh_pool_take(1,2) [OF n(3)]
  from malloc_block [OF assms(1) n(1,2) assms(2) [unfolded take(1)] take(2)] show ?thesis
    unfolding assms(2) off_pages_def test_pool_pages by blast
qed

lemma test_realloc:
  assumes "heap_inv s H" "H ! 2 = taken_pool c q 64" "heap_block H (kmem s) 2 (loc q 64)"
    and "0 < unat n" "unat n \<le> 510" "block_index (unat n) \<noteq> 2" "j = block_index (unat n + 2)" "j \<noteq> 2" "copied 2 (unat n) + 2 \<le> 16 * 2 ^ j"
    and "H ! j = fresh_pool d u (16 * 2 ^ j)" "1 < 4056 div (16 * (2 :: nat) ^ j)"
  shows "\<exists>m. realloc s (loc q 64 + 2 + HEAP_START_ADDR) n = Some (Inr (loc u (16 * 2 ^ j) + 2 + HEAP_START_ADDR, s\<lparr>kmem := m\<rparr>))
    \<and> heap_inv (s\<lparr>kmem := m\<rparr>) (H[j := taken_pool d u (16 * 2 ^ j), 2 := fresh_pool c q 64])
    \<and> off_pages {c, q, d, u} (kmem s) m"
proof -
  have "1 < 4056 div (64 :: nat)" by simp
  note put = fresh_pool_take(1,3) [OF this] and out = fresh_pool_take(1,2) [OF assms(11)]
  have pages: "pool_pages (H ! 2) \<union> pool_pages (H ! j) = {c, q, d, u}" unfolding assms(2,10) test_pool_pages by blast
  from realloc_moves [OF assms(1,3) assms(2) put(2) assms(4-7) assms(10) [unfolded out(1)] assms(8) [symmetric] out(2) assms(9)]
  show ?thesis unfolding put(1) [symmetric] off_pages_def pages by blast
qed

text \<open>The first block has 160 bytes, but the test stores at byte 400: into the free buffer behind it.\<close>

lemma store_int_at:
  assumes "q < 2 ^ 31" "n + 2 + 4 * i < 4096"
  shows "store_int (loc q n + 2 + HEAP_START_ADDR) (of_nat i) s = s\<lparr>kmem := store32 (kmem s) (loc q (n + 2 + 4 * i)) (- 120)\<rparr>"
proof -
  have "loc q n + 2 + HEAP_START_ADDR + 4 * of_nat i = loc q (n + 2 + 4 * i) + HEAP_START_ADDR" by (simp add: loc_def)
  then have "kaddr (loc q n + 2 + HEAP_START_ADDR + 4 * of_nat i) = loc q (n + 2 + 4 * i)" using kaddr_heap [OF assms] by (simp only:)
  then show ?thesis unfolding store_int_def by (simp only:)
qed

lemma store32_page:
  assumes "q < 2 ^ 31" "n + 4 \<le> 4096" "\<not> (unat a div 4096 = q \<and> n \<le> unat a mod 4096 \<and> unat a mod 4096 < n + 4)"
  shows "store32 m (loc q n) v a = m a"
proof -
  have "\<not> unat (a - loc q n) < 4"
  proof
    assume a: "unat (a - loc q n) < 4"
    note loc_offset [OF this assms(1,2)]
    then have "unat a = q * 4096 + (n + unat (a - loc q n))" by simp
    moreover have "n + unat (a - loc q n) < 4096" using a assms(2) by linarith
    ultimately have "unat a div 4096 = q" "unat a mod 4096 = n + unat (a - loc q n)" by simp_all
    with a assms(3) show False by simp
  qed
  then show ?thesis by (simp add: access_defs store_word_def)
qed

lemma test_store_beyond:
  assumes "heap_inv s H" "H ! 4 = taken_pool d u 256"
  shows "\<exists>m. store_int (loc u 256 + 2 + HEAP_START_ADDR) 100 s = s\<lparr>kmem := m\<rparr> \<and> heap_inv (s\<lparr>kmem := m\<rparr>) H \<and> off_pages {u} (kmem s) m"
proof -
  have du: "d < 2 ^ 31" "u < 2 ^ 31" "d \<noteq> u" using pool_inv_at [OF assms(1) _ assms(2)] taken_cache_pages unfolding pool_inv_def by force+
  define m where "m = store32 (kmem s) (loc u 658) (- 120)"
  have s: "store_int (loc u 256 + 2 + HEAP_START_ADDR) 100 s = s\<lparr>kmem := m\<rparr>"
    using store_int_at [OF du(2), of 256 100 s] by (simp add: m_def)
  have page: "m a = kmem s a" if "unat a div 4096 \<noteq> u" for a
    unfolding m_def using that du(2) by (intro store32_page) simp_all
  have "load64 m a = load64 (kmem s) a" if a: "a \<in> footprint d (taken_slabs u 256)" for a
  proof -
    have "a \<in> {loc d 8, loc d 16, loc d 24} \<or> (\<exists>n. a = loc u n \<and> n + 8 \<le> 4096 \<and> (n + 8 \<le> 658 \<or> 662 \<le> n))"
      using a by (auto simp: footprint_def taken_slabs_def)
    then show ?thesis
    proof
      assume "a \<in> {loc d 8, loc d 16, loc d 24}"
      then show ?thesis using du page by (auto intro!: load64_page_cong)
    next
      assume "\<exists>n. a = loc u n \<and> n + 8 \<le> 4096 \<and> (n + 8 \<le> 658 \<or> 662 \<le> n)"
      then obtain n where n: "a = loc u n" "n + 8 \<le> 4096" "n + 8 \<le> 658 \<or> 662 \<le> n" by blast
      show ?thesis unfolding load64_def
      proof (rule load_word_cong)
        fix i :: nat assume i: "i < 8"
        have "a + of_nat i = loc u (n + i)" by (simp add: n(1) loc_def)
        moreover have "unat (loc u (n + i)) = u * 4096 + (n + i)" using n(2) i du(2) by (intro unat_loc) simp_all
        ultimately show "m (a + of_nat i) = kmem s (a + of_nat i)"
          unfolding m_def using n(2,3) i du(2) by (intro store32_page) auto
      qed
    qed
  qed
  then have "heap_inv (s\<lparr>kmem := m\<rparr>) H" using page by (intro heap_inv_write [OF assms(1) _ assms(2)]) (auto simp: assms(2) pool_pages_def taken_slabs_def)
  with s page show ?thesis by (auto simp: off_pages_def)
qed

lemma test_store_inside:
  assumes "heap_inv s H" "H ! 2 = taken_pool c q 64" "heap_block H (kmem s) 2 (loc q 64)"
  shows "\<exists>m. store_int (loc q 64 + 2 + HEAP_START_ADDR) 3 s = s\<lparr>kmem := m\<rparr> \<and> heap_inv (s\<lparr>kmem := m\<rparr>) H
    \<and> heap_block H m 2 (loc q 64) \<and> off_pages {q} (kmem s) m"
proof -
  obtain r where r: "r \<in> fst ` set (taken_slabs q 64)" "loc q 64 \<in> bufs (16 * 2 ^ 2) r" "loc q 64 \<notin> set (free_bufs (taken_slabs q 64))"
    using assms(3) unfolding heap_block_def assms(2) prod.case by blast
  have q: "q < 2 ^ 31" using pool_inv_at [OF assms(1) _ assms(2)] taken_cache_pages unfolding pool_inv_def by force
  define m where "m = store32 (kmem s) (loc q 78) (- 120)"
  have s: "store_int (loc q 64 + 2 + HEAP_START_ADDR) 3 s = s\<lparr>kmem := m\<rparr>"
    using store_int_at [OF q, of 64 3 s] by (simp add: m_def)
  have off: "off_pages {q} (kmem s) m" unfolding off_pages_def m_def using q by (intro allI impI store32_page) simp_all
  have same: "m a = kmem s a" if "\<not> unat (a - loc q 64) < 16 * 2 ^ 2" for a
    unfolding m_def
  proof (rule store32_page [OF q])
    show "\<not> (unat a div 4096 = q \<and> 78 \<le> unat a mod 4096 \<and> unat a mod 4096 < 78 + 4)"
    proof
      assume a: "unat a div 4096 = q \<and> 78 \<le> unat a mod 4096 \<and> unat a mod 4096 < 78 + 4"
      then have "q * 4096 + unat a mod 4096 = unat a" using div_mult_mod_eq [of "unat a" 4096] by simp
      then have "loc q (unat a mod 4096) = of_nat (unat a)" unfolding loc_def by (simp only:)
      then have "a = loc q (unat a mod 4096)" by simp
      moreover obtain k where k: "unat a mod 4096 = 64 + k" using a le_iff_add [of 64 "unat a mod 4096"] by auto
      ultimately have "a = loc q 64 + of_nat k" by (simp add: loc_def)
      then have "unat (a - loc q 64) = k" using a k by (intro word_diff_eq_of_nat [THEN iffD1]) simp_all
      with that a k show False by simp
    qed
  qed simp
  have "heap_inv (s\<lparr>kmem := m\<rparr>) H" using same by (intro heap_inv_buffer_write [OF assms(1) _ assms(2) r(2,1,3)]) simp_all
  moreover have "metadata_size m (loc q 64) = metadata_size (kmem s) (loc q 64)"
  proof (rule metadata_cong)
    fix x :: nat assume x: "x < 2"
    have "loc q 64 + of_nat x = loc q (64 + x)" by (simp add: loc_def)
    moreover have "unat (loc q (64 + x)) = q * 4096 + (64 + x)" using x q by (intro unat_loc) simp_all
    ultimately show "m (loc q 64 + of_nat x) = kmem s (loc q 64 + of_nat x)"
      unfolding m_def using x q by (intro store32_page) simp_all
  qed
  then have "heap_block H m 2 (loc q 64)" using assms(3) by (simp add: heap_block_def)
  ultimately show ?thesis using s off by blast
qed

text \<open>The three parts of the test, each from a heap whose cache of 64-byte buffers is fresh.\<close>

lemma taken_back:
  assumes "heap_inv s H" "H ! 2 = fresh_pool c q 64" "j \<noteq> 2"
  shows "H[2 := x, j := y, 2 := fresh_pool c q 64] = H[j := y]" "H[2 := x] ! 2 = x" "H[2 := x] ! j = H ! j"
proof -
  show "H[2 := x, j := y, 2 := fresh_pool c q 64] = H[j := y]"
    using assms(2,3) by (metis list_update_id list_update_overwrite list_update_swap)
qed (use assms in \<open>simp_all add: heap_inv_def\<close>)

lemma test_first:
  assumes inv: "heap_inv s H" and H: "H ! 2 = fresh_pool c q 64" "H ! 4 = fresh_pool d u (16 * 2 ^ 4)"
  shows "\<exists>p m1 p' m2 m3. malloc s (10 * 4) = Some (Inr (p, s\<lparr>kmem := m1\<rparr>)) \<and> realloc (s\<lparr>kmem := m1\<rparr>) p (40 * 4) = Some (Inr (p', s\<lparr>kmem := m2\<rparr>))
    \<and> store_int p' 100 (s\<lparr>kmem := m2\<rparr>) = s\<lparr>kmem := m3\<rparr> \<and> heap_inv (s\<lparr>kmem := m3\<rparr>) (H[4 := taken_pool d u (16 * 2 ^ 4)])
    \<and> off_pages {c, q, d, u} (kmem s) m3"
proof -
  let ?T = "taken_pool c q 64" and ?p = "loc q 64 + 2 + HEAP_START_ADDR" and ?G = "H[4 := taken_pool d u (16 * 2 ^ 4)]"
  have n: "0 < unat (40 * 4 :: u64)" "unat (40 * 4 :: u64) \<le> 510" "block_index (unat (40 * 4 :: u64)) \<noteq> 2" "4 = block_index (unat (40 * 4 :: u64) + 2)"
      "(4 :: nat) \<noteq> 2" "copied 2 (unat (40 * 4 :: u64)) + 2 \<le> 16 * 2 ^ 4" "1 < 4056 div (16 * (2 :: nat) ^ 4)"
    by (simp_all add: block_index_examples copied_def)
  note at = taken_back [OF inv H(1) n(5)]
  obtain m1 where m1: "malloc s (10 * 4) = Some (Inr (?p, s\<lparr>kmem := m1\<rparr>))"
      "heap_inv (s\<lparr>kmem := m1\<rparr>) (H[2 := ?T])" "heap_block (H[2 := ?T]) (kmem (s\<lparr>kmem := m1\<rparr>)) 2 (loc q 64)" "off_pages {c, q} (kmem s) m1"
    using test_malloc [OF inv H(1)] by auto
  obtain m2 where m2: "realloc (s\<lparr>kmem := m1\<rparr>) ?p (40 * 4) = Some (Inr (loc u (16 * 2 ^ 4) + 2 + HEAP_START_ADDR, s\<lparr>kmem := m2\<rparr>))"
      "heap_inv (s\<lparr>kmem := m2\<rparr>) ?G" "off_pages {c, q, d, u} m1 m2"
    using test_realloc [OF m1(2) at(2) m1(3) n(1-6) _ n(7)] unfolding at(1,3) using H(2) by auto
  have "?G ! 4 = taken_pool d u 256" using inv by (simp add: heap_inv_def)
  from test_store_beyond [OF m2(2) this] obtain m3 where
    m3: "store_int (loc u (16 * 2 ^ 4) + 2 + HEAP_START_ADDR) 100 (s\<lparr>kmem := m2\<rparr>) = s\<lparr>kmem := m3\<rparr>" "heap_inv (s\<lparr>kmem := m3\<rparr>) ?G" "off_pages {u} m2 m3"
    by auto
  have "off_pages {c, q, d, u} (kmem s) m3" using m1(4) m2(3) m3(3) by (auto simp: off_pages_def)
  with m1(1) m2(1) m3(1,2) show ?thesis by blast
qed

lemma test_fill:
  assumes inv: "heap_inv s H" and H: "H ! 2 = fresh_pool c q 64"
  shows "\<exists>m1 m2. malloc s (10 * 4) = Some (Inr (loc q 64 + 2 + HEAP_START_ADDR, s\<lparr>kmem := m1\<rparr>))
    \<and> store_int (loc q 64 + 2 + HEAP_START_ADDR) 3 (s\<lparr>kmem := m1\<rparr>) = s\<lparr>kmem := m2\<rparr> \<and> heap_inv (s\<lparr>kmem := m2\<rparr>) (H[2 := taken_pool c q 64])
    \<and> heap_block (H[2 := taken_pool c q 64]) m2 2 (loc q 64) \<and> off_pages {c, q} (kmem s) m2"
proof -
  let ?T = "taken_pool c q 64" and ?p = "loc q 64 + 2 + HEAP_START_ADDR"
  obtain m1 where m1: "malloc s (10 * 4) = Some (Inr (?p, s\<lparr>kmem := m1\<rparr>))"
      "heap_inv (s\<lparr>kmem := m1\<rparr>) (H[2 := ?T])" "heap_block (H[2 := ?T]) (kmem (s\<lparr>kmem := m1\<rparr>)) 2 (loc q 64)" "off_pages {c, q} (kmem s) m1"
    using test_malloc [OF inv H] by auto
  have "H[2 := ?T] ! 2 = ?T" using inv by (simp add: heap_inv_def)
  from test_store_inside [OF m1(2) this m1(3)] obtain m2 where
    "store_int ?p 3 (s\<lparr>kmem := m1\<rparr>) = s\<lparr>kmem := m2\<rparr>" "heap_inv (s\<lparr>kmem := m2\<rparr>) (H[2 := ?T])"
      "heap_block (H[2 := ?T]) m2 2 (loc q 64)" "off_pages {q} m1 m2" by auto
  moreover from this(4) m1(4) have "off_pages {c, q} (kmem s) m2" by (auto simp: off_pages_def)
  ultimately show ?thesis using m1(1) by blast
qed

lemma test_second:
  assumes inv: "heap_inv s H" and H: "H ! 2 = fresh_pool c q 64" "H ! 1 = fresh_pool e v (16 * 2 ^ 1)"
  shows "\<exists>p m1 m2 p' m3. malloc s (10 * 4) = Some (Inr (p, s\<lparr>kmem := m1\<rparr>)) \<and> store_int p 3 (s\<lparr>kmem := m1\<rparr>) = s\<lparr>kmem := m2\<rparr>
    \<and> realloc (s\<lparr>kmem := m2\<rparr>) p (4 * 4) = Some (Inr (p', s\<lparr>kmem := m3\<rparr>))
    \<and> heap_inv (s\<lparr>kmem := m3\<rparr>) (H[1 := taken_pool e v (16 * 2 ^ 1)]) \<and> off_pages {c, q, e, v} (kmem s) m3"
proof -
  let ?T = "taken_pool c q 64" and ?p = "loc q 64 + 2 + HEAP_START_ADDR"
  have n: "0 < unat (4 * 4 :: u64)" "unat (4 * 4 :: u64) \<le> 510" "block_index (unat (4 * 4 :: u64)) \<noteq> 2" "1 = block_index (unat (4 * 4 :: u64) + 2)"
      "(1 :: nat) \<noteq> 2" "copied 2 (unat (4 * 4 :: u64)) + 2 \<le> 16 * 2 ^ 1" "1 < 4056 div (16 * (2 :: nat) ^ 1)"
    by (simp_all add: block_index_examples copied_def)
  note at = taken_back [OF inv H(1) n(5)]
  obtain m1 m2 where m2: "malloc s (10 * 4) = Some (Inr (?p, s\<lparr>kmem := m1\<rparr>))" "store_int ?p 3 (s\<lparr>kmem := m1\<rparr>) = s\<lparr>kmem := m2\<rparr>"
      "heap_inv (s\<lparr>kmem := m2\<rparr>) (H[2 := ?T])" "heap_block (H[2 := ?T]) (kmem (s\<lparr>kmem := m2\<rparr>)) 2 (loc q 64)" "off_pages {c, q} (kmem s) m2"
    using test_fill [OF inv H(1)] by auto
  obtain m3 where m3: "realloc (s\<lparr>kmem := m2\<rparr>) ?p (4 * 4) = Some (Inr (loc v (16 * 2 ^ 1) + 2 + HEAP_START_ADDR, s\<lparr>kmem := m3\<rparr>))"
      "heap_inv (s\<lparr>kmem := m3\<rparr>) (H[1 := taken_pool e v (16 * 2 ^ 1)])" "off_pages {c, q, e, v} m2 m3"
    using test_realloc [OF m2(3) at(2) m2(4) n(1-6) _ n(7)] unfolding at(1,3) using H(2) by auto
  have "off_pages {c, q, e, v} (kmem s) m3" using m2(5) m3(3) by (auto simp: off_pages_def)
  with m2(1,2) m3(1,2) show ?thesis by blast
qed

lemma realloc_test_ok:
  fixes s :: "'a heap_state_scheme"
  assumes inv: "heap_inv s H" and fresh: "\<And>i. i < 6 \<Longrightarrow> \<exists>c q. H ! i = fresh_pool c q (16 * 2 ^ i) \<and> {c, q} \<subseteq> X"
  shows "\<exists>m H'. realloc_test s = Some (Inr (s\<lparr>kmem := m\<rparr>)) \<and> heap_inv (s\<lparr>kmem := m\<rparr>) H' \<and> off_pages X (kmem s) m"
proof -
  have len: "length H = 6" using inv by (simp add: heap_inv_def)
  obtain c q where H2: "H ! 2 = fresh_pool c q 64" "{c, q} \<subseteq> X" using fresh [of 2] by auto
  obtain d u where H4: "H ! 4 = fresh_pool d u (16 * 2 ^ 4)" "{d, u} \<subseteq> X" using fresh [of 4] by auto
  obtain e v where H1: "H ! 1 = fresh_pool e v (16 * 2 ^ 1)" "{e, v} \<subseteq> X" using fresh [of 1] by auto
  let ?G = "H[4 := taken_pool d u (16 * 2 ^ 4)]" and ?p = "loc q 64 + 2 + HEAP_START_ADDR"
  let ?K = "?G[1 := taken_pool e v (16 * 2 ^ 1)]"
  have G: "?G ! 2 = fresh_pool c q 64" "?G ! 1 = fresh_pool e v (16 * 2 ^ 1)" "?K ! 2 = fresh_pool c q 64" using H1(1) H2(1) len by simp_all
  obtain p m1 p' m2 m3 where m3: "malloc s (10 * 4) = Some (Inr (p, s\<lparr>kmem := m1\<rparr>))" "realloc (s\<lparr>kmem := m1\<rparr>) p (40 * 4) = Some (Inr (p', s\<lparr>kmem := m2\<rparr>))"
      "store_int p' 100 (s\<lparr>kmem := m2\<rparr>) = s\<lparr>kmem := m3\<rparr>" "heap_inv (s\<lparr>kmem := m3\<rparr>) ?G" "off_pages {c, q, d, u} (kmem s) m3"
    using test_first [OF inv H2(1) H4(1)] by blast
  obtain p1 m4 m5 p1' m6 where m6: "malloc (s\<lparr>kmem := m3\<rparr>) (10 * 4) = Some (Inr (p1, s\<lparr>kmem := m4\<rparr>))"
      "store_int p1 3 (s\<lparr>kmem := m4\<rparr>) = s\<lparr>kmem := m5\<rparr>" "realloc (s\<lparr>kmem := m5\<rparr>) p1 (4 * 4) = Some (Inr (p1', s\<lparr>kmem := m6\<rparr>))"
      "heap_inv (s\<lparr>kmem := m6\<rparr>) ?K" "off_pages {c, q, e, v} m3 m6"
    using test_second [OF m3(4) G(1,2)] by auto
  obtain m7 m8 where m8: "malloc (s\<lparr>kmem := m6\<rparr>) (10 * 4) = Some (Inr (?p, s\<lparr>kmem := m7\<rparr>))" "store_int ?p 3 (s\<lparr>kmem := m7\<rparr>) = s\<lparr>kmem := m8\<rparr>"
      "heap_inv (s\<lparr>kmem := m8\<rparr>) (?K[2 := taken_pool c q 64])" "heap_block (?K[2 := taken_pool c q 64]) (kmem (s\<lparr>kmem := m8\<rparr>)) 2 (loc q 64)" "off_pages {c, q} m6 m8"
    using test_fill [OF m6(4) G(3)] by auto
  have n: "0 < unat (10 * 4 :: u64)" "unat (10 * 4 :: u64) \<le> 510" "block_index (unat (10 * 4 :: u64)) = 2" by (simp_all add: block_index_examples)
  note last = realloc_keeps [OF m8(3,4) n]
  have "realloc_test s = Some (Inr (s\<lparr>kmem := m8\<rparr>))" using m3 m6 m8 last by (simp add: realloc_test_def Let_def)
  moreover have "off_pages X (kmem s) m3" "off_pages X m3 m6" "off_pages X m6 m8"
    using H1(2) H2(2) H4(2) by (auto intro: off_pages_mono [OF m3(5)] off_pages_mono [OF m6(5)] off_pages_mono [OF m8(5)])
  then have "off_pages X (kmem s) m8" by (metis off_pages_trans)
  ultimately show ?thesis using m8(3) by blast
qed

end
