(* ===== verification/Kernel_Boot.thy ===== *)
theory Kernel_Boot
  imports Boot_Protocol Descriptor_Tables Realloc_Test
begin

text \<open>
  \<open>kernel.c\<close>: \<open>kinit_all\<close> runs the initialisations of the components one after the other on the memory
  the bootloader leaves, and then an ad hoc test of \<open>realloc\<close>. The log and debug lines are left out.
\<close>

section \<open>The memory map in memory\<close>

text \<open>
  \<open>pmm_init\<close> takes the memory map out of its tag and shrinks the entry that hosts the bitmap in
  place: base and length of the entries are written back.
\<close>

definition memmap_slot :: "u64 \<Rightarrow> nat \<Rightarrow> u64" where "memmap_slot t i = t + 24 + 24 * of_nat i"

definition memmap_entry_store :: "u64 \<Rightarrow> nat \<times> stivale2_mmap_entry \<Rightarrow> memory \<Rightarrow> memory" where
  "memmap_entry_store t = (\<lambda>(i, e) m.
     store64 (store64 m (kaddr (memmap_slot t i)) (mmap_base e)) (kaddr (memmap_slot t i + 8)) (mmap_length e))"

definition memmap_tag_store :: "u64 \<Rightarrow> stivale2_mmap_entry list \<Rightarrow> memory \<Rightarrow> memory" where
  "memmap_tag_store t es m = fold (memmap_entry_store t) (enumerate 0 es) m"

definition pmm_init_boot :: "u64 \<Rightarrow> 'a pmm_state_scheme \<Rightarrow> 'a pmm_state_scheme result option" where
  "pmm_init_boot stivale2_struct s =
     (case stivale2_get_tag (kmem s) stivale2_struct STIVALE2_STRUCT_TAG_MEMMAP_ID of
        None \<Rightarrow> None
      | Some tag \<Rightarrow> Some (rbind (pmm_init s (memmap_tag_map (kmem s) tag)) (\<lambda>(s, memory_map).
          Inr (s\<lparr>kmem := memmap_tag_store tag memory_map (kmem s)\<rparr>))))"

definition vmm_init_boot :: "u64 \<Rightarrow> 'a vmm_state_scheme \<Rightarrow> 'a vmm_state_scheme result option" where
  "vmm_init_boot stivale2_struct s =
     (case stivale2_get_tag (kmem s) stivale2_struct STIVALE2_STRUCT_TAG_MEMMAP_ID of
        None \<Rightarrow> None
      | Some tag \<Rightarrow> Some (vmm_init s (memmap_tag_map (kmem s) tag)))"

section \<open>Kernel initialisation\<close>

text \<open>
  The linker and the hardware supply the addresses of the two tables, of the interrupt stubs and
  of the cache names, and the device behind the ports.
\<close>

record image =
  image_gdt :: u64
  image_idt :: u64
  image_isr_vector :: "nat \<Rightarrow> u64"
  image_cache_names :: "nat \<Rightarrow> u64"

record kernel_state =
  ksys :: heap_state
  ktables :: tables_state

definition kinit_parts :: "io_device \<Rightarrow> image \<Rightarrow> u64 \<Rightarrow> kernel_state \<Rightarrow> kernel_state result option" where
  "kinit_parts dev img stivale2_struct k =
     (case stivale2_get_tag (kmem (ksys k)) stivale2_struct STIVALE2_STRUCT_TAG_HHDM_ID of
        None \<Rightarrow> None
      | Some hhdm \<Rightarrow>
          obind (Some (assert_impl (hhdm_tag_addr (kmem (ksys k)) hhdm = HIGHER_HALF_DATA) ''hhdm->addr == HIGHER_HALF_DATA'')) (\<lambda>_.
          obind (pmm_init_boot stivale2_struct (ksys k)) (\<lambda>s.
          obind (vmm_init_boot stivale2_struct s) (\<lambda>s.
            let tables = gdt_init (image_gdt img) (ktables k);
                tables = idt_init dev (image_isr_vector img) (image_idt img) tables
            in obind (Some (malloc_heap_init (image_cache_names img) s)) (\<lambda>s.
                 Some (Inr \<lparr>ksys = s, ktables = tables\<rparr>))))))"

definition kinit_all :: "io_device \<Rightarrow> image \<Rightarrow> u64 \<Rightarrow> kernel_state \<Rightarrow> kernel_state result option" where
  "kinit_all dev img stivale2_struct k =
     obind (kinit_parts dev img stivale2_struct k) (\<lambda>k.
       obind (realloc_test (ksys k)) (\<lambda>s. Some (Inr (k\<lparr>ksys := s\<rparr>))))"

section \<open>The memory map written back\<close>

text \<open>The tag lies in one piece behind its address.\<close>

definition memmap_in_place :: "u64 \<Rightarrow> nat \<Rightarrow> bool" where
  "memmap_in_place t n \<longleftrightarrow> unat (kaddr t) + 24 + 24 * n < 2 ^ 64 \<and> (\<forall>x \<le> 24 + 24 * n. kaddr (t + of_nat x) = kaddr t + of_nat x)"

abbreviation slot_at :: "u64 \<Rightarrow> nat \<Rightarrow> u64" where "slot_at t i \<equiv> kaddr t + of_nat (24 + 24 * i)"

lemma memmap_slot_addr:
  assumes "memmap_in_place t n" "i < n" "d \<le> 24"
  shows "kaddr (memmap_slot t i + of_nat d) = slot_at t i + of_nat d" "unat (slot_at t i + of_nat d) = unat (kaddr t) + 24 + 24 * i + d"
proof -
  have le: "24 + 24 * i + d \<le> 24 + 24 * n" using assms(2,3) by linarith
  have "kaddr (t + of_nat (24 + 24 * i + d)) = kaddr t + of_nat (24 + 24 * i + d)"
    using assms(1) le unfolding memmap_in_place_def by blast
  moreover have "memmap_slot t i + of_nat d = t + of_nat (24 + 24 * i + d)" by (simp add: memmap_slot_def)
  moreover have "slot_at t i + of_nat d = kaddr t + of_nat (24 + 24 * i + d)" by (simp add: add.assoc)
  ultimately show "kaddr (memmap_slot t i + of_nat d) = slot_at t i + of_nat d" by metis
  have "unat (kaddr t) + (24 + 24 * i + d) < 2 ^ 64" using assms(1) le by (simp add: memmap_in_place_def)
  then have "unat (kaddr t + of_nat (24 + 24 * i + d)) = unat (kaddr t) + (24 + 24 * i + d)" by (intro unat_add_of_nat) simp
  with \<open>slot_at t i + of_nat d = kaddr t + of_nat (24 + 24 * i + d)\<close>
  show "unat (slot_at t i + of_nat d) = unat (kaddr t) + 24 + 24 * i + d" by (simp add: add.assoc)
qed

lemma memmap_entry_store_eq:
  assumes "memmap_in_place t n" "i < n"
  shows "memmap_entry_store t (i, e) m = store64 (store64 m (slot_at t i) (mmap_base e)) (slot_at t i + 8) (mmap_length e)"
  using memmap_slot_addr(1) [OF assms, of 0] memmap_slot_addr(1) [OF assms, of 8] by (simp add: memmap_entry_store_def)

lemma slot_parts:
  assumes "memmap_in_place t n" "i < n" "separate b w (slot_at t i) 16"
  shows "separate b w (slot_at t i) 8" "separate b w (slot_at t i + 8) 8"
  using assms(3) memmap_slot_addr(2) [OF assms(1,2), of 0] memmap_slot_addr(2) [OF assms(1,2), of 8]
  by (auto simp: separate_def)

lemma memmap_store_frame:
  assumes "memmap_in_place t n" "k + length es \<le> n" "\<forall>i. k \<le> i \<longrightarrow> i < k + length es \<longrightarrow> separate b w (slot_at t i) 16"
  shows "load_word w (fold (memmap_entry_store t) (enumerate k es) m) b = (load_word w m b :: 'c::len word)"
  using assms(2,3)
proof (induction es arbitrary: k m)
  case (Cons e es)
  have k: "k < n" "separate b w (slot_at t k) 16" using Cons.prems by auto
  note sep = slot_parts [OF assms(1) k]
  have "load_word w (memmap_entry_store t (k, e) m) b = (load_word w m b :: 'c word)"
    unfolding memmap_entry_store_eq [OF assms(1) k(1)] store64_def using sep by (simp add: load_store_separate)
  moreover have "load_word w (fold (memmap_entry_store t) (enumerate (Suc k) es) (memmap_entry_store t (k, e) m)) b
      = (load_word w (memmap_entry_store t (k, e) m) b :: 'c word)"
    using Cons.prems by (intro Cons.IH) auto
  ultimately show ?case by simp
qed simp

lemma slots_separate:
  assumes "memmap_in_place t n" "i < n" "j < n" "i \<noteq> j"
  shows "separate (slot_at t i) 24 (slot_at t j) 24"
proof -
  have "unat (slot_at t i) = unat (kaddr t) + 24 + 24 * i" "unat (slot_at t j) = unat (kaddr t) + 24 + 24 * j"
    using memmap_slot_addr(2) [OF assms(1,2), of 0] memmap_slot_addr(2) [OF assms(1,3), of 0] by simp_all
  moreover have "unat (kaddr t) + 24 + 24 * n < 2 ^ 64" using assms(1) by (simp add: memmap_in_place_def)
  moreover have "24 * i + 24 \<le> 24 * j \<or> 24 * j + 24 \<le> 24 * i" using assms(4) by linarith
  moreover have "24 * i + 24 \<le> 24 * n" "24 * j + 24 \<le> 24 * n" using assms(2,3) by linarith+
  ultimately show ?thesis unfolding separate_def by linarith
qed

lemma memmap_store_slot:
  fixes m :: memory
  assumes "memmap_in_place t n" "k + length es \<le> n" "k \<le> i" "i < k + length es"
  defines "m' \<equiv> fold (memmap_entry_store t) (enumerate k es) m"
  shows "load64 m' (slot_at t i) = mmap_base (es ! (i - k)) \<and> load64 m' (slot_at t i + 8) = mmap_length (es ! (i - k))"
  unfolding m'_def using assms(2-4)
proof (induction es arbitrary: k m)
  case (Cons e es)
  let ?m = "memmap_entry_store t (k, e) m"
  have k: "k < n" using Cons.prems by simp
  show ?case
  proof (cases "i = k")
    case False
    then show ?thesis using Cons.IH [of "Suc k" ?m] Cons.prems by (simp add: nth_Cons')
  next
    case True
    note at = memmap_slot_addr(2) [OF assms(1) k, of 0] memmap_slot_addr(2) [OF assms(1) k, of 8]
    have room: "unat (kaddr t) + 24 + 24 * n < 2 ^ 64" "24 * k + 24 \<le> 24 * n" using assms(1) k by (simp_all add: memmap_in_place_def)
    have later: "separate (slot_at t k) 8 (slot_at t j) 16" "separate (slot_at t k + 8) 8 (slot_at t j) 16"
      if "Suc k \<le> j" "j < Suc k + length es" for j
      using slots_separate [OF assms(1) k, of j] that Cons.prems(1) at by (auto simp: separate_def)
    have "separate (slot_at t k) 8 (slot_at t k + 8) 8" using at room by (auto simp: separate_def)
    then have "load64 ?m (slot_at t k) = mmap_base e" "load64 ?m (slot_at t k + 8) = mmap_length e"
      unfolding memmap_entry_store_eq [OF assms(1) k] by (simp_all add: load64_store64_separate)
    moreover have "load_word 8 (fold (memmap_entry_store t) (enumerate (Suc k) es) ?m) b = (load_word 8 ?m b :: u64)"
      if "b = slot_at t k \<or> b = slot_at t k + 8" for b
      using that later Cons.prems(1) by (intro memmap_store_frame [OF assms(1)]) auto
    ultimately show ?thesis using True by (simp add: load64_def)
  qed
qed simp

section \<open>The tags survive\<close>

text \<open>The fields that the search for a tag reads lie outside the entries of the memory map.\<close>

definition tags_clear :: "memory \<Rightarrow> u64 \<Rightarrow> u64 \<Rightarrow> nat \<Rightarrow> u64 list \<Rightarrow> bool" where
  "tags_clear m p tm n ts \<longleftrightarrow> memmap_in_place tm n \<and>
     (\<forall>a\<in>insert (p + 128) (\<Union>t\<in>set ts. {t, t + 8}). separate (kaddr a) 8 (kaddr tm + 24) (24 * n))"

lemma slot_in_region:
  assumes "memmap_in_place t n" "separate b w (kaddr t + 24) (24 * n)" "i < n" "w' \<le> w"
  shows "separate b w' (slot_at t i) 24"
proof -
  have "0 < n" using assms(3) by simp
  have "unat (kaddr t + 24) = unat (kaddr t) + 24" "unat (slot_at t i) = unat (kaddr t) + 24 + 24 * i"
    using memmap_slot_addr(2) [OF assms(1) \<open>0 < n\<close>, of 0] memmap_slot_addr(2) [OF assms(1,3), of 0] by simp_all
  moreover have "24 * i + 24 \<le> 24 * n" using assms(3) by linarith
  moreover have "unat (kaddr t) + 24 + 24 * n < 2 ^ 64" using assms(1) by (simp add: memmap_in_place_def)
  ultimately show ?thesis using assms(2,4) unfolding separate_def by linarith
qed

lemma kload64_kept:
  assumes "memmap_in_place tm n" "length es \<le> n" "separate (kaddr a) 8 (kaddr tm + 24) (24 * n)"
  shows "kload64 (memmap_tag_store tm es m) a = kload64 m a"
proof -
  have "separate (kaddr a) 8 (slot_at tm i) 16" if "i < n" for i
    using slot_in_region [OF assms(1,3) that, of 8] by (auto simp: separate_def)
  then show ?thesis
    using memmap_store_frame [OF assms(1), of 0 es "kaddr a" 8 m, where 'c = 64] assms(2)
    by (simp add: kload64_def load64_def memmap_tag_store_def)
qed

lemma tags_kept:
  assumes "tags_clear m p tm n ts" "length es \<le> n"
  defines "m' \<equiv> memmap_tag_store tm es m"
  shows "stivale2_struct_tags m' p = stivale2_struct_tags m p"
    and "t \<in> set ts \<Longrightarrow> tag_identifier m' t = tag_identifier m t" "t \<in> set ts \<Longrightarrow> tag_next m' t = tag_next m t"
  using assms(1) kload64_kept [OF _ assms(2)]
  by (auto simp: tags_clear_def m'_def stivale2_struct_tags_def tag_identifier_def tag_next_def)

lemma tag_list_cong: "(\<And>t. t \<in> set ts \<Longrightarrow> tag_next m' t = tag_next m t) \<Longrightarrow> tag_list m' q ts = tag_list m q ts"
  by (induction ts arbitrary: q) auto

lemma get_tag_kept:
  assumes "tags_clear m p tm n ts" "length es \<le> n" "tag_list m (stivale2_struct_tags m p) ts"
  shows "stivale2_get_tag (memmap_tag_store tm es m) p i = stivale2_get_tag m p i"
proof -
  let ?m = "memmap_tag_store tm es m"
  note kept = tags_kept [OF assms(1,2)]
  have "tag_list ?m (stivale2_struct_tags ?m p) ts" using assms(3) kept(1,3) tag_list_cong [of ts ?m m] by simp
  moreover have "find (\<lambda>t. tag_identifier ?m t = i) ts = find (\<lambda>t. tag_identifier m t = i) ts"
    using kept(2) by (intro find_cong) auto
  ultimately show ?thesis using get_tag_loop_finds assms(3) by (simp add: stivale2_get_tag_def)
qed

lemma memmap_written_entry:
  assumes "memmap_in_place tm n" "length es = n" "i < n"
  shows "memmap_tag_entry (memmap_tag_store tm es m) tm (of_nat i) = (es ! i)\<lparr>mmap_type := mmap_type (memmap_tag_entry m tm (of_nat i))\<rparr>"
proof -
  let ?m = "memmap_tag_store tm es m"
  note at = memmap_slot_addr [OF assms(1,3)]
  have slot: "tm + 24 + 24 * of_nat i = memmap_slot tm i" by (simp add: memmap_slot_def)
  have k: "kaddr (memmap_slot tm i) = slot_at tm i" "kaddr (memmap_slot tm i + 8) = slot_at tm i + 8"
      "kaddr (memmap_slot tm i + 16) = slot_at tm i + 16"
    using at(1) [of 0] at(1) [of 8] at(1) [of 16] by simp_all
  have room: "unat (kaddr tm) + 24 + 24 * n < 2 ^ 64" "24 * i + 24 \<le> 24 * n" using assms(1,3) by (simp_all add: memmap_in_place_def)
  have "separate (slot_at tm i + 16) 4 (slot_at tm j) 16" if "j < n" for j
  proof (cases "j = i")
    case True
    then show ?thesis using at(2) [of 0] at(2) [of 16] room by (auto simp: separate_def)
  next
    case False
    then show ?thesis using slots_separate [OF assms(1,3) that] at(2) [of 0] at(2) [of 16] by (auto simp: separate_def)
  qed
  then have "load32 ?m (slot_at tm i + 16) = load32 m (slot_at tm i + 16)"
    using memmap_store_frame [OF assms(1), of 0 es "slot_at tm i + 16" 4 m, where 'c = 32] assms(2)
    by (simp add: load32_def memmap_tag_store_def)
  moreover have "load64 ?m (slot_at tm i) = mmap_base (es ! i)" "load64 ?m (slot_at tm i + 8) = mmap_length (es ! i)"
    using memmap_store_slot [OF assms(1), of 0 es i m] assms(2,3) by (simp_all add: memmap_tag_store_def)
  ultimately show ?thesis
    unfolding memmap_tag_entry_def Let_def slot by (simp add: kload64_def kload32_def k)
qed

lemma memmap_map_written:
  assumes "memmap_in_place tm n" "unat (memmap_tag_entries m tm) = n" "length es = n"
    and "\<And>i. i < n \<Longrightarrow> mmap_type (es ! i) = mmap_type (memmap_tag_map m tm ! i)"
  shows "memmap_tag_map (memmap_tag_store tm es m) tm = es"
proof (rule nth_equalityI)
  let ?m = "memmap_tag_store tm es m"
  have room: "unat (kaddr tm) + 24 + 24 * n < 2 ^ 64" using assms(1) by (simp add: memmap_in_place_def)
  have k: "kaddr (tm + of_nat 16) = kaddr tm + of_nat 16"
    by (rule conjunct2 [OF assms(1) [unfolded memmap_in_place_def], rule_format]) simp
  have "unat (kaddr tm + 16) = unat (kaddr tm) + 16" "unat (kaddr tm + 24) = unat (kaddr tm) + 24"
    using unat_add_of_nat [of "kaddr tm" 16] unat_add_of_nat [of "kaddr tm" 24] room by simp_all
  then have "separate (kaddr (tm + 16)) 8 (kaddr tm + 24) (24 * n)" using k room by (auto simp: separate_def)
  from kload64_kept [OF assms(1) _ this] assms(2,3) have n: "unat (memmap_tag_entries ?m tm) = n" by (simp add: memmap_tag_entries_def)
  then show "length (memmap_tag_map ?m tm) = length es" using assms(3) by (simp add: memmap_tag_map_def)
  show "memmap_tag_map ?m tm ! i = es ! i" if "i < length (memmap_tag_map ?m tm)" for i
  proof -
    have i: "i < n" using that n by (simp add: memmap_tag_map_def)
    then have "mmap_type (memmap_tag_entry m tm (of_nat i)) = mmap_type (es ! i)" using assms(2,4) by (simp add: memmap_tag_map_def)
    then show ?thesis using memmap_written_entry [OF assms(1,3) i, of m] i n by (simp add: memmap_tag_map_def)
  qed
qed

section \<open>Heap and page tables\<close>

text \<open>Filling pages that were free leaves the page tables alone.\<close>

lemma cell_loc: "cell f i = loc f (8 * i)"
  by (simp add: cell_def loc_def page_addr_def)

lemma vmm_inv_off_pages:
  assumes inv: "vmm_inv s r T" and off: "off_pages (pmm_free_pages s) (kmem s) (kmem t)" and "pmm_wf t"
    and "pmm_pages t = pmm_pages s" "pmm_free_pages t \<subseteq> pmm_free_pages s"
  shows "vmm_inv t r T" "vmm_translate (kmem t) r v = vmm_translate (kmem s) r v"
proof -
  have ok: "tables_ok (kmem s) T" and T3: "T 3 = {r}" and T: "\<And>l f. f \<in> T l \<Longrightarrow> 0 < f \<and> f < pmm_pages s \<and> f \<notin> pmm_free_pages s"
    using inv by (auto simp: vmm_inv_def)
  have same: "pt_entry (kmem t) f i = pt_entry (kmem s) f i" if f: "f \<in> T l" "i < 512" for f i l
    unfolding pt_entry_def cell_loc
    using tables_okD(2) [OF ok f(1)] f(2) off T [OF f(1)] by (intro load64_page_cong) (auto simp: off_pages_def)
  have "tables_ok (kmem t) T"
    using ok unfolding tables_ok_def by (simp add: same cong: conj_cong)
  then show "vmm_inv t r T" using T3 T assms(3-5) by (auto simp: vmm_inv_def)
  have walk: "pt_walk (kmem t) f is = pt_walk (kmem s) f is" if "f \<in> T l" "length is = Suc l" "\<forall>i\<in>set is. i < 512" for f l "is"
    using that
  proof (induction l arbitrary: f "is")
    case 0
    then obtain i where "is = [i]" by (auto simp: length_Suc_conv)
    then show ?case using 0 same by simp
  next
    case (Suc l)
    then obtain i j js where is': "is = i # j # js" by (auto simp: length_Suc_conv)
    have i: "pt_entry (kmem t) f i = pt_entry (kmem s) f i" using Suc.prems is' by (intro same [OF Suc.prems(1)]) simp
    show ?case
      using Suc.IH [of "frame_of (pt_entry (kmem s) f i)" "j # js"] tables_okD(3) [OF ok Suc.prems(1), of i] Suc.prems(2,3)
      unfolding is' by (simp add: i)
  qed
  show "vmm_translate (kmem t) r v = vmm_translate (kmem s) r v"
    unfolding vmm_translate_def using T3 va_indices_less [of _ v] by (intro walk [of r 3]) (auto simp: va_indices_def)
qed

section \<open>The kernel after initialisation\<close>

lemma pmm_init_boot_ok:
  fixes s :: "'a pmm_state_scheme" and ptop :: u64
  assumes "tag_list (kmem s) (stivale2_struct_tags (kmem s) p) ts" "tags_clear (kmem s) p tm n ts"
    and "find (\<lambda>t. tag_identifier (kmem s) t = STIVALE2_STRUCT_TAG_MEMMAP_ID) ts = Some tm"
    and "es = memmap_tag_map (kmem s) tm" "n = length es" "mmap_ok es" "ptop = fold pmm_scan_entry es (highest_page_top s)"
    and "pmm_host_bitmap (pmm_bitmap_size ptop) es = Some (addr, es')"
    and "0 < unat (pmm_bitmap_size ptop)" "8 * unat (pmm_bitmap_size ptop) \<le> 2 ^ 31" "unat ptop div 4096 \<le> 8 * unat (pmm_bitmap_size ptop)"
  shows "\<exists>t. pmm_init_boot p s = Some (Inr t) \<and> pmm_wf t
    \<and> pmm_free_pages t = (\<Union>e\<in>{e \<in> set es. usable e}. entry_pages e) - host_pages addr (pmm_bitmap_size ptop) - {0}
    \<and> stivale2_get_tag (kmem t) p STIVALE2_STRUCT_TAG_MEMMAP_ID = Some tm \<and> memmap_tag_map (kmem t) tm = es'"
proof -
  have tag: "stivale2_get_tag (kmem s) p STIVALE2_STRUCT_TAG_MEMMAP_ID = Some tm"
    using get_tag_loop_finds [OF assms(1)] assms(3) by (simp add: stivale2_get_tag_def)
  obtain t where t: "pmm_init s es = Inr (t, es')" "pmm_wf t" "kmem t = kmem s"
      "pmm_free_pages t = (\<Union>e\<in>{e \<in> set es. usable e}. entry_pages e) - host_pages addr (pmm_bitmap_size ptop) - {0}"
    using pmm_init_wf [of es s addr es'] assms(6,8-11) unfolding assms(7) by auto
  obtain pre e post where e: "es = pre @ e # post" "es' = pre @ e\<lparr>mmap_base := mmap_base e + pmm_bitmap_size ptop,
      mmap_length := mmap_length e - pmm_bitmap_size ptop\<rparr> # post"
    using pmm_host_bitmap_Some [OF assms(8)] by blast
  have len: "length es' = n" and ty: "mmap_type (es' ! i) = mmap_type (es ! i)" for i
    using e assms(5) by (auto simp: nth_append nth_Cons')
  have n: "unat (memmap_tag_entries (kmem s) tm) = n" using assms(4,5) by (simp add: memmap_tag_map_def)
  have place: "memmap_in_place tm n" using assms(2) by (simp add: tags_clear_def)
  have "memmap_tag_map (memmap_tag_store tm es' (kmem s)) tm = es'"
    using ty assms(4) by (intro memmap_map_written [OF place n len]) simp
  moreover have "stivale2_get_tag (memmap_tag_store tm es' (kmem s)) p STIVALE2_STRUCT_TAG_MEMMAP_ID = Some tm"
    using get_tag_kept [OF assms(2) _ assms(1), of es'] len tag by simp
  ultimately show ?thesis using tag t assms(4) by (simp add: pmm_init_boot_def)
qed

text \<open>C1. Under \<open>kinit_all\<close> the kernel comes up: when the bootloader passes a finite list of tags with the
  direct map at the expected address and a memory map whose usable memory holds the bitmap of the
  frame allocator, the tables of the three kernel windows and the six caches, all initialisations and the
  test of \<open>realloc\<close> return in the order of \<open>kernel.c\<close> without a panic, and the machine then satisfies the invariants of its
  components together: the frame allocator's, the page tables' (still translating every pointer of the
  windows below 4 GiB after the heap has been built on the frames), the heap's, and the interrupt
  descriptors' (each of the 256 vectors reaches its stub). The model is exact for tags outside usable memory, where
  the boot protocol puts them: the bitmap is not written over them.\<close>

theorem kernel_boots:
  fixes ptop :: u64
  assumes tags: "tag_list (kmem (ksys k)) (stivale2_struct_tags (kmem (ksys k)) p) ts" "tags_clear (kmem (ksys k)) p tm (length es) ts"
    and hhdm: "find (\<lambda>t. tag_identifier (kmem (ksys k)) t = STIVALE2_STRUCT_TAG_HHDM_ID) ts = Some th"
      "hhdm_tag_addr (kmem (ksys k)) th = HIGHER_HALF_DATA"
    and memmap: "find (\<lambda>t. tag_identifier (kmem (ksys k)) t = STIVALE2_STRUCT_TAG_MEMMAP_ID) ts = Some tm"
      "es = memmap_tag_map (kmem (ksys k)) tm" "mmap_ok es"
    and bitmap: "ptop = fold pmm_scan_entry es (highest_page_top (ksys k))"
      "pmm_host_bitmap (pmm_bitmap_size ptop) es = Some (addr, es')"
      "0 < unat (pmm_bitmap_size ptop)" "8 * unat (pmm_bitmap_size ptop) \<le> 2 ^ 31" "unat ptop div 4096 \<le> 8 * unat (pmm_bitmap_size ptop)"
    and room: "\<forall>e\<in>set es'. page_count_of (mmap_length e) \<le> 2 ^ 32"
      "21517 + memmap_table_pages es' < card ((\<Union>e\<in>{e \<in> set es. usable e}. entry_pages e) - host_pages addr (pmm_bitmap_size ptop) - {0})"
    and tables: "tables_sized (ktables k)"
  shows "\<exists>t r T H. kinit_all dev img p k = Some (Inr t)
    \<and> pmm_wf (ksys t) \<and> vmm_inv (ksys t) r T \<and> cr3 (ksys t) = page_addr r \<and> heap_inv (ksys t) H
    \<and> (\<forall>x v. unat x < 2 ^ 32 \<longrightarrow> v \<in> kernel_pointers x \<longrightarrow>
         (\<exists>e. vmm_translate (kmem (ksys t)) r v = Some e \<and> frame_of e = unat x div 4096))
    \<and> (\<forall>i<256. deliver_interrupt (gdt_bytes (gdt (ktables t))) (gdtr_limit (cpu_gdtr (ktables t)))
         (concat (map idt_descriptor_bytes (idt (ktables t)))) (idtr_limit (cpu_idtr (ktables t))) i = Some (0x08, image_isr_vector img i))"
proof -
  have hhdm_tag: "stivale2_get_tag (kmem (ksys k)) p STIVALE2_STRUCT_TAG_HHDM_ID = Some th"
    using get_tag_loop_finds [OF tags(1)] hhdm(1) by (simp add: stivale2_get_tag_def)
  obtain s1 where s1: "pmm_init_boot p (ksys k) = Some (Inr s1)" "pmm_wf s1"
      "pmm_free_pages s1 = (\<Union>e\<in>{e \<in> set es. usable e}. entry_pages e) - host_pages addr (pmm_bitmap_size ptop) - {0}"
      "stivale2_get_tag (kmem s1) p STIVALE2_STRUCT_TAG_MEMMAP_ID = Some tm" "memmap_tag_map (kmem s1) tm = es'"
    using pmm_init_boot_ok [OF tags memmap(1,2) refl memmap(3) bitmap] by blast
  have "21505 + memmap_table_pages es' + 12 < card (pmm_free_pages s1)" using room(2) s1(3) by simp
  from vmm_init_ok [OF s1(2) room(1) this] obtain s2 r T where
    s2: "vmm_init s1 es' = Inr s2" "cr3 s2 = page_addr r" "vmm_inv s2 r T" "12 < card (pmm_free_pages s2)"
      "\<And>x v. unat x < 2 ^ 32 \<Longrightarrow> v \<in> kernel_pointers x \<Longrightarrow> \<exists>e. vmm_translate (kmem s2) r v = Some e \<and> frame_of e = unat x div 4096"
    by blast
  have wf2: "pmm_wf s2" and room2: "12 \<le> card (pmm_free_pages s2)" using s2(3,4) by (simp_all add: vmm_inv_def)
  obtain s3 H0 where s3: "malloc_heap_init (image_cache_names img) s2 = Inr s3" "heap_inv s3 H0" "pmm_wf s3"
      "\<And>i. i < 6 \<Longrightarrow> \<exists>c q. H0 ! i = fresh_pool c q (16 * 2 ^ i) \<and> {c, q} \<subseteq> pmm_free_pages s2"
    using malloc_heap_init_ok [OF wf2 room2] by meson
  note frame = malloc_heap_init_frame [OF s3(1) wf2 room2]
  obtain m H where m: "realloc_test s3 = Some (Inr (s3\<lparr>kmem := m\<rparr>))" "heap_inv (s3\<lparr>kmem := m\<rparr>) H" "off_pages (pmm_free_pages s2) (kmem s3) m"
    using realloc_test_ok [OF s3(2,4)] by blast
  have s4: "pmm_wf (s3\<lparr>kmem := m\<rparr>)" "pmm_pages (s3\<lparr>kmem := m\<rparr>) = pmm_pages s2" "pmm_free_pages (s3\<lparr>kmem := m\<rparr>) \<subseteq> pmm_free_pages s2"
    using s3(3) frame(2,3) by (simp_all add: pmm_wf_def pmm_inv_def pmm_counter_ok_def pmm_used_def pmm_free_pages_def pmm_pages_def)
  have "off_pages (pmm_free_pages s2) (kmem s2) (kmem (s3\<lparr>kmem := m\<rparr>))" using off_pages_trans [OF frame(1) m(3)] by simp
  note kept = vmm_inv_off_pages [OF s2(3) this s4]
  let ?t = "\<lparr>ksys = s3\<lparr>kmem := m\<rparr>, ktables = idt_init dev (image_isr_vector img) (image_idt img) (gdt_init (image_gdt img) (ktables k))\<rparr>"
  have "kinit_all dev img p k = Some (Inr ?t)"
    using s1 s2(1) s3(1) m(1) hhdm(2) by (simp add: kinit_all_def kinit_parts_def hhdm_tag vmm_init_boot_def assert_impl_def Let_def)
  moreover have "\<forall>x v. unat x < 2 ^ 32 \<longrightarrow> v \<in> kernel_pointers x \<longrightarrow> (\<exists>e. vmm_translate m r v = Some e \<and> frame_of e = unat x div 4096)"
    using s2(5) kept(2) by simp
  ultimately show ?thesis
    using m(2) s4(1) kept(1) frame(5) s2(2) deliver_to_stub [OF tables _ refl, where dev = dev] by (intro exI [of _ ?t] exI) simp_all
qed

text \<open>A machine with 512 MiB of usable memory from 1 MiB on; the two tags lie below.\<close>

definition example_boot_memory :: memory where
  "example_boot_memory = store32 (store64 (store64 (store64 (store64 (store64 (store64 (store64 (store64 (store64 (\<lambda>_. 0)
     0x1080 0x2000)
     0x2000 STIVALE2_STRUCT_TAG_HHDM_ID) 0x2008 0x3000) 0x2010 HIGHER_HALF_DATA)
     0x3000 STIVALE2_STRUCT_TAG_MEMMAP_ID) 0x3008 0) 0x3010 1) 0x3018 0x100000) 0x3020 0x20000000) 0x3028 1"

definition example_boot_entry :: stivale2_mmap_entry where
  "example_boot_entry = \<lparr>mmap_base = 0x100000, mmap_length = 0x20000000, mmap_type = 1\<rparr>"

definition example_boot_machine :: kernel_state where
  "example_boot_machine = \<lparr>ksys = example_heap_machine\<lparr>kmem := example_boot_memory, highest_page_top := 0\<rparr>, ktables = example_tables\<rparr>"

lemma example_boot_kaddr: "unat a < 2 ^ 20 \<Longrightarrow> kaddr a = a"
  by (simp add: kaddr_low)

lemma example_boot_reads:
  shows "stivale2_struct_tags example_boot_memory 0x1000 = 0x2000"
    and "tag_identifier example_boot_memory 0x2000 = STIVALE2_STRUCT_TAG_HHDM_ID" "tag_next example_boot_memory 0x2000 = 0x3000"
    and "hhdm_tag_addr example_boot_memory 0x2000 = HIGHER_HALF_DATA"
    and "tag_identifier example_boot_memory 0x3000 = STIVALE2_STRUCT_TAG_MEMMAP_ID" "tag_next example_boot_memory 0x3000 = 0"
    and "memmap_tag_map example_boot_memory 0x3000 = [example_boot_entry]"
  by (simp_all add: example_boot_memory_def stivale2_struct_tags_def tag_identifier_def tag_next_def hhdm_tag_addr_def memmap_tag_map_def
      memmap_tag_entries_def memmap_tag_entry_def example_boot_entry_def
      kload64_def kload32_def example_boot_kaddr access_defs load_store_same load_store_separate separate_def)

theorem kernel_boots_witness:
  "\<exists>t r T H. kinit_all example_pics \<lparr>image_gdt = 0xFFFFFFFF80110000, image_idt = 0xFFFFFFFF80100000,
        image_isr_vector = (\<lambda>i. 0xFFFFFFFF80001000 + 16 * of_nat i), image_cache_names = (\<lambda>_. 0)\<rparr> 0x1000 example_boot_machine = Some (Inr t)
    \<and> pmm_wf (ksys t) \<and> vmm_inv (ksys t) r T \<and> cr3 (ksys t) = page_addr r \<and> heap_inv (ksys t) H
    \<and> (\<forall>x v. unat x < 2 ^ 32 \<longrightarrow> v \<in> kernel_pointers x \<longrightarrow>
         (\<exists>e. vmm_translate (kmem (ksys t)) r v = Some e \<and> frame_of e = unat x div 4096))
    \<and> (\<forall>i<256. deliver_interrupt (gdt_bytes (gdt (ktables t))) (gdtr_limit (cpu_gdtr (ktables t)))
         (concat (map idt_descriptor_bytes (idt (ktables t)))) (idtr_limit (cpu_idtr (ktables t))) i = Some (0x08, 0xFFFFFFFF80001000 + 16 * of_nat i))"
proof -
  let ?es = "[example_boot_entry]" and ?es' = "[example_boot_entry\<lparr>mmap_base := 0x105000, mmap_length := 0x1FFFB000\<rparr>]"
  let ?img = "\<lparr>image_gdt = 0xFFFFFFFF80110000, image_idt = 0xFFFFFFFF80100000,
        image_isr_vector = (\<lambda>i. 0xFFFFFFFF80001000 + 16 * of_nat i), image_cache_names = (\<lambda>_. 0)\<rparr>"
  have mem: "kmem (ksys example_boot_machine) = example_boot_memory" "highest_page_top (ksys example_boot_machine) = 0"
    "ktables example_boot_machine = example_tables" by (simp_all add: example_boot_machine_def)
  have scan: "fold pmm_scan_entry ?es 0 = 0x20100000" by (simp add: pmm_scan_entry_def example_boot_entry_def)
  have sz: "pmm_bitmap_size 0x20100000 = 0x5000" by (simp add: pmm_bitmap_size_def ALIGN_DOWN_def ALIGN_UP_def)
  have clear: "tags_clear example_boot_memory 0x1000 0x3000 (length ?es) [0x2000, 0x3000]"
  proof -
    have "unat (0x3000 + of_nat x :: u64) < 2 ^ 20" if "x \<le> 48" for x
      using that unat_add_of_nat [of "0x3000 :: u64" x] by simp
    then show ?thesis by (simp add: tags_clear_def memmap_in_place_def example_boot_kaddr separate_def)
  qed
  have free: "(\<Union>e\<in>{e \<in> set ?es. usable e}. entry_pages e) - host_pages (PHYS_TO_HIGHER_HALF_DATA 0x100000) 0x5000 - {0} = {261..<131328}"
    by (auto simp: example_boot_entry_def entry_pages_def host_pages_def HIGHER_HALF_DATA_TO_PHYS_def PHYS_TO_HIGHER_HALF_DATA_def)
  show ?thesis
  proof (rule kernel_boots [where img = ?img, simplified image.simps, of example_boot_machine "0x1000" "[0x2000, 0x3000]" "0x3000" ?es "0x2000" "0x20100000" "PHYS_TO_HIGHER_HALF_DATA 0x100000" ?es'])
    show "21517 + memmap_table_pages ?es' < card ((\<Union>e\<in>{e \<in> set ?es. usable e}. entry_pages e)
        - host_pages (PHYS_TO_HIGHER_HALF_DATA 0x100000) (pmm_bitmap_size 0x20100000) - {0})"
      unfolding sz free by (simp add: memmap_table_pages_def table_pages_def page_count_of_def ALIGN_UP_def)
    show "tags_clear (kmem (ksys example_boot_machine)) 0x1000 0x3000 (length ?es) [0x2000, 0x3000]" using clear mem by simp
    show "0x20100000 = fold pmm_scan_entry ?es (highest_page_top (ksys example_boot_machine))" using scan mem by simp
    show "mmap_ok ?es" by (simp add: mmap_ok_def example_boot_entry_def)
  qed (simp_all add: mem example_boot_reads sz tables_sized_def example_tables_def example_boot_entry_def page_count_of_def ALIGN_UP_def)
qed

end
