(* ===== verification/Printf.thy ===== *)
theory Printf
  imports Kernel_Memory
begin

text \<open>
  \<open>libk/printf/printf.c\<close>, the formatted output behind every log line: the output functions, the
  conversion of integers, the parsing of a directive and the loop over the format string. The
  floating point conversions are compiled only with \<open>GENA_USE_SSE\<close> and \<open>SSE_SUPPORT\<close>, which the
  kernel does not define; \<open>%f\<close>, \<open>%e\<close> and \<open>%g\<close> reach the default case.

  A format string is the list of its characters without the terminating null character. The
  variable arguments are the list of their eight-byte slots, of which \<open>va_arg\<close> reads as many low
  bits as the type has. Strings for \<open>%s\<close> are read from memory, which the output may be changing.
\<close>

section \<open>Output functions\<close>

record 'd out_state =
  omem :: memory
  odev :: 'd

text \<open>\<open>out_fct_type\<close>: the character, the buffer, the index and the size of the buffer.\<close>

type_synonym 'd out_fct_type = "char \<Rightarrow> u64 \<Rightarrow> u64 \<Rightarrow> u64 \<Rightarrow> 'd out_state \<Rightarrow> 'd out_state"

definition out_buffer :: "'d out_fct_type" where
  "out_buffer character buffer idx maxlen s =
     (if idx < maxlen then s\<lparr>omem := (omem s)(buffer + idx := of_char character)\<rparr> else s)"

definition out_null :: "'d out_fct_type" where
  "out_null character buffer idx maxlen s = s"

text \<open>\<open>_out_fct\<close> calls the function of the wrapper, here its first argument, on each character but null.\<close>

definition out_fct :: "(char \<Rightarrow> 'd \<Rightarrow> 'd) \<Rightarrow> 'd out_fct_type" where
  "out_fct fct character buffer idx maxlen s =
     (if character \<noteq> CHR 0x00 then s\<lparr>odev := fct character (odev s)\<rparr> else s)"

text \<open>The body of every output loop, \<open>out(c, buffer, idx++, maxlen)\<close>, for a list of characters.\<close>

fun out_chars :: "'d out_fct_type \<Rightarrow> u64 \<Rightarrow> u64 \<Rightarrow> char list \<Rightarrow> u64 \<times> 'd out_state \<Rightarrow> u64 \<times> 'd out_state" where
  "out_chars out buffer maxlen [] (idx, s) = (idx, s)"
| "out_chars out buffer maxlen (c # cs) (idx, s) = out_chars out buffer maxlen cs (idx + 1, out c buffer idx maxlen s)"

section \<open>Flags\<close>

abbreviation (input) FLAGS_ZEROPAD :: u32 where "FLAGS_ZEROPAD \<equiv> 0x1"
abbreviation (input) FLAGS_LEFT :: u32 where "FLAGS_LEFT \<equiv> 0x2"
abbreviation (input) FLAGS_PLUS :: u32 where "FLAGS_PLUS \<equiv> 0x4"
abbreviation (input) FLAGS_SPACE :: u32 where "FLAGS_SPACE \<equiv> 0x8"
abbreviation (input) FLAGS_HASH :: u32 where "FLAGS_HASH \<equiv> 0x10"
abbreviation (input) FLAGS_UPPERCASE :: u32 where "FLAGS_UPPERCASE \<equiv> 0x20"
abbreviation (input) FLAGS_CHAR :: u32 where "FLAGS_CHAR \<equiv> 0x40"
abbreviation (input) FLAGS_SHORT :: u32 where "FLAGS_SHORT \<equiv> 0x80"
abbreviation (input) FLAGS_LONG :: u32 where "FLAGS_LONG \<equiv> 0x100"
abbreviation (input) FLAGS_LONG_LONG :: u32 where "FLAGS_LONG_LONG \<equiv> 0x200"
abbreviation (input) FLAGS_PRECISION :: u32 where "FLAGS_PRECISION \<equiv> 0x400"

definition flag :: "u32 \<Rightarrow> u32 \<Rightarrow> bool" where
  "flag flags f \<longleftrightarrow> flags AND f \<noteq> 0"

section \<open>Strings and digits\<close>

text \<open>\<open>for (s = str; *s && maxsize--; ++s);\<close>\<close>

function strnlen_loop :: "memory \<Rightarrow> u64 \<Rightarrow> u64 \<Rightarrow> u64" where
  "strnlen_loop m s maxsize = (if m s \<noteq> 0 \<and> maxsize \<noteq> 0 then strnlen_loop m (s + 1) (maxsize - 1) else s)"
  by pat_completeness auto
termination
  by (relation "measure (\<lambda>(m, s, maxsize). unat maxsize)")
    (auto simp: unat_minus_one word_gt_0 unat_gt_0)

declare strnlen_loop.simps [simp del]

definition strnlen_s :: "memory \<Rightarrow> u64 \<Rightarrow> u64 \<Rightarrow> u32" where
  "strnlen_s m str maxsize = ucast (strnlen_loop m str maxsize - str)"

definition is_digit :: "char \<Rightarrow> bool" where
  "is_digit ch \<longleftrightarrow> 48 \<le> (of_char ch :: nat) \<and> (of_char ch :: nat) \<le> 57"

fun atoi_loop :: "u32 \<Rightarrow> string \<Rightarrow> u32 \<times> string" where
  "atoi_loop i [] = (i, [])"
| "atoi_loop i (c # str) = (if is_digit c then atoi_loop (i * 10 + (of_char c - 48)) str else (i, c # str))"

definition atoi :: "string \<Rightarrow> u32 \<times> string" where
  "atoi str = atoi_loop 0 str"

section \<open>Integer conversion\<close>

text \<open>
  The conversion buffer \<open>buf\<close> of \<open>PRINTF_NTOA_BUFFER_SIZE\<close> = 32 characters is the list of the
  \<open>len\<close> characters in use; \<open>put\<close> is the guarded \<open>buf[len++] = c\<close>.
\<close>

definition put :: "char \<Rightarrow> char list \<Rightarrow> char list" where
  "put c buf = (if length buf < 32 then buf @ [c] else buf)"

function pad_zeros :: "nat \<Rightarrow> char list \<Rightarrow> char list" where
  "pad_zeros n buf = (if length buf < n \<and> length buf < 32 then pad_zeros n (buf @ [CHR ''0'']) else buf)"
  by pat_completeness auto
termination
  by (relation "measure (\<lambda>(n, buf). 32 - length buf)") auto

declare pad_zeros.simps [simp del]

definition out_rev ::
  "'d out_fct_type \<Rightarrow> u64 \<Rightarrow> u64 \<Rightarrow> u64 \<Rightarrow> 'd out_state \<Rightarrow> char list \<Rightarrow> u32 \<Rightarrow> u32 \<Rightarrow> u64 \<times> 'd out_state" where
  "out_rev out buffer maxlen idx s buf width flags =
     (let start_idx = idx;
          (idx, s) = (if \<not> flag flags FLAGS_LEFT \<and> \<not> flag flags FLAGS_ZEROPAD
                      then out_chars out buffer maxlen (replicate (unat width - length buf) CHR '' '') (idx, s)
                      else (idx, s));
          (idx, s) = out_chars out buffer maxlen (rev buf) (idx, s)
      in if flag flags FLAGS_LEFT
         then out_chars out buffer maxlen (replicate (unat width - unat (idx - start_idx)) CHR '' '') (idx, s)
         else (idx, s))"

definition ntoa_hash :: "u32 \<Rightarrow> u32 \<Rightarrow> u32 \<Rightarrow> u32 \<Rightarrow> char list \<Rightarrow> char list" where
  "ntoa_hash base prec width flags buf =
     (let buf = (if \<not> flag flags FLAGS_PRECISION \<and> buf \<noteq> [] \<and> (length buf = unat prec \<or> length buf = unat width)
                 then (let buf = butlast buf in if buf \<noteq> [] \<and> base = 16 then butlast buf else buf)
                 else buf);
          buf = (if base = 16 \<and> \<not> flag flags FLAGS_UPPERCASE then put CHR ''x'' buf
                 else if base = 16 \<and> flag flags FLAGS_UPPERCASE then put CHR ''X'' buf
                 else if base = 2 then put CHR ''b'' buf
                 else buf)
      in put CHR ''0'' buf)"

definition ntoa_sign :: "bool \<Rightarrow> u32 \<Rightarrow> char list \<Rightarrow> char list" where
  "ntoa_sign negative flags buf =
     (if negative then put CHR ''-'' buf
      else if flag flags FLAGS_PLUS then put CHR ''+'' buf
      else if flag flags FLAGS_SPACE then put CHR '' '' buf
      else buf)"

text \<open>The width after the room for a sign is taken, and the buffer that \<open>_ntoa_format\<close> prints.\<close>

definition ntoa_width :: "bool \<Rightarrow> u32 \<Rightarrow> u32 \<Rightarrow> u32" where
  "ntoa_width negative width flags =
     (if \<not> flag flags FLAGS_LEFT \<and> width \<noteq> 0 \<and> flag flags FLAGS_ZEROPAD
         \<and> (negative \<or> flag flags (FLAGS_PLUS OR FLAGS_SPACE))
      then width - 1 else width)"

definition ntoa_buf :: "char list \<Rightarrow> bool \<Rightarrow> u32 \<Rightarrow> u32 \<Rightarrow> u32 \<Rightarrow> u32 \<Rightarrow> char list" where
  "ntoa_buf buf negative base prec width flags =
     (let buf = (if \<not> flag flags FLAGS_LEFT
                 then (let buf = pad_zeros (unat prec) buf
                       in if flag flags FLAGS_ZEROPAD then pad_zeros (unat width) buf else buf)
                 else buf);
          buf = (if flag flags FLAGS_HASH then ntoa_hash base prec width flags buf else buf)
      in ntoa_sign negative flags buf)"

definition ntoa_format ::
  "'d out_fct_type \<Rightarrow> u64 \<Rightarrow> u64 \<Rightarrow> u64 \<Rightarrow> 'd out_state \<Rightarrow> char list \<Rightarrow> bool \<Rightarrow> u32 \<Rightarrow> u32 \<Rightarrow> u32 \<Rightarrow> u32
   \<Rightarrow> u64 \<times> 'd out_state" where
  "ntoa_format out buffer maxlen idx s buf negative base prec width flags =
     (let width = ntoa_width negative width flags
      in out_rev out buffer maxlen idx s (ntoa_buf buf negative base prec width flags) width flags)"

definition digit_char :: "bool \<Rightarrow> nat \<Rightarrow> char" where
  "digit_char upper digit =
     char_of (if digit < 10 then of_char CHR ''0'' + digit
              else (if upper then of_char CHR ''A'' else of_char CHR ''a'') + digit - 10)"

text \<open>The do-while loop: least significant digit first, at most 32 digits.\<close>

function ntoa_digits :: "bool \<Rightarrow> u64 \<Rightarrow> u64 \<Rightarrow> char list \<Rightarrow> char list" where
  "ntoa_digits upper value base buf =
     (let digit = unat (value mod base);
          buf = buf @ [digit_char upper digit];
          value = value div base
      in if value \<noteq> 0 \<and> length buf < 32 then ntoa_digits upper value base buf else buf)"
  by pat_completeness auto
termination
  by (relation "measure (\<lambda>(upper, value, base, buf). 32 - length buf)") auto

declare ntoa_digits.simps [simp del]

definition ntoa_long ::
  "'d out_fct_type \<Rightarrow> u64 \<Rightarrow> u64 \<Rightarrow> u64 \<Rightarrow> 'd out_state \<Rightarrow> u64 \<Rightarrow> bool \<Rightarrow> u64 \<Rightarrow> u32 \<Rightarrow> u32 \<Rightarrow> u32
   \<Rightarrow> u64 \<times> 'd out_state" where
  "ntoa_long out buffer maxlen idx s value negative base prec width flags =
     (let flags = (if value = 0 then flags AND NOT FLAGS_HASH else flags);
          buf = (if \<not> flag flags FLAGS_PRECISION \<or> value \<noteq> 0
                 then ntoa_digits (flag flags FLAGS_UPPERCASE) value base [] else [])
      in ntoa_format out buffer maxlen idx s buf negative (ucast base) prec width flags)"

definition ntoa_long_long ::
  "'d out_fct_type \<Rightarrow> u64 \<Rightarrow> u64 \<Rightarrow> u64 \<Rightarrow> 'd out_state \<Rightarrow> u64 \<Rightarrow> bool \<Rightarrow> u64 \<Rightarrow> u32 \<Rightarrow> u32 \<Rightarrow> u32
   \<Rightarrow> u64 \<times> 'd out_state" where
  "ntoa_long_long out buffer maxlen idx s value negative base prec width flags =
     (let flags = (if value = 0 then flags AND NOT FLAGS_HASH else flags);
          buf = (if \<not> flag flags FLAGS_PRECISION \<or> value \<noteq> 0
                 then ntoa_digits (flag flags FLAGS_UPPERCASE) value base [] else [])
      in ntoa_format out buffer maxlen idx s buf negative (ucast base) prec width flags)"

section \<open>Directives: flags, width, precision and length\<close>

type_synonym va_list = "u64 list"

text \<open>An argument that was not passed has no value.\<close>

fun va_arg :: "va_list \<Rightarrow> (u64 \<times> va_list) result" where
  "va_arg [] = Inl Out_Of_Bounds"
| "va_arg (a # va) = Inr (a, va)"

text \<open>\<open>*format\<close>\<close>

fun deref :: "string \<Rightarrow> char" where
  "deref [] = CHR 0x00"
| "deref (c # format) = c"

fun parse_flags :: "u32 \<Rightarrow> string \<Rightarrow> u32 \<times> string" where
  "parse_flags flags [] = (flags, [])"
| "parse_flags flags (c # format) =
     (if c = CHR ''0'' then parse_flags (flags OR FLAGS_ZEROPAD) format
      else if c = CHR ''-'' then parse_flags (flags OR FLAGS_LEFT) format
      else if c = CHR ''+'' then parse_flags (flags OR FLAGS_PLUS) format
      else if c = CHR '' '' then parse_flags (flags OR FLAGS_SPACE) format
      else if c = CHR ''#'' then parse_flags (flags OR FLAGS_HASH) format
      else (flags, c # format))"

definition parse_width :: "u32 \<Rightarrow> string \<Rightarrow> va_list \<Rightarrow> (u32 \<times> u32 \<times> string \<times> va_list) result" where
  "parse_width flags format va =
     (if is_digit (deref format) then (let (width, format) = atoi format in Inr (flags, width, format, va))
      else if deref format = CHR ''*''
      then rbind (va_arg va) (\<lambda>(a, va).
             let w = ucast a :: u32
             in if w <s 0 then Inr (flags OR FLAGS_LEFT, - w, tl format, va) else Inr (flags, w, tl format, va))
      else Inr (flags, 0, format, va))"

definition parse_precision :: "u32 \<Rightarrow> string \<Rightarrow> va_list \<Rightarrow> (u32 \<times> u32 \<times> string \<times> va_list) result" where
  "parse_precision flags format va =
     (if deref format = CHR ''.''
      then (let flags = flags OR FLAGS_PRECISION; format = tl format
            in if is_digit (deref format)
               then (let (precision, format) = atoi format in Inr (flags, precision, format, va))
               else if deref format = CHR ''*''
               then rbind (va_arg va) (\<lambda>(a, va).
                      let prec = ucast a :: u32
                      in Inr (flags, if 0 <s prec then prec else 0, tl format, va))
               else Inr (flags, 0, format, va))
      else Inr (flags, 0, format, va))"

text \<open>\<open>ptrdiff_t\<close>, \<open>intmax_t\<close> and \<open>size_t\<close> have the size of \<open>long\<close> on this machine.\<close>

definition parse_length :: "u32 \<Rightarrow> string \<Rightarrow> u32 \<times> string" where
  "parse_length flags format =
     (if deref format = CHR ''l''
      then (if deref (tl format) = CHR ''l'' then (flags OR FLAGS_LONG OR FLAGS_LONG_LONG, tl (tl format))
            else (flags OR FLAGS_LONG, tl format))
      else if deref format = CHR ''h''
      then (if deref (tl format) = CHR ''h'' then (flags OR FLAGS_SHORT OR FLAGS_CHAR, tl (tl format))
            else (flags OR FLAGS_SHORT, tl format))
      else if deref format = CHR ''t'' \<or> deref format = CHR ''j'' \<or> deref format = CHR ''z''
      then (flags OR FLAGS_LONG, tl format)
      else (flags, format))"

text \<open>Everything between \<open>%\<close> and the specifier, in the order of the code.\<close>

definition parse_directive :: "string \<Rightarrow> va_list \<Rightarrow> (u32 \<times> u32 \<times> u32 \<times> string \<times> va_list) result" where
  "parse_directive format va =
     (let (flags, format) = parse_flags 0 format in
      rbind (parse_width flags format va) (\<lambda>(flags, width, format, va).
      rbind (parse_precision flags format va) (\<lambda>(flags, precision, format, va).
        let (flags, format) = parse_length flags format
        in Inr (flags, width, precision, format, va))))"

section \<open>Specifiers\<close>

definition integer_specifier :: "char \<Rightarrow> bool" where
  "integer_specifier c \<longleftrightarrow> c \<in> set ''diuxXob''"

definition integer_base :: "char \<Rightarrow> u32" where
  "integer_base c = (if c = CHR ''x'' \<or> c = CHR ''X'' then 16 else if c = CHR ''o'' then 8 else if c = CHR ''b'' then 2 else 10)"

definition integer_flags :: "char \<Rightarrow> u32 \<Rightarrow> u32" where
  "integer_flags c flags =
     (let flags = (if integer_base c = 10 then flags AND NOT FLAGS_HASH else flags);
          flags = (if c = CHR ''X'' then flags OR FLAGS_UPPERCASE else flags);
          flags = (if c \<noteq> CHR ''i'' \<and> c \<noteq> CHR ''d'' then flags AND NOT (FLAGS_PLUS OR FLAGS_SPACE) else flags)
      in if flag flags FLAGS_PRECISION then flags AND NOT FLAGS_ZEROPAD else flags)"

text \<open>The argument of an integer conversion as magnitude and sign: the casts of the length field.\<close>

definition signed_arg :: "u32 \<Rightarrow> u64 \<Rightarrow> u64 \<times> bool" where
  "signed_arg flags a =
     (if flag flags FLAGS_LONG_LONG \<or> flag flags FLAGS_LONG
      then (if 0 <s a then a else 0 - a, a <s 0)
      else (let value = (if flag flags FLAGS_CHAR then scast (ucast a :: u8)
                         else if flag flags FLAGS_SHORT then scast (ucast a :: u16) else ucast a) :: u32
            in (ucast (if 0 <s value then value else 0 - value), value <s 0)))"

definition unsigned_arg :: "u32 \<Rightarrow> u64 \<Rightarrow> u64" where
  "unsigned_arg flags a =
     (if flag flags FLAGS_LONG_LONG \<or> flag flags FLAGS_LONG then a
      else if flag flags FLAGS_CHAR then ucast (ucast a :: u8)
      else if flag flags FLAGS_SHORT then ucast (ucast a :: u16)
      else ucast (ucast a :: u32))"

definition out_integer ::
  "'d out_fct_type \<Rightarrow> u64 \<Rightarrow> u64 \<Rightarrow> u64 \<Rightarrow> 'd out_state \<Rightarrow> char \<Rightarrow> u32 \<Rightarrow> u32 \<Rightarrow> u32 \<Rightarrow> u64 \<Rightarrow> u64 \<times> 'd out_state" where
  "out_integer out buffer maxlen idx s c flags width precision a =
     (let base = ucast (integer_base c); flags = integer_flags c flags;
          (value, negative) = (if c = CHR ''i'' \<or> c = CHR ''d'' then signed_arg flags a else (unsigned_arg flags a, False))
      in if flag flags FLAGS_LONG_LONG
         then ntoa_long_long out buffer maxlen idx s value negative base precision width flags
         else ntoa_long out buffer maxlen idx s value negative base precision width flags)"

text \<open>\<open>%c\<close>: \<open>l\<close> starts at one, so a width pads with one space less than it has columns.\<close>

definition out_character ::
  "'d out_fct_type \<Rightarrow> u64 \<Rightarrow> u64 \<Rightarrow> u64 \<Rightarrow> 'd out_state \<Rightarrow> u32 \<Rightarrow> u32 \<Rightarrow> u64 \<Rightarrow> u64 \<times> 'd out_state" where
  "out_character out buffer maxlen idx s flags width a =
     (let pad = replicate (unat width - 1) CHR '' '';
          (idx, s) = (if \<not> flag flags FLAGS_LEFT then out_chars out buffer maxlen pad (idx, s) else (idx, s));
          (idx, s) = out_chars out buffer maxlen [char_of (unat (ucast a :: u8))] (idx, s)
      in if flag flags FLAGS_LEFT then out_chars out buffer maxlen pad (idx, s) else (idx, s))"

text \<open>
  \<open>%s\<close>. The loop that prints the string ends at the null character or at the precision; over a
  memory without a null character it never ends, which is the value \<open>None\<close>.
\<close>

partial_function (option) out_string_loop ::
  "'d out_fct_type \<Rightarrow> u64 \<Rightarrow> u64 \<Rightarrow> u32 \<Rightarrow> u32 \<Rightarrow> u64 \<Rightarrow> u64 \<Rightarrow> 'd out_state \<Rightarrow> (u64 \<times> 'd out_state) option" where
  "out_string_loop out buffer maxlen flags precision p idx s =
     (if omem s p \<noteq> 0 \<and> (\<not> flag flags FLAGS_PRECISION \<or> precision \<noteq> 0)
      then out_string_loop out buffer maxlen flags
             (if flag flags FLAGS_PRECISION then precision - 1 else precision) (p + 1) (idx + 1)
             (out (char_of (unat (omem s p))) buffer idx maxlen s)
      else Some (idx, s))"

definition string_pad_length :: "memory \<Rightarrow> u32 \<Rightarrow> u32 \<Rightarrow> u64 \<Rightarrow> u32" where
  "string_pad_length m flags precision p =
     (let l = strnlen_s m p (if precision \<noteq> 0 then ucast precision else - 1)
      in if flag flags FLAGS_PRECISION then (if l < precision then l else precision) else l)"

definition out_string ::
  "'d out_fct_type \<Rightarrow> u64 \<Rightarrow> u64 \<Rightarrow> u64 \<Rightarrow> 'd out_state \<Rightarrow> u32 \<Rightarrow> u32 \<Rightarrow> u32 \<Rightarrow> u64 \<Rightarrow> (u64 \<times> 'd out_state) option" where
  "out_string out buffer maxlen idx s flags width precision p =
     (let l = string_pad_length (omem s) flags precision p;
          pad = replicate (unat width - unat l) CHR '' '';
          (idx, s) = (if \<not> flag flags FLAGS_LEFT then out_chars out buffer maxlen pad (idx, s) else (idx, s))
      in case out_string_loop out buffer maxlen flags precision p idx s of
           None \<Rightarrow> None
         | Some (idx, s) \<Rightarrow> Some (if flag flags FLAGS_LEFT then out_chars out buffer maxlen pad (idx, s) else (idx, s)))"

definition out_pointer ::
  "'d out_fct_type \<Rightarrow> u64 \<Rightarrow> u64 \<Rightarrow> u64 \<Rightarrow> 'd out_state \<Rightarrow> u32 \<Rightarrow> u32 \<Rightarrow> u64 \<Rightarrow> u64 \<times> 'd out_state" where
  "out_pointer out buffer maxlen idx s flags precision a =
     ntoa_long_long out buffer maxlen idx s a False 16 precision 16 (flags OR (FLAGS_ZEROPAD OR FLAGS_UPPERCASE))"

definition out_specifier ::
  "'d out_fct_type \<Rightarrow> u64 \<Rightarrow> u64 \<Rightarrow> u64 \<Rightarrow> 'd out_state \<Rightarrow> char \<Rightarrow> u32 \<Rightarrow> u32 \<Rightarrow> u32 \<Rightarrow> va_list
   \<Rightarrow> (va_list \<times> u64 \<times> 'd out_state) result option" where
  "out_specifier out buffer maxlen idx s c flags width precision va =
     (if integer_specifier c
      then Some (rbind (va_arg va) (\<lambda>(a, va). Inr (va, out_integer out buffer maxlen idx s c flags width precision a)))
      else if c = CHR ''c''
      then Some (rbind (va_arg va) (\<lambda>(a, va). Inr (va, out_character out buffer maxlen idx s flags width a)))
      else if c = CHR ''s''
      then (case va_arg va of
              Inl e \<Rightarrow> Some (Inl e)
            | Inr (p, va) \<Rightarrow> map_option (\<lambda>r. Inr (va, r)) (out_string out buffer maxlen idx s flags width precision p))
      else if c = CHR ''p''
      then Some (rbind (va_arg va) (\<lambda>(a, va). Inr (va, out_pointer out buffer maxlen idx s flags precision a)))
      else if c = CHR ''%'' then Some (Inr (va, out_chars out buffer maxlen [CHR ''%''] (idx, s)))
      else Some (Inr (va, out_chars out buffer maxlen [c] (idx, s))))"

section \<open>The loop over the format\<close>

lemma length_parse_flags: "length (snd (parse_flags flags format)) \<le> length format"
  by (induction flags format rule: parse_flags.induct) (simp_all add: le_SucI)

lemma length_atoi_loop: "length (snd (atoi_loop i str)) \<le> length str"
  by (induction i str rule: atoi_loop.induct) (simp_all add: le_SucI)

lemma length_atoi: "atoi str = (i, str') \<Longrightarrow> length str' \<le> length str"
  using length_atoi_loop [of 0 str] by (simp add: atoi_def)

lemma length_parse_width: "parse_width flags format va = Inr (flags', w, format', va') \<Longrightarrow> length format' \<le> length format"
  by (auto simp: parse_width_def Let_def rbind_eq_Inr split: if_splits prod.splits dest: length_atoi)

lemma length_parse_precision: "parse_precision flags format va = Inr (flags', w, format', va') \<Longrightarrow> length format' \<le> length format"
  by (auto simp: parse_precision_def Let_def rbind_eq_Inr split: if_splits prod.splits dest!: length_atoi)

lemma length_parse_length: "parse_length flags format = (flags', format') \<Longrightarrow> length format' \<le> length format"
  by (auto simp: parse_length_def split: if_splits)

lemma length_parse_directive:
  assumes "parse_directive format va = Inr (flags, width, precision, format', va')"
  shows "length format' \<le> length format"
proof -
  obtain f1 t1 where 1: "parse_flags 0 format = (f1, t1)" by fastforce
  obtain f2 t2 va2 f3 t3 where "parse_width f1 t1 va = Inr (f2, width, t2, va2)"
      "parse_precision f2 t2 va2 = Inr (f3, precision, t3, va')" "parse_length f3 t3 = (flags, format')"
    using assms 1 by (auto simp: parse_directive_def rbind_eq_Inr case_prod_beta prod_eq_iff)
  then show ?thesis
    using length_parse_flags [of 0 format] 1 by (auto dest!: length_parse_width length_parse_precision length_parse_length)
qed

text \<open>
  A format that ends inside a directive makes the default case print the terminating null
  character and step over it: what follows reads past the end of the string.
\<close>

function vsnprintf_loop ::
  "'d out_fct_type \<Rightarrow> u64 \<Rightarrow> u64 \<Rightarrow> string \<Rightarrow> va_list \<Rightarrow> u64 \<Rightarrow> 'd out_state \<Rightarrow> (u64 \<times> 'd out_state) result option" where
  "vsnprintf_loop out buffer maxlen [] va idx s = Some (Inr (idx, s))"
| "vsnprintf_loop out buffer maxlen (c # format) va idx s =
     (if c \<noteq> CHR ''%'' then vsnprintf_loop out buffer maxlen format va (idx + 1) (out c buffer idx maxlen s)
      else case parse_directive format va of
             Inl e \<Rightarrow> Some (Inl e)
           | Inr (flags, width, precision, [], va) \<Rightarrow> Some (Inl Out_Of_Bounds)
           | Inr (flags, width, precision, c # format, va) \<Rightarrow>
               (case out_specifier out buffer maxlen idx s c flags width precision va of
                  None \<Rightarrow> None
                | Some (Inl e) \<Rightarrow> Some (Inl e)
                | Some (Inr (va, idx, s)) \<Rightarrow> vsnprintf_loop out buffer maxlen format va idx s))"
  by pat_completeness auto
termination
  by (relation "measure (\<lambda>(out, buffer, maxlen, format, va, idx, s). length format)")
    (auto dest: length_parse_directive)

text \<open>
  \<open>_vsnprintf\<close>: the loop, then the terminating null character, at the last place of the buffer
  when the text did not fit; the number of characters of the text is returned as an \<open>int\<close>.
\<close>

definition vsnprintf_internal ::
  "'d out_fct_type \<Rightarrow> u64 \<Rightarrow> u64 \<Rightarrow> string \<Rightarrow> va_list \<Rightarrow> 'd out_state \<Rightarrow> (int \<times> 'd out_state) result option" where
  "vsnprintf_internal out buffer maxlen format va s =
     (let out = (if buffer = 0 then out_null else out)
      in map_option (\<lambda>r. rbind r (\<lambda>(idx, s).
           Inr (sint (ucast idx :: u32), out CHR 0x00 buffer (if idx < maxlen then idx else maxlen - 1) maxlen s)))
         (vsnprintf_loop out buffer maxlen format va 0 s))"

definition sprintf :: "u64 \<Rightarrow> string \<Rightarrow> va_list \<Rightarrow> 'd out_state \<Rightarrow> (int \<times> 'd out_state) result option" where
  "sprintf buffer format va s = vsnprintf_internal out_buffer buffer (- 1) format va s"

definition snprintf :: "u64 \<Rightarrow> u64 \<Rightarrow> string \<Rightarrow> va_list \<Rightarrow> 'd out_state \<Rightarrow> (int \<times> 'd out_state) result option" where
  "snprintf buffer count format va s = vsnprintf_internal out_buffer buffer count format va s"

definition vsnprintf :: "u64 \<Rightarrow> u64 \<Rightarrow> string \<Rightarrow> va_list \<Rightarrow> 'd out_state \<Rightarrow> (int \<times> 'd out_state) result option" where
  "vsnprintf buffer count format va s = vsnprintf_internal out_buffer buffer count format va s"

text \<open>\<open>fctprintf\<close> passes the address of its wrapper structure, a local variable, as the buffer.\<close>

definition fctprintf ::
  "(char \<Rightarrow> 'd \<Rightarrow> 'd) \<Rightarrow> u64 \<Rightarrow> string \<Rightarrow> va_list \<Rightarrow> 'd out_state \<Rightarrow> (int \<times> 'd out_state) result option" where
  "fctprintf out out_fct_wrap format va s = vsnprintf_internal (out_fct out) out_fct_wrap (- 1) format va s"

end
