(* ===== verification/Printf_Text.thy ===== *)
theory Printf_Text
  imports Printf
begin

text \<open>
  What \<open>printf.c\<close> prints. \<open>vformat\<close> gives the text of a format and its arguments without any
  output function or index; the locale \<open>printf_sink\<close> shows that the loop of \<open>_vsnprintf\<close> sends
  exactly this text, character by character, to every output function that leaves the strings
  of the arguments alone, and the three output functions of the file are its instances.
\<close>

section \<open>The text of a directive\<close>

definition rev_text :: "char list \<Rightarrow> u32 \<Rightarrow> u32 \<Rightarrow> string" where
  "rev_text buf width flags =
     (let pad = replicate (unat width - length buf) CHR '' '' in
      if flag flags FLAGS_LEFT then rev buf @ pad
      else if flag flags FLAGS_ZEROPAD then rev buf
      else pad @ rev buf)"

definition ntoa_text :: "u64 \<Rightarrow> bool \<Rightarrow> u64 \<Rightarrow> u32 \<Rightarrow> u32 \<Rightarrow> u32 \<Rightarrow> string" where
  "ntoa_text value negative base prec width flags =
     (let flags = (if value = 0 then flags AND NOT FLAGS_HASH else flags);
          buf = (if \<not> flag flags FLAGS_PRECISION \<or> value \<noteq> 0
                 then ntoa_digits (flag flags FLAGS_UPPERCASE) value base [] else []);
          width = ntoa_width negative width flags
      in rev_text (ntoa_buf buf negative (ucast base) prec width flags) width flags)"

definition integer_text :: "char \<Rightarrow> u32 \<Rightarrow> u32 \<Rightarrow> u32 \<Rightarrow> u64 \<Rightarrow> string" where
  "integer_text c flags width precision a =
     (let flags = integer_flags c flags;
          (value, negative) = (if c = CHR ''i'' \<or> c = CHR ''d'' then signed_arg flags a else (unsigned_arg flags a, False))
      in ntoa_text value negative (ucast (integer_base c)) precision width flags)"

definition padded :: "u32 \<Rightarrow> nat \<Rightarrow> string \<Rightarrow> string" where
  "padded flags n t = (if flag flags FLAGS_LEFT then t @ replicate n CHR '' '' else replicate n CHR '' '' @ t)"

partial_function (option) string_chars :: "memory \<Rightarrow> u32 \<Rightarrow> u32 \<Rightarrow> u64 \<Rightarrow> string option" where
  "string_chars m flags precision p =
     (if m p \<noteq> 0 \<and> (\<not> flag flags FLAGS_PRECISION \<or> precision \<noteq> 0)
      then Option.bind (string_chars m flags (if flag flags FLAGS_PRECISION then precision - 1 else precision) (p + 1))
             (\<lambda>t. Some (char_of (unat (m p)) # t))
      else Some [])"

definition specifier_text ::
  "memory \<Rightarrow> char \<Rightarrow> u32 \<Rightarrow> u32 \<Rightarrow> u32 \<Rightarrow> va_list \<Rightarrow> (va_list \<times> string) result option" where
  "specifier_text m c flags width precision va =
     (if integer_specifier c
      then Some (rbind (va_arg va) (\<lambda>(a, va). Inr (va, integer_text c flags width precision a)))
      else if c = CHR ''c''
      then Some (rbind (va_arg va) (\<lambda>(a, va). Inr (va, padded flags (unat width - 1) [char_of (unat (ucast a :: u8))])))
      else if c = CHR ''s''
      then (case va_arg va of
              Inl e \<Rightarrow> Some (Inl e)
            | Inr (p, va) \<Rightarrow> map_option (\<lambda>t. Inr (va, padded flags (unat width - unat (string_pad_length m flags precision p)) t))
                (string_chars m flags precision p))
      else if c = CHR ''p''
      then Some (rbind (va_arg va) (\<lambda>(a, va).
             Inr (va, ntoa_text a False 16 precision 16 (flags OR (FLAGS_ZEROPAD OR FLAGS_UPPERCASE)))))
      else Some (Inr (va, [c])))"

function vformat :: "memory \<Rightarrow> string \<Rightarrow> va_list \<Rightarrow> string result option" where
  "vformat m [] va = Some (Inr [])"
| "vformat m (c # format) va =
     (if c \<noteq> CHR ''%'' then map_option (\<lambda>r. rbind r (\<lambda>t. Inr (c # t))) (vformat m format va)
      else case parse_directive format va of
             Inl e \<Rightarrow> Some (Inl e)
           | Inr (flags, width, precision, [], va) \<Rightarrow> Some (Inl Out_Of_Bounds)
           | Inr (flags, width, precision, c # format, va) \<Rightarrow>
               (case specifier_text m c flags width precision va of
                  None \<Rightarrow> None
                | Some (Inl e) \<Rightarrow> Some (Inl e)
                | Some (Inr (va, t)) \<Rightarrow> map_option (\<lambda>r. rbind r (\<lambda>t'. Inr (t @ t'))) (vformat m format va)))"
  by pat_completeness auto
termination
  by (relation "measure (\<lambda>(m, format, va). length format)") (auto dest: length_parse_directive)

section \<open>The output loops\<close>

lemma out_chars_append [simp]:
  "out_chars out buffer maxlen (xs @ ys) r = out_chars out buffer maxlen ys (out_chars out buffer maxlen xs r)"
  by (induction out buffer maxlen xs r rule: out_chars.induct) auto

lemma fst_out_chars: "fst (out_chars out buffer maxlen cs r) = fst r + of_nat (length cs)"
  by (induction out buffer maxlen cs r rule: out_chars.induct) auto

lemma out_chars_invariant:
  assumes "\<And>c idx s. P s \<Longrightarrow> P (out c buffer idx maxlen s)" and "P (snd r)"
  shows "P (snd (out_chars out buffer maxlen cs r))"
  using assms(2)
proof (induction cs arbitrary: r)
  case Nil
  then show ?case by (cases r) simp
next
  case (Cons c cs)
  then show ?case using assms(1) by (cases r) simp
qed

subsection \<open>The conversion buffer never overflows\<close>

lemma length_put: "length buf \<le> 32 \<Longrightarrow> length (put c buf) \<le> 32"
  by (simp add: put_def)

lemma length_pad_zeros: "length buf \<le> 32 \<Longrightarrow> length (pad_zeros n buf) \<le> 32"
  by (induction n buf rule: pad_zeros.induct) (subst pad_zeros.simps, simp)

lemma length_ntoa_digits: "length buf < 32 \<Longrightarrow> length (ntoa_digits upper v base buf) \<le> 32"
  by (induction upper v base buf rule: ntoa_digits.induct) (subst ntoa_digits.simps, simp add: Let_def)

lemma length_ntoa_hash: "length buf \<le> 32 \<Longrightarrow> length (ntoa_hash base prec width flags buf) \<le> 32"
  by (simp add: ntoa_hash_def Let_def length_put)

lemma length_ntoa_buf: "length buf \<le> 32 \<Longrightarrow> length (ntoa_buf buf negative base prec width flags) \<le> 32"
  by (simp add: ntoa_buf_def ntoa_sign_def Let_def length_put length_pad_zeros length_ntoa_hash)

subsection \<open>Integers\<close>

lemma out_rev_text:
  assumes "length buf \<le> 32"
  shows "out_rev out buffer maxlen idx s buf width flags = out_chars out buffer maxlen (rev_text buf width flags) (idx, s)"
proof -
  have "unat (of_nat (length buf) :: u64) = length buf" using assms by (simp add: unat_of_nat)
  moreover have "fst (out_chars out buffer maxlen (rev buf) (idx, s)) - idx = of_nat (length buf)"
    by (simp add: fst_out_chars)
  ultimately show ?thesis
    by (auto simp: out_rev_def rev_text_def Let_def split: prod.splits)
qed

lemma ntoa_long_text:
  "ntoa_long out buffer maxlen idx s value negative base prec width flags
     = out_chars out buffer maxlen (ntoa_text value negative base prec width flags) (idx, s)"
  by (simp add: ntoa_long_def ntoa_text_def ntoa_format_def Let_def out_rev_text length_ntoa_buf length_ntoa_digits)

lemma ntoa_long_long_text:
  "ntoa_long_long out buffer maxlen idx s value negative base prec width flags
     = out_chars out buffer maxlen (ntoa_text value negative base prec width flags) (idx, s)"
  by (simp add: ntoa_long_long_def ntoa_text_def ntoa_format_def Let_def out_rev_text length_ntoa_buf length_ntoa_digits)

lemma out_integer_text:
  "out_integer out buffer maxlen idx s c flags width precision a
     = out_chars out buffer maxlen (integer_text c flags width precision a) (idx, s)"
  by (simp add: out_integer_def integer_text_def ntoa_long_text ntoa_long_long_text Let_def split: prod.splits)

lemma out_character_text:
  "out_character out buffer maxlen idx s flags width a
     = out_chars out buffer maxlen (padded flags (unat width - 1) [char_of (unat (ucast a :: u8))]) (idx, s)"
  by (auto simp: out_character_def padded_def Let_def split: prod.splits)

lemma out_pointer_text:
  "out_pointer out buffer maxlen idx s flags precision a
     = out_chars out buffer maxlen (ntoa_text a False 16 precision 16 (flags OR (FLAGS_ZEROPAD OR FLAGS_UPPERCASE))) (idx, s)"
  by (simp add: out_pointer_def ntoa_long_long_text)

lemmas out_text_simps = out_integer_text out_character_text out_pointer_text

subsection \<open>Strings\<close>

text \<open>Two memories with the same string, terminator included, at an address.\<close>

definition same_string :: "memory \<Rightarrow> memory \<Rightarrow> u64 \<Rightarrow> bool" where
  "same_string m m' p \<longleftrightarrow> (\<forall>k. (\<forall>j<k. m (p + of_nat j) \<noteq> 0) \<longrightarrow> m' (p + of_nat k) = m (p + of_nat k))"

lemma same_string_first: "same_string m m' p \<Longrightarrow> m' p = m p"
  unfolding same_string_def by (drule spec [of _ 0]) simp

lemma same_string_rest:
  assumes "same_string m m' p" "m p \<noteq> 0"
  shows "same_string m m' (p + 1)"
  unfolding same_string_def
proof (intro allI impI)
  fix k assume k: "\<forall>j<k. m (p + 1 + of_nat j) \<noteq> 0"
  have "m (p + of_nat j) \<noteq> 0" if "j < Suc k" for j
    using k assms(2) that by (cases j) (auto simp: add.assoc)
  then show "m' (p + 1 + of_nat k) = m (p + 1 + of_nat k)"
    using assms(1) [unfolded same_string_def, rule_format, of "Suc k"] by (simp add: add.assoc)
qed

lemma strnlen_loop_same: "same_string m m' p \<Longrightarrow> strnlen_loop m' p n = strnlen_loop m p n"
proof (induction m p n rule: strnlen_loop.induct)
  case (1 m p n)
  have "m' p = m p" using 1(2) by (rule same_string_first)
  then show ?case
    using 1 same_string_rest [of m m' p] by (subst (1 2) strnlen_loop.simps) simp
qed

lemma string_pad_length_same: "same_string m m' p \<Longrightarrow> string_pad_length m' flags precision p = string_pad_length m flags precision p"
  by (simp add: string_pad_length_def strnlen_s_def strnlen_loop_same)

text \<open>The arguments left over are among those passed.\<close>

lemma set_va_arg: "va_arg va = Inr (a, va') \<Longrightarrow> set va' \<subseteq> set va"
  by (cases va) auto

lemma set_parse_width: "parse_width flags format va = Inr (flags', w, format', va') \<Longrightarrow> set va' \<subseteq> set va"
  by (auto simp: parse_width_def Let_def rbind_eq_Inr split: if_splits prod.splits dest: set_va_arg)

lemma set_parse_precision: "parse_precision flags format va = Inr (flags', w, format', va') \<Longrightarrow> set va' \<subseteq> set va"
  by (auto simp: parse_precision_def Let_def rbind_eq_Inr split: if_splits prod.splits dest: set_va_arg)

lemma set_parse_directive:
  assumes "parse_directive format va = Inr (flags, width, precision, format', va')"
  shows "set va' \<subseteq> set va"
proof -
  obtain f1 t1 f2 t2 va2 f3 t3 where "parse_width f1 t1 va = Inr (f2, width, t2, va2)"
      "parse_precision f2 t2 va2 = Inr (f3, precision, t3, va')"
    using assms by (auto simp: parse_directive_def rbind_eq_Inr case_prod_beta prod_eq_iff)
  then show ?thesis by (blast dest: set_parse_width set_parse_precision)
qed

lemma set_specifier_text:
  "specifier_text m c flags width precision va = Some (Inr (va', t)) \<Longrightarrow> set va' \<subseteq> set va"
  by (cases va) (auto simp: specifier_text_def split: if_splits)

lemma out_specifier_error:
  "specifier_text m c flags width precision va = Some (Inl e)
   \<Longrightarrow> out_specifier out buffer maxlen idx s c flags width precision va = Some (Inl e)"
  by (cases va) (auto simp: specifier_text_def out_specifier_def split: if_splits)

section \<open>Every output function receives the text\<close>

text \<open>All the bytes read of the string at \<open>p\<close> lie in \<open>kept\<close>; a state that agrees with a memory there.\<close>

definition reads_kept :: "u64 set \<Rightarrow> memory \<Rightarrow> u64 \<Rightarrow> bool" where
  "reads_kept kept m p \<longleftrightarrow> (\<forall>k. (\<forall>j<k. m (p + of_nat j) \<noteq> 0) \<longrightarrow> p + of_nat k \<in> kept)"

definition agrees :: "u64 set \<Rightarrow> memory \<Rightarrow> 'd out_state \<Rightarrow> bool" where
  "agrees kept m s \<longleftrightarrow> (\<forall>a\<in>kept. omem s a = m a)"

lemma reads_kept_same: "agrees kept m s \<Longrightarrow> reads_kept kept m p \<Longrightarrow> same_string m (omem s) p"
  by (auto simp: agrees_def reads_kept_def same_string_def)

lemma reads_kept_empty: "m p = 0 \<Longrightarrow> p \<in> kept \<Longrightarrow> reads_kept kept m p"
  unfolding reads_kept_def
proof (intro allI impI)
  fix k assume "m p = 0" "p \<in> kept" "\<forall>j<k. m (p + of_nat j) \<noteq> 0"
  then show "p + of_nat k \<in> kept" by (cases k) auto
qed

lemma reads_kept_rest:
  assumes "reads_kept kept m p" "m p \<noteq> 0"
  shows "reads_kept kept m (p + 1)"
  unfolding reads_kept_def
proof (intro allI impI)
  fix k assume k: "\<forall>j<k. m (p + 1 + of_nat j) \<noteq> 0"
  have "m (p + of_nat j) \<noteq> 0" if "j < Suc k" for j
    using k assms(2) that by (cases j) (auto simp: add.assoc)
  then show "p + 1 + of_nat k \<in> kept"
    using assms(1) [unfolded reads_kept_def, rule_format, of "Suc k"] by (simp add: add.assoc)
qed

text \<open>A run of \<open>n\<close> indices from \<open>idx\<close> on, all allowed.\<close>

definition run_ok :: "(u64 \<Rightarrow> bool) \<Rightarrow> u64 \<Rightarrow> nat \<Rightarrow> bool" where
  "run_ok ok idx n \<longleftrightarrow> (\<forall>i<n. ok (idx + of_nat i))"

lemma run_ok_Suc [simp]: "run_ok ok idx (Suc n) \<longleftrightarrow> ok idx \<and> run_ok ok (idx + 1) n"
  by (auto simp: run_ok_def less_Suc_eq_0_disj add.assoc)

lemma run_ok_0 [simp]: "run_ok ok idx 0"
  by (simp add: run_ok_def)

lemma run_ok_add: "run_ok ok idx (m + n) \<longleftrightarrow> run_ok ok idx m \<and> run_ok ok (idx + of_nat m) n"
  by (induction m arbitrary: idx) (auto simp: add.assoc)

text \<open>
  The contract between the formatter and an output function: the addresses in \<open>kept\<close> hold their
  bytes across every call with an allowed index.
\<close>

locale printf_sink =
  fixes out :: "'d out_fct_type" and buffer :: u64 and maxlen :: u64 and kept :: "u64 set" and ok :: "u64 \<Rightarrow> bool"
  assumes keeps: "a \<in> kept \<Longrightarrow> ok idx \<Longrightarrow> omem (out c buffer idx maxlen s) a = omem s a"
begin

lemma agrees_out: "agrees kept m s \<Longrightarrow> ok idx \<Longrightarrow> agrees kept m (out c buffer idx maxlen s)"
  by (simp add: agrees_def keeps)

lemma agrees_out_chars:
  "agrees kept m s \<Longrightarrow> run_ok ok idx (length cs) \<Longrightarrow> agrees kept m (snd (out_chars out buffer maxlen cs (idx, s)))"
  by (induction cs arbitrary: idx s) (auto simp: agrees_out)

lemma out_string_loop_text:
  assumes "string_chars m flags precision p = Some t"
  shows "\<forall>idx s. agrees kept m s \<longrightarrow> reads_kept kept m p \<longrightarrow> run_ok ok idx (length t) \<longrightarrow>
    out_string_loop out buffer maxlen flags precision p idx s = Some (out_chars out buffer maxlen t (idx, s))"
proof (rule string_chars.raw_induct [OF _ assms], intro allI impI)
  fix rec m flags precision p t idx and s :: "'d out_state"
  assume IH: "\<And>m flags precision p t. rec m flags precision p = Some t \<Longrightarrow>
      \<forall>idx s. agrees kept m s \<longrightarrow> reads_kept kept m p \<longrightarrow> run_ok ok idx (length t) \<longrightarrow>
        out_string_loop out buffer maxlen flags precision p idx s = Some (out_chars out buffer maxlen t (idx, s))"
    and body: "(if m p \<noteq> 0 \<and> (\<not> flag flags FLAGS_PRECISION \<or> precision \<noteq> 0)
      then Option.bind (rec m flags (if flag flags FLAGS_PRECISION then precision - 1 else precision) (p + 1))
             (\<lambda>t. Some (char_of (unat (m p)) # t)) else Some []) = Some t"
    and a: "agrees kept m s" "reads_kept kept m p" and ok: "run_ok ok idx (length t)"
  have p: "omem s p = m p" using same_string_first [OF reads_kept_same [OF a]] .
  show "out_string_loop out buffer maxlen flags precision p idx s = Some (out_chars out buffer maxlen t (idx, s))"
  proof (cases "m p \<noteq> 0 \<and> (\<not> flag flags FLAGS_PRECISION \<or> precision \<noteq> 0)")
    case True
    then obtain t' where t': "rec m flags (if flag flags FLAGS_PRECISION then precision - 1 else precision) (p + 1) = Some t'"
        "t = char_of (unat (m p)) # t'"
      using body by (auto simp: bind_eq_Some_conv)
    show ?thesis
      using IH [OF t'(1)] True p t'(2) ok agrees_out [OF a(1)] reads_kept_rest [OF a(2)]
      by (subst out_string_loop.simps) simp
  next
    case False
    then show ?thesis using body p by (subst out_string_loop.simps) (auto split: if_splits)
  qed
qed

lemma out_string_text:
  assumes "string_chars m flags precision p = Some t" "agrees kept m s" "reads_kept kept m p"
    "run_ok ok idx (length (padded flags (unat width - unat (string_pad_length m flags precision p)) t))"
  shows "out_string out buffer maxlen idx s flags width precision p = Some (out_chars out buffer maxlen
    (padded flags (unat width - unat (string_pad_length m flags precision p)) t) (idx, s))"
proof -
  let ?pad = "replicate (unat width - unat (string_pad_length m flags precision p)) CHR '' ''"
  obtain idx' s' where r: "(if \<not> flag flags FLAGS_LEFT then out_chars out buffer maxlen ?pad (idx, s) else (idx, s)) = (idx', s')"
    by fastforce
  have "agrees kept m s' \<and> run_ok ok idx' (length t)"
    using r assms(2,4) agrees_out_chars [of m s idx ?pad] fst_out_chars [of out buffer maxlen ?pad "(idx, s)"]
    by (auto simp: padded_def run_ok_add split: if_splits)
  then have "out_string_loop out buffer maxlen flags precision p idx' s' = Some (out_chars out buffer maxlen t (idx', s'))"
    using out_string_loop_text [OF assms(1)] assms(3) by blast
  then show ?thesis
    using r string_pad_length_same [OF reads_kept_same [OF assms(2,3)]]
    by (auto simp: out_string_def padded_def Let_def split: if_splits prod.splits)
qed

lemma out_specifier_text:
  assumes "agrees kept m s" "\<forall>p\<in>set va. reads_kept kept m p"
    "specifier_text m c flags width precision va = Some (Inr (va', t))" "run_ok ok idx (length t)"
  shows "out_specifier out buffer maxlen idx s c flags width precision va
    = Some (Inr (va', out_chars out buffer maxlen t (idx, s)))"
proof -
  note defs = specifier_text_def out_specifier_def
  consider "integer_specifier c" | "\<not> integer_specifier c" "c = CHR ''s''" | "\<not> integer_specifier c" "c \<noteq> CHR ''s''" by blast
  then show ?thesis
  proof cases
    case 1
    with assms(3) show ?thesis by (cases va) (simp_all add: defs out_text_simps)
  next
    case 2
    with assms show ?thesis by (cases va) (auto simp: defs out_string_text, metis surj_pair)
  next
    case 3
    with assms(3) show ?thesis by (cases va) (auto simp: defs out_text_simps split: if_splits)
  qed
qed

theorem vsnprintf_loop_text:
  assumes "agrees kept m s" "\<forall>p\<in>set va. reads_kept kept m p" "run_ok ok idx (length t)"
  shows "vformat m format va = Some (Inr t) \<Longrightarrow>
    vsnprintf_loop out buffer maxlen format va idx s = Some (Inr (out_chars out buffer maxlen t (idx, s)))"
  using assms
proof (induction m format va arbitrary: idx s t rule: vformat.induct)
  case (1 m va)
  then show ?case by simp
next
  case (2 m c format va)
  show ?case
  proof (cases "c = CHR ''%''")
    case False
    then obtain t' where "vformat m format va = Some (Inr t')" "t = c # t'"
      using 2(3) by (auto simp: rbind_eq_Inr)
    with False show ?thesis using 2(1) [OF False] agrees_out [OF 2(4)] 2(5,6) by simp
  next
    case True
    then obtain flags width precision c' format' va' where
      d: "parse_directive format va = Inr (flags, width, precision, c' # format', va')"
      using 2(3) by (auto split: sum.splits list.splits prod.splits)
    have "set va' \<subseteq> set va" using set_parse_directive [OF d] .
    then have va': "\<forall>p\<in>set va'. reads_kept kept m p" using 2(5) by blast
    obtain va'' t1 t2 where t: "specifier_text m c' flags width precision va' = Some (Inr (va'', t1))"
        "vformat m format' va'' = Some (Inr t2)" "t = t1 @ t2"
      using 2(3) True d by (auto simp: rbind_eq_Inr split: option.splits sum.splits)
    have ok: "run_ok ok idx (length t1)" "run_ok ok (idx + of_nat (length t1)) (length t2)"
      using 2(6) t(3) by (simp_all add: run_ok_add)
    note o = out_specifier_text [OF 2(4) va' t(1) ok(1)]
    obtain idx' s' where r: "out_chars out buffer maxlen t1 (idx, s) = (idx', s')" by fastforce
    have "agrees kept m s'" using agrees_out_chars [OF 2(4) ok(1)] r by simp
    moreover have "run_ok ok idx' (length t2)" using ok(2) fst_out_chars [of out buffer maxlen t1 "(idx, s)"] r by simp
    moreover have "\<forall>p\<in>set va''. reads_kept kept m p" using set_specifier_text [OF t(1)] va' by blast
    ultimately show ?thesis
      using True d o r t 2(2) [OF _ d refl refl refl refl refl t(1) refl refl t(2)] by simp
  qed
qed

end

text \<open>An output function that never changes the strings, at any index: errors come through as well.\<close>

locale printf_pure_sink = printf_sink +
  assumes always: "ok idx"
begin

lemma run_always [simp]: "run_ok ok idx n"
  by (simp add: run_ok_def always)

lemma vsnprintf_loop_error:
  assumes "agrees kept m s" "\<forall>p\<in>set va. reads_kept kept m p"
  shows "vformat m format va = Some (Inl e) \<Longrightarrow> vsnprintf_loop out buffer maxlen format va idx s = Some (Inl e)"
  using assms
proof (induction m format va arbitrary: idx s rule: vformat.induct)
  case (1 m va)
  then show ?case by simp
next
  case (2 m c format va)
  show ?case
  proof (cases "c = CHR ''%''")
    case False
    then have "vformat m format va = Some (Inl e)" using 2(3) by (auto simp: rbind_eq_Inl)
    with False show ?thesis using 2(1) [OF False] agrees_out [OF 2(4) always] 2(5) by simp
  next
    case True
    consider "parse_directive format va = Inl e"
      | flags width precision va' where "parse_directive format va = Inr (flags, width, precision, [], va')" "e = Out_Of_Bounds"
      | flags width precision c' format' va' where "parse_directive format va = Inr (flags, width, precision, c' # format', va')"
      using 2(3) True by (auto split: sum.splits list.splits prod.splits)
    then show ?thesis
    proof cases
      case 3
      have va': "\<forall>p\<in>set va'. reads_kept kept m p" using set_parse_directive [OF 3] 2(5) by blast
      show ?thesis
      proof (cases "specifier_text m c' flags width precision va' = Some (Inl e)")
        case t: True
        then show ?thesis using True 3 out_specifier_error [OF t, of out buffer maxlen idx s] by simp
      next
        case False
        then obtain va'' t where t: "specifier_text m c' flags width precision va' = Some (Inr (va'', t))"
            "vformat m format' va'' = Some (Inl e)"
          using 2(3) True 3 by (auto simp: rbind_eq_Inl split: option.splits sum.splits)
        obtain idx' s' where r: "out_chars out buffer maxlen t (idx, s) = (idx', s')" by fastforce
        have "agrees kept m s'" using agrees_out_chars [OF 2(4), of idx t] r by simp
        moreover have "\<forall>p\<in>set va''. reads_kept kept m p" using set_specifier_text [OF t(1)] va' by blast
        ultimately show ?thesis
          using True 3 r t 2(2) [OF _ 3 refl refl refl refl refl t(1) refl refl t(2)]
            out_specifier_text [OF 2(4) va' t(1) run_always, of idx] by simp
      qed
    qed (use True in simp_all)
  qed
qed

end

end
