(* ===== verification/Printf_Correct.thy ===== *)
theory Printf_Correct
  imports Printf_Text
begin

text \<open>
  The properties of \<open>printf.c\<close>: the text reaches the buffer and nothing else is written, a
  call with a complete format returns, numbers can be read back from their digits, and a format that ends inside a
  directive is read past its end.
\<close>

section \<open>The three output functions\<close>

interpretation null_sink: printf_pure_sink out_null buffer maxlen UNIV "\<lambda>_. True" for buffer maxlen
  by unfold_locales (simp_all add: out_null_def)

interpretation fct_sink: printf_pure_sink "out_fct fct" buffer maxlen UNIV "\<lambda>_. True" for fct buffer maxlen
  by unfold_locales (simp_all add: out_fct_def)

text \<open>The buffer, when the text has at most \<open>limit\<close> characters: only they are written.\<close>

interpretation buffer_sink: printf_sink out_buffer buffer maxlen "{a. min (unat maxlen) limit \<le> unat (a - buffer)}"
    "\<lambda>idx. unat idx < limit \<or> maxlen \<le> idx" for buffer maxlen limit
  by unfold_locales (auto simp: out_buffer_def word_less_nat_alt word_le_nat_alt)

lemma reads_kept_UNIV [simp]: "reads_kept UNIV m p"
  by (simp add: reads_kept_def)

lemma agrees_self [simp]: "agrees kept (omem s) s"
  by (simp add: agrees_def)

section \<open>What a call leaves alone\<close>

lemma out_string_loop_invariant:
  assumes inv: "\<And>c idx s. P s \<Longrightarrow> P (out c buffer idx maxlen s)"
    and r: "out_string_loop out buffer maxlen flags precision p idx s = Some r" and s: "P s"
  shows "P (snd r)"
proof -
  have "(\<forall>c idx s. P s \<longrightarrow> P (out c buffer idx maxlen s)) \<longrightarrow> P s \<longrightarrow> P (snd r)"
  proof (rule out_string_loop.raw_induct [OF _ r], intro impI)
    fix rec out buffer maxlen flags precision p idx s r
    assume IH: "\<And>out buffer maxlen flags precision p idx s r. rec out buffer maxlen flags precision p idx s = Some r \<Longrightarrow>
        (\<forall>c idx s. P s \<longrightarrow> P (out c buffer idx maxlen s)) \<longrightarrow> P s \<longrightarrow> P (snd r)"
      and body: "(if omem s p \<noteq> 0 \<and> (\<not> flag flags FLAGS_PRECISION \<or> precision \<noteq> 0)
        then rec out buffer maxlen flags (if flag flags FLAGS_PRECISION then precision - 1 else precision) (p + 1) (idx + 1)
               (out (char_of (unat (omem s p))) buffer idx maxlen s)
        else Some (idx, s)) = Some r"
      and inv: "\<forall>c idx s. P s \<longrightarrow> P (out c buffer idx maxlen s)" and "P s"
    then show "P (snd r)" by (auto split: if_splits)
  qed
  with inv s show ?thesis by blast
qed

lemma out_string_invariant:
  assumes inv: "\<And>c idx s. P s \<Longrightarrow> P (out c buffer idx maxlen s)"
    and "out_string out buffer maxlen idx s flags width precision p = Some r" and s: "P s"
  shows "P (snd r)"
proof -
  let ?pad = "replicate (unat width - unat (string_pad_length (omem s) flags precision p)) CHR '' ''"
  obtain idx' s' where 1: "(if \<not> flag flags FLAGS_LEFT then out_chars out buffer maxlen ?pad (idx, s) else (idx, s)) = (idx', s')"
    by fastforce
  obtain r' where 2: "out_string_loop out buffer maxlen flags precision p idx' s' = Some r'"
    and 3: "r = (if flag flags FLAGS_LEFT then out_chars out buffer maxlen ?pad r' else r')"
    using assms(2) 1 by (auto simp: out_string_def Let_def split: option.splits if_splits prod.splits)
  have "P s'" using 1 s out_chars_invariant [of P out buffer maxlen "(idx, s)" ?pad] inv by (auto split: if_splits)
  then have "P (snd r')" by (intro out_string_loop_invariant [of P out buffer maxlen, OF _ 2] inv)
  then show ?thesis using 3 out_chars_invariant [of P out buffer maxlen r' ?pad] inv by (auto split: if_splits)
qed

lemma out_specifier_invariant:
  assumes inv: "\<And>c idx s. P s \<Longrightarrow> P (out c buffer idx maxlen s)" and s: "P s"
    and r: "out_specifier out buffer maxlen idx s c flags width precision va = Some (Inr (va', idx', s'))"
  shows "P s'"
proof -
  have "P (snd (out_chars out buffer maxlen t (idx, s)))" for t
    using out_chars_invariant [of P out buffer maxlen "(idx, s)" t] inv s by simp
  then have chars: "P s'" if "out_chars out buffer maxlen t (idx, s) = (idx', s')" for t using that by (metis snd_conv)
  consider "integer_specifier c" | "\<not> integer_specifier c" "c = CHR ''s''" | "\<not> integer_specifier c" "c \<noteq> CHR ''s''" by blast
  then show ?thesis
  proof cases
    case 1
    with r show ?thesis by (cases va) (auto simp: out_specifier_def out_text_simps intro: chars)
  next
    case 2
    with r obtain p where "out_string out buffer maxlen idx s flags width precision p = Some (idx', s')"
      by (cases va) (auto simp: out_specifier_def)
    then have "P (snd (idx', s'))" using out_string_invariant [of P out buffer maxlen] inv s by blast
    then show ?thesis by simp
  next
    case 3
    with r show ?thesis
      by (cases va) (auto simp: out_specifier_def out_text_simps inv s intro: chars split: if_splits)
  qed
qed

lemma vsnprintf_loop_invariant:
  assumes inv: "\<And>c idx s. P s \<Longrightarrow> P (out c buffer idx maxlen s)"
  shows "vsnprintf_loop out buffer maxlen format va idx s = Some (Inr r) \<Longrightarrow> P s \<Longrightarrow> P (snd r)"
  using inv
proof (induction out buffer maxlen format va idx s rule: vsnprintf_loop.induct)
  case (1 out buffer maxlen va idx s)
  then show ?case by auto
next
  case (2 out buffer maxlen c format va idx s)
  show ?case
  proof (cases "c = CHR ''%''")
    case False
    with 2 show ?thesis by simp
  next
    case True
    then obtain flags width precision c' format' va' va'' idx' s' where
      d: "parse_directive format va = Inr (flags, width, precision, c' # format', va')" and
      o: "out_specifier out buffer maxlen idx s c' flags width precision va' = Some (Inr (va'', idx', s'))" and
      l: "vsnprintf_loop out buffer maxlen format' va'' idx' s' = Some (Inr r)"
      using 2(3) by (auto split: sum.splits list.splits prod.splits option.splits)
    have "P s'" by (rule out_specifier_invariant [of P out buffer maxlen, OF 2(5) 2(4) o])
    then show ?thesis using 2(2) [OF _ d refl refl refl refl refl o refl refl refl l] True 2(5) by blast
  qed
qed

text \<open>C22. A call of \<open>snprintf\<close> that completes has changed no byte outside the \<open>count\<close> bytes of its buffer, whatever the format and the
  arguments are, strings that overlap the buffer included.\<close>

theorem snprintf_within_buffer:
  assumes "snprintf buffer count format va s = Some (Inr (ret, s'))" and "count \<le> a - buffer"
  shows "omem s' a = omem s a"
proof -
  let ?out = "if buffer = 0 then out_null else out_buffer" and ?P = "\<lambda>t. omem t a = omem s a"
  have inv: "?P (?out c buffer idx count t)" if "?P t" for c idx t
    using that assms(2) by (auto simp: out_null_def out_buffer_def)
  obtain idx t where l: "vsnprintf_loop ?out buffer count format va 0 s = Some (Inr (idx, t))"
    and s': "s' = ?out CHR 0x00 buffer (if idx < count then idx else count - 1) count t"
    using assms(1) by (auto simp: snprintf_def vsnprintf_internal_def Let_def rbind_eq_Inr)
  have "?P (snd (idx, t))" by (rule vsnprintf_loop_invariant [of ?P ?out buffer count, OF inv l]) simp_all
  then show ?thesis unfolding s' by (intro inv) simp
qed

theorem snprintf_within_buffer_witness:
  "\<exists>ret s'. snprintf 0x1000 2 ''abc'' [] \<lparr>omem = (\<lambda>_. 7), odev = ()\<rparr> = Some (Inr (ret, s'))
     \<and> omem s' 0x1002 = 7 \<and> omem s' 0x1001 = 0"
proof -
  let ?s = "\<lparr>omem = (\<lambda>_. 7 :: u8), odev = ()\<rparr>"
  obtain ret s' where r: "snprintf 0x1000 2 ''abc'' [] ?s = Some (Inr (ret, s'))" "omem s' 0x1001 = 0"
    by (simp add: snprintf_def vsnprintf_internal_def out_buffer_def)
  have "omem s' 0x1002 = omem ?s 0x1002" by (rule snprintf_within_buffer [OF r(1)]) simp
  with r show ?thesis by auto
qed

section \<open>The text in the buffer\<close>

lemma out_buffer_chars:
  assumes "unat idx + length t < 2 ^ 64"
  shows "snd (out_chars out_buffer buffer maxlen t (idx, s)) =
    s\<lparr>omem := \<lambda>a. if unat idx \<le> unat (a - buffer) \<and> unat (a - buffer) < unat idx + length t \<and> a - buffer < maxlen
                 then of_char (t ! (unat (a - buffer) - unat idx)) else omem s a\<rparr>"
  using assms
proof (induction t arbitrary: idx s)
  case Nil
  show ?case by (intro out_state.equality) (auto simp: fun_eq_iff)
next
  case (Cons c t)
  have idx: "unat (idx + 1) = Suc (unat idx)" using Cons.prems by (simp add: unat_add_no_wrap)
  have at: "a = buffer + idx \<longleftrightarrow> unat (a - buffer) = unat idx" for a
    by (metis add_diff_cancel_left' diff_add_cancel add.commute word_unat_eq_iff)
  show ?case
    unfolding out_chars.simps
    by (subst Cons.IH, use Cons.prems idx in simp)
      (rule out_state.equality; auto simp: out_buffer_def idx at nth_Cons' fun_eq_iff Suc_le_eq word_less_nat_alt)
qed


lemma out_buffer_terminator:
  assumes "length t < 2 ^ 64" and n: "n = (of_nat (length t) :: u64)" and "0 < count"
  shows "unat (if n < count then n else count - 1) = min (length t) (unat count - 1)"
    "(if n < count then n else count - 1) < count"
proof -
  have u: "unat n = length t" "unat (count - 1) = unat count - 1"
    using assms by (simp_all add: unat_of_nat unat_minus_one)
  show "unat (if n < count then n else count - 1) = min (length t) (unat count - 1)"
    using u assms(3) by (auto simp: word_less_nat_alt)
  show "(if n < count then n else count - 1) < count"
    using u assms(3) by (auto simp: word_less_nat_alt)
qed

lemma snprintf_text:
  assumes "buffer \<noteq> 0" and "vformat (omem s) format va = Some (Inr t)" and "length t < 2 ^ 64" and "0 < count"
    and "\<forall>p\<in>set va. reads_kept {a. min (unat count) (length t) \<le> unat (a - buffer)} (omem s) p"
  shows "\<exists>s'. snprintf buffer count format va s = Some (Inr (sint (of_nat (length t) :: u32), s')) \<and> odev s' = odev s
    \<and> (\<forall>a. omem s' a =
          (let i = unat (a - buffer); n = min (length t) (unat count - 1)
           in if i < n then of_char (t ! i) else if i = n then 0 else omem s a))"
proof -
  let ?n = "of_nat (length t) :: u64" and ?r = "out_chars out_buffer buffer count t (0, s)"
  let ?e = "if ?n < count then ?n else count - 1"
  have loop: "vsnprintf_loop out_buffer buffer count format va 0 s = Some (Inr ?r)"
    by (rule buffer_sink.vsnprintf_loop_text [OF agrees_self assms(5) _ assms(2)])
      (use assms(3) in \<open>simp add: run_ok_def unat_of_nat\<close>)
  obtain u where r: "?r = (?n, u)"
    using fst_out_chars [of out_buffer buffer count t "(0, s)"] by (metis add_0 fst_conv prod.collapse)
  have n: "(ucast ?n :: u32) = of_nat (length t)"
    using assms(3) by (simp add: unsigned_of_nat take_bit_nat_eq_self)
  have e: "unat ?e = min (length t) (unat count - 1)" "?e < count" using out_buffer_terminator [OF assms(3) refl assms(4)] by blast+
  have at: "a = buffer + ?e \<longleftrightarrow> unat (a - buffer) = unat ?e" for a
    by (metis add_diff_cancel_left' diff_add_cancel add.commute word_unat_eq_iff)
  have "snprintf buffer count format va s
      = Some (Inr (sint (of_nat (length t) :: u32), out_buffer CHR 0x00 buffer ?e count u))"
    using assms(1) loop r n by (simp add: snprintf_def vsnprintf_internal_def)
  moreover have "omem (out_buffer CHR 0x00 buffer ?e count u) a =
      (let i = unat (a - buffer); n = min (length t) (unat count - 1)
       in if i < n then of_char (t ! i) else if i = n then 0 else omem s a)" for a
    using e at [of a] assms(3,4) r out_buffer_chars [of 0 t buffer count s]
    by (auto simp: out_buffer_def Let_def word_less_nat_alt)
  moreover have "odev (out_buffer CHR 0x00 buffer ?e count u) = odev s"
    using assms(3) r out_buffer_chars [of 0 t buffer count s] by (simp add: out_buffer_def)
  ultimately show ?thesis by blast
qed


text \<open>C6. \<open>snprintf\<close> puts the text of the format and its arguments into the buffer, cut to \<open>count - 1\<close>
  characters, with a null character after it; it returns the length of the whole text and changes
  nothing else. The strings of the arguments must lie outside the part of the buffer that the text takes.\<close>

theorem snprintf_stores_text:
  assumes "buffer \<noteq> 0" and "vformat (omem s) format va = Some (Inr t)" and "length t < 2 ^ 64" and "0 < count"
    and "\<forall>p\<in>set va. reads_kept {a. min (unat count) (length t) \<le> unat (a - buffer)} (omem s) p"
  shows "\<exists>s'. snprintf buffer count format va s = Some (Inr (sint (of_nat (length t) :: u32), s')) \<and> odev s' = odev s
    \<and> (\<forall>a. omem s' a =
          (let i = unat (a - buffer); n = min (length t) (unat count - 1)
           in if i < n then of_char (t ! i) else if i = n then 0 else omem s a))"
  by (rule snprintf_text [OF assms])

theorem snprintf_stores_text_witness:
  "\<exists>s'. snprintf 0x1000 8 ''n=%d'' [- 5] \<lparr>omem = (\<lambda>_. 0), odev = ()\<rparr> = Some (Inr (4, s'))
     \<and> omem s' 0x1002 = of_char CHR ''-'' \<and> omem s' 0x1004 = 0"
proof -
  let ?s = "\<lparr>omem = (\<lambda>_. 0 :: u8), odev = ()\<rparr>"
  have t: "vformat (omem ?s) ''n=%d'' [- 5] = Some (Inr ''n=-5'')" by code_simp
  have rk: "\<forall>p\<in>set [- 5]. reads_kept {a. min (unat (8 :: u64)) (length ''n=-5'') \<le> unat (a - 0x1000)} (omem ?s) p"
    by (simp add: reads_kept_empty)
  show ?thesis
    using snprintf_stores_text [OF _ t _ _ rk] by (fastforce simp: Let_def)
qed

section \<open>A call with a complete format returns\<close>

text \<open>
  What a format asks of its arguments, by the grammar of a directive: flags, width, precision, length
  and the letter of the conversion, with \<open>*\<close> for a width or a precision that is an argument.
  \<open>format_slots\<close> is \<open>None\<close> when the format ends inside a directive.
\<close>

datatype slot = Number | Text

definition number_slots :: "string \<Rightarrow> slot list \<times> string" where
  "number_slots f = (if take 1 f = ''*'' then ([Number], drop 1 f) else ([], dropWhile is_digit f))"

definition skip_length :: "string \<Rightarrow> string" where
  "skip_length f =
     (if take 2 f \<in> {''ll'', ''hh''} then drop 2 f
      else if take 1 f \<in> {''l'', ''h'', ''t'', ''j'', ''z''} then drop 1 f else f)"

definition letter_slots :: "char \<Rightarrow> slot list" where
  "letter_slots c = (if c = CHR ''s'' then [Text] else if c \<in> set ''diuxXobcp'' then [Number] else [])"

definition directive_slots :: "string \<Rightarrow> (slot list \<times> char \<times> string) option" where
  "directive_slots f =
     (let f = dropWhile (\<lambda>c. c \<in> set ''0-+ #'') f;
          (w, f) = number_slots f;
          (p, f) = (if take 1 f = ''.'' then number_slots (drop 1 f) else ([], f))
      in case skip_length f of [] \<Rightarrow> None | c # f \<Rightarrow> Some (w @ p, c, f))"

lemma length_number_slots: "length (snd (number_slots f)) \<le> length f"
  by (simp add: number_slots_def length_dropWhile_le)

lemma length_skip_length: "length (skip_length f) \<le> length f"
  by (simp add: skip_length_def)

lemma length_directive_slots:
  assumes "directive_slots f = Some (ks, c, f')"
  shows "length f' < length f"
proof -
  define f1 where "f1 = dropWhile (\<lambda>c. c \<in> set ''0-+ #'') f"
  define f2 where "f2 = snd (number_slots f1)"
  define f3 where "f3 = snd (if take 1 f2 = ''.'' then number_slots (drop 1 f2) else ([], f2))"
  have "skip_length f3 = c # f'"
    using assms by (auto simp: directive_slots_def f1_def f2_def f3_def Let_def split: prod.splits list.splits if_splits)
  then have "length f' < length f3" using length_skip_length [of f3] by simp
  also have "length f3 \<le> length f2"
    using length_number_slots [of "drop 1 f2"] by (auto simp: f3_def)
  also have "length f2 \<le> length f1" unfolding f2_def by (rule length_number_slots)
  also have "length f1 \<le> length f" unfolding f1_def by (rule length_dropWhile_le)
  finally show ?thesis .
qed

function format_slots :: "string \<Rightarrow> slot list option" where
  "format_slots [] = Some []"
| "format_slots (c # f) =
     (if c \<noteq> CHR ''%'' then format_slots f
      else case directive_slots f of
             None \<Rightarrow> None
           | Some (ks, c, f) \<Rightarrow> map_option (\<lambda>ls. ks @ letter_slots c @ ls) (format_slots f))"
  by pat_completeness auto
termination
  by (relation "measure length") (auto dest: length_directive_slots)

text \<open>The arguments are there, and each one for a \<open>%s\<close> points to a null-terminated string that does not
  run past the end of the address space.\<close>

definition terminated :: "memory \<Rightarrow> u64 \<Rightarrow> bool" where
  "terminated m p \<longleftrightarrow> (\<exists>k. unat p + k < 2 ^ 64 \<and> m (p + of_nat k) = 0)"

fun slots_ok :: "memory \<Rightarrow> slot list \<Rightarrow> va_list \<Rightarrow> bool" where
  "slots_ok m [] va \<longleftrightarrow> True"
| "slots_ok m (k # ks) [] \<longleftrightarrow> False"
| "slots_ok m (k # ks) (a # va) \<longleftrightarrow> (k = Text \<longrightarrow> terminated m a) \<and> slots_ok m ks va"

lemma slots_ok_append: "slots_ok m (ks @ ls) va \<longleftrightarrow> slots_ok m ks va \<and> slots_ok m ls (drop (length ks) va)"
  by (induction m ks va rule: slots_ok.induct) (cases ls; auto)+

lemma slots_ok_length: "slots_ok m ks va \<Longrightarrow> length ks \<le> length va"
  by (induction m ks va rule: slots_ok.induct) auto

text \<open>The parser of the code follows the grammar.\<close>

lemma snd_parse_flags: "snd (parse_flags flags f) = dropWhile (\<lambda>c. c \<in> set ''0-+ #'') f"
  by (induction flags f rule: parse_flags.induct) auto

lemma snd_atoi: "snd (atoi f) = dropWhile is_digit f"
proof -
  have "snd (atoi_loop i f) = dropWhile is_digit f" for i
    by (induction i f rule: atoi_loop.induct) auto
  then show ?thesis by (simp add: atoi_def)
qed

lemma dropWhile_not_digit: "\<not> is_digit (deref f) \<Longrightarrow> dropWhile is_digit f = f"
  by (cases f) auto

lemma parse_width_slots:
  assumes "number_slots f = (ks, f')" "length ks \<le> length va"
  shows "\<exists>flags' w. parse_width flags f va = Inr (flags', w, f', drop (length ks) va)"
proof (cases "take 1 f = ''*''")
  case True
  then obtain g where "f = CHR ''*'' # g" by (cases f) auto
  then show ?thesis using assms by (cases va) (auto simp: number_slots_def parse_width_def is_digit_def Let_def)
next
  case False
  then have "f = [] \<or> deref f \<noteq> CHR ''*''" by (cases f) auto
  then show ?thesis using False assms snd_atoi [of f] dropWhile_not_digit [of f]
    by (cases f) (auto simp: number_slots_def parse_width_def case_prod_beta)
qed

lemma parse_precision_slots:
  assumes "(if take 1 f = ''.'' then number_slots (drop 1 f) else ([], f)) = (ks, f')" "length ks \<le> length va"
  shows "\<exists>flags' w. parse_precision flags f va = Inr (flags', w, f', drop (length ks) va)"
proof (cases "take 1 f = ''.''")
  case False
  then show ?thesis using assms by (cases f) (auto simp: parse_precision_def)
next
  case True
  then obtain g where f: "f = CHR ''.'' # g" by (cases f) auto
  then have g: "number_slots g = (ks, f')" using assms(1) by simp
  show ?thesis
  proof (cases "take 1 g = ''*''")
    case True
    then obtain h where "g = CHR ''*'' # h" by (cases g) auto
    then show ?thesis using f g assms(2) by (cases va) (auto simp: number_slots_def parse_precision_def is_digit_def Let_def)
  next
    case False
    then have "g = [] \<or> deref g \<noteq> CHR ''*''" by (cases g) auto
    then show ?thesis using f g False snd_atoi [of g] dropWhile_not_digit [of g]
      by (cases g) (auto simp: number_slots_def parse_precision_def case_prod_beta Let_def)
  qed
qed

lemma snd_parse_length: "snd (parse_length flags f) = skip_length f"
proof (cases f)
  case Nil
  then show ?thesis by (simp add: parse_length_def skip_length_def)
next
  case (Cons c g)
  then show ?thesis by (cases g) (auto simp: parse_length_def skip_length_def numeral_2_eq_2)
qed

lemma parse_directive_slots:
  assumes "directive_slots f = Some (ks, c, f')" "length ks \<le> length va"
  shows "\<exists>flags width precision. parse_directive f va = Inr (flags, width, precision, c # f', drop (length ks) va)"
proof -
  obtain fl f1 where 1: "parse_flags 0 f = (fl, f1)" by fastforce
  obtain w f2 where 2: "number_slots f1 = (w, f2)" by fastforce
  obtain p f3 where 3: "(if take 1 f2 = ''.'' then number_slots (drop 1 f2) else ([], f2)) = (p, f3)" by fastforce
  have f1: "f1 = dropWhile (\<lambda>c. c \<in> set ''0-+ #'') f" using snd_parse_flags [of 0 f] 1 by simp
  have r: "ks = w @ p" "skip_length f3 = c # f'"
    using assms(1) 2 3 unfolding directive_slots_def f1 [symmetric] by (auto split: list.splits if_splits)
  then have len: "length w \<le> length va" "length p \<le> length (drop (length w) va)" using assms(2) by simp_all
  obtain fl2 width where "parse_width fl f1 va = Inr (fl2, width, f2, drop (length w) va)"
    using parse_width_slots [OF 2 len(1)] by blast
  moreover obtain fl3 precision where "parse_precision fl2 f2 (drop (length w) va) = Inr (fl3, precision, f3, drop (length ks) va)"
    using parse_precision_slots [OF 3 len(2), of fl2] r(1) by (auto simp: add.commute)
  moreover have "snd (parse_length fl3 f3) = c # f'" using r(2) by (simp add: snd_parse_length)
  ultimately show ?thesis using 1 by (simp add: parse_directive_def case_prod_beta)
qed

lemma string_chars_total: "m (p + of_nat k) = 0 \<Longrightarrow> \<exists>t. string_chars m flags precision p = Some t"
proof (induction k arbitrary: p precision)
  case 0
  then show ?case by (subst string_chars.simps) simp
next
  case (Suc k)
  then have "m (p + 1 + of_nat k) = 0" by (simp add: add.assoc)
  from Suc.IH [OF this] show ?case by (subst string_chars.simps) (auto simp: bind_eq_Some_conv)
qed

lemma specifier_text_slots:
  assumes "slots_ok m (letter_slots c) va"
  shows "\<exists>t. specifier_text m c flags width precision va = Some (Inr (drop (length (letter_slots c)) va, t))"
proof (cases "c = CHR ''s''")
  case True
  then obtain p va' where va: "va = p # va'" "terminated m p" using assms by (cases va) (auto simp: letter_slots_def)
  then obtain t where "string_chars m flags precision p = Some t"
    using string_chars_total [of m p _ flags precision] by (auto simp: terminated_def)
  then show ?thesis using va True by (simp add: specifier_text_def letter_slots_def integer_specifier_def)
next
  case False
  then show ?thesis
    using slots_ok_length [OF assms] by (cases va) (auto simp: specifier_text_def letter_slots_def integer_specifier_def)
qed

lemma vformat_slots:
  assumes "format_slots format = Some ks" "slots_ok m ks va"
  shows "\<exists>t. vformat m format va = Some (Inr t)"
  using assms
proof (induction format arbitrary: ks va rule: format_slots.induct)
  case (2 c format)
  show ?case
  proof (cases "c = CHR ''%''")
    case False
    with 2 show ?thesis by fastforce
  next
    case True
    with 2(3) obtain ds c' f' ls where d: "directive_slots format = Some (ds, c', f')" "format_slots f' = Some ls"
        "ks = ds @ letter_slots c' @ ls"
      by (auto split: option.splits)
    let ?va = "drop (length ds) va"
    have ok: "slots_ok m ds va" "slots_ok m (letter_slots c') ?va" "slots_ok m ls (drop (length (letter_slots c')) ?va)"
      using 2(4) d(3) by (auto simp: slots_ok_append)
    obtain flags width precision where "parse_directive format va = Inr (flags, width, precision, c' # f', ?va)"
      using parse_directive_slots [OF d(1) slots_ok_length [OF ok(1)]] by blast
    moreover obtain t where "specifier_text m c' flags width precision ?va = Some (Inr (drop (length (letter_slots c')) ?va, t))"
      using specifier_text_slots [OF ok(2)] by blast
    moreover obtain t' where "vformat m f' (drop (length (letter_slots c')) ?va) = Some (Inr t')"
      using 2(2) [OF _ d(1) refl refl d(2) ok(3)] True by blast
    ultimately show ?thesis using True by simp
  qed
qed simp

lemma out_fct_fold:
  "snd (out_chars (out_fct fct) buffer maxlen t (idx, s)) = s\<lparr>odev := fold fct (filter (\<lambda>c. c \<noteq> CHR 0x00) t) (odev s)\<rparr>"
  by (induction t arbitrary: idx s) (auto simp: out_fct_def)

text \<open>C23. Formatted output to a function runs to its end whenever the format has no unfinished directive, every
  argument its directives ask for was passed and the strings among them are null-terminated: the call
  returns, never reads past the format or the arguments, hands the function the characters of the text
  in order and leaves memory alone.\<close>

theorem fctprintf_completes:
  assumes "format_slots format = Some ks" and "slots_ok (omem s) ks va" and "wrap \<noteq> 0"
  shows "\<exists>t. vformat (omem s) format va = Some (Inr t) \<and> fctprintf fct wrap format va s =
    Some (Inr (sint (of_nat (length t) :: u32), s\<lparr>odev := fold fct (filter (\<lambda>c. c \<noteq> CHR 0x00) t) (odev s)\<rparr>))"
proof -
  obtain t where t: "vformat (omem s) format va = Some (Inr t)" using vformat_slots [OF assms(1,2)] by blast
  let ?r = "out_chars (out_fct fct) wrap (- 1) t (0, s)"
  obtain u where r: "?r = (of_nat (length t), u)"
    using fst_out_chars [of "out_fct fct" wrap "- 1" t "(0, s)"] by (metis add_0 fst_conv prod.collapse)
  then have "u = s\<lparr>odev := fold fct (filter (\<lambda>c. c \<noteq> CHR 0x00) t) (odev s)\<rparr>" using out_fct_fold [of fct wrap "- 1" t 0 s] by simp
  moreover have "vsnprintf_loop (out_fct fct) wrap (- 1) format va 0 s = Some (Inr ?r)"
    by (rule fct_sink.vsnprintf_loop_text [OF agrees_self _ _ t]) (simp_all add: run_ok_def)
  moreover have "(ucast (of_nat (length t) :: u64) :: u32) = of_nat (length t)"
    by (rule bit_word_eqI) (simp add: bit_simps)
  ultimately show ?thesis
    using assms(3) r t by (simp add: fctprintf_def vsnprintf_internal_def out_fct_def)
qed

declare string_chars.simps [code]

theorem fctprintf_completes_witness:
  "fctprintf (\<lambda>c d. d @ [c]) 0x1000 ''%s: %*d'' [0x2000, 5, 7] \<lparr>omem = (\<lambda>a. if a = 0x2002 then 0 else 65), odev = []\<rparr>
     = Some (Inr (9, \<lparr>omem = (\<lambda>a. if a = 0x2002 then 0 else 65), odev = ''AA:     7''\<rparr>))"
proof -
  let ?s = "\<lparr>omem = (\<lambda>a. if a = 0x2002 then 0 else 65), odev = []\<rparr> :: string out_state"
  have slots: "format_slots ''%s: %*d'' = Some [Text, Number, Number]" by code_simp
  have shown: "vformat (omem ?s) ''%s: %*d'' [0x2000, 5, 7] = Some (Inr ''AA:     7'')" by code_simp
  have "terminated (omem ?s) 0x2000" by (auto simp: terminated_def intro!: exI [of _ 2])
  then have "slots_ok (omem ?s) [Text, Number, Number] [0x2000, 5, 7]" by simp
  from fctprintf_completes [OF slots this, of "0x1000" "\<lambda>c d. d @ [c]"] shown show ?thesis by auto
qed

section \<open>Digits can be read back\<close>

text \<open>The value of a digit character, and of a list of digits with the least significant first.\<close>

definition digit_value :: "char \<Rightarrow> nat" where
  "digit_value c = (if is_digit c then of_char c - 48 else if of_char c < (97 :: nat) then of_char c - 55 else of_char c - 87)"

primrec digits_value :: "nat \<Rightarrow> char list \<Rightarrow> nat" where
  "digits_value b [] = 0"
| "digits_value b (c # cs) = digit_value c + b * digits_value b cs"

lemma digits_value_append: "digits_value b (xs @ ys) = digits_value b xs + b ^ length xs * digits_value b ys"
  by (induction xs) (simp_all add: algebra_simps)

lemma digit_value_digit_char: "d < 16 \<Longrightarrow> digit_value (digit_char upper d) = d"
  by (auto simp: digit_value_def digit_char_def is_digit_def)

lemma is_digit_digit_char: "d < 10 \<Longrightarrow> is_digit (digit_char upper d)"
  by (auto simp: digit_char_def is_digit_def)

lemma digits_value_zeros: "digits_value b (replicate n CHR ''0'') = 0"
  by (induction n) (simp_all add: digit_value_def is_digit_def)

lemma digits_value_ntoa_digits:
  assumes "length buf < 32" and "2 \<le> unat base" and "unat base \<le> 16"
  shows "digits_value (unat base) (ntoa_digits upper v base buf)
    = digits_value (unat base) buf + unat base ^ length buf * (unat v mod unat base ^ (32 - length buf))"
  using assms
proof (induction upper v base buf rule: ntoa_digits.induct)
  case (1 upper v base buf)
  let ?b = "unat base" and ?d = "unat (v mod base)"
  let ?buf = "buf @ [digit_char upper ?d]"
  have d: "?d = unat v mod ?b" by (simp add: unat_mod)
  then have "?d < 16" using 1(3,4) by (metis mod_less_divisor order_less_le_trans zero_less_numeral)
  then have buf: "digits_value ?b ?buf = digits_value ?b buf + ?b ^ length buf * (unat v mod ?b)"
    using d by (simp add: digits_value_append digit_value_digit_char)
  obtain k where k: "32 - length buf = Suc k" using 1(2) by (metis Suc_diff_Suc diff_Suc_Suc)
  have v: "unat v mod ?b ^ Suc k = unat v mod ?b + ?b * (unat v div ?b mod ?b ^ k)"
    using mod_mult2_eq [of "unat v" ?b "?b ^ k"] by simp
  show ?case
  proof (cases "v div base \<noteq> 0 \<and> length ?buf < 32")
    case True
    have "digits_value ?b (ntoa_digits upper (v div base) base ?buf)
        = digits_value ?b ?buf + ?b ^ length ?buf * (unat (v div base) mod ?b ^ (32 - length ?buf))"
      by (rule 1(1)) (use True 1(3,4) in simp_all)
    moreover have "32 - length ?buf = k" using k by simp
    ultimately show ?thesis
      using True buf v k by (subst ntoa_digits.simps) (simp add: Let_def unat_div algebra_simps)
  next
    case False
    then have "v div base = 0 \<or> k = 0" using k by auto
    then have "unat v div ?b mod ?b ^ k = 0" using unat_div [of v base] by auto
    then show ?thesis using False buf v k by (subst ntoa_digits.simps) (auto simp: Let_def)
  qed
qed

text \<open>The digit loop of \<open>_ntoa_long\<close> keeps the low 32 digits of the number: reading the digits back
  gives the number modulo \<open>base ^ 32\<close>, which is the number itself in bases 4 and above and
  the low 32 bits in base 2.\<close>

theorem ntoa_digits_roundtrip:
  assumes "2 \<le> unat base" and "unat base \<le> 16"
  shows "digits_value (unat base) (ntoa_digits upper v base []) = (if 4 \<le> unat base then unat v else unat v mod unat base ^ 32)"
proof -
  have "unat v < unat base ^ 32" if "4 \<le> unat base"
  proof -
    have "(4 :: nat) ^ 32 \<le> unat base ^ 32" using that by (rule power_mono) simp
    then show ?thesis using unat_u64_less [of v] by simp
  qed
  then show ?thesis using digits_value_ntoa_digits [of "[]" base upper v] assms by simp
qed

theorem ntoa_digits_roundtrip_witness:
  "digits_value 2 (ntoa_digits False (2 ^ 32 + 5) 2 []) = 5 \<and> digits_value 16 (ntoa_digits True 0xFFFF800000000000 16 []) = 0xFFFF800000000000"
  using ntoa_digits_roundtrip [of 2 False "2 ^ 32 + 5"] ntoa_digits_roundtrip [of 16 True "0xFFFF800000000000"] by simp


lemma length_ntoa_digits_le:
  assumes "unat v < unat base ^ Suc k"
  shows "length (ntoa_digits upper v base buf) \<le> length buf + Suc k"
  using assms
proof (induction upper v base buf arbitrary: k rule: ntoa_digits.induct)
  case (1 upper v base buf)
  show ?case
  proof (cases "v div base \<noteq> 0 \<and> length (buf @ [digit_char upper (unat (v mod base))]) < 32")
    case True
    have "v \<noteq> 0" "0 < unat base" using True by (auto simp: unat_gt_0 word_gt_0)
    moreover have "unat v div unat base \<noteq> 0" using True by (metis unat_div unat_eq_zero)
    ultimately obtain k' where k: "k = Suc k'" using 1(2) by (cases k) (auto simp: div_eq_0_iff)
    have "unat (v div base) < unat base ^ Suc k'"
      using 1(2) k \<open>0 < unat base\<close> by (simp add: unat_div div_less_iff_less_mult mult.commute)
    from 1(1) [OF refl refl refl _ this] True k show ?thesis
      by (subst ntoa_digits.simps) (simp add: Let_def)
  next
    case False
    then show ?thesis by (subst ntoa_digits.simps) (auto simp: Let_def)
  qed
qed

lemma pad_zeros_append:
  "n \<le> 32 \<Longrightarrow> pad_zeros n buf = buf @ replicate (n - length buf) CHR ''0''"
proof (induction n buf rule: pad_zeros.induct)
  case (1 n buf)
  show ?case
  proof (cases "length buf < n")
    case True
    then have "n - length buf = Suc (n - Suc (length buf))" by simp
    then show ?thesis using 1 True by (subst pad_zeros.simps) (simp add: replicate_app_Cons_same)
  next
    case False
    then show ?thesis by (subst pad_zeros.simps) simp
  qed
qed

subsection \<open>Output collected by a function\<close>

abbreviation collect :: "char \<Rightarrow> string \<Rightarrow> string" where
  "collect c d \<equiv> d @ [c]"

lemma out_fct_collect:
  "CHR 0x00 \<notin> set t \<Longrightarrow> snd (out_chars (out_fct collect) buffer maxlen t (idx, s)) = s\<lparr>odev := odev s @ t\<rparr>"
  by (induction t arbitrary: idx s) (auto simp: out_fct_def)

lemma fctprintf_collect:
  assumes "vformat (omem s) format va = Some (Inr t)" "CHR 0x00 \<notin> set t" "wrap \<noteq> 0" "length t < 2 ^ 31"
  shows "fctprintf collect wrap format va s = Some (Inr (int (length t), s\<lparr>odev := odev s @ t\<rparr>))"
proof -
  let ?r = "out_chars (out_fct collect) wrap (- 1) t (0, s)"
  obtain u where r: "?r = (of_nat (length t), u)"
    using fst_out_chars [of "out_fct collect" wrap "- 1" t "(0, s)"] by (metis add_0 fst_conv prod.collapse)
  then have "u = s\<lparr>odev := odev s @ t\<rparr>" using out_fct_collect [OF assms(2), of wrap "- 1" 0 s] by simp
  moreover have "sint (ucast (of_nat (length t) :: u64) :: u32) = int (length t)"
    using assms(4) by (simp add: unsigned_of_nat take_bit_nat_eq_self signed_of_nat signed_take_bit_int_eq_self)
  moreover have "vsnprintf_loop (out_fct collect) wrap (- 1) format va 0 s = Some (Inr ?r)"
    by (rule fct_sink.vsnprintf_loop_text [OF agrees_self _ _ assms(1)]) (simp_all add: run_ok_def)
  ultimately show ?thesis
    using assms(3) r by (simp add: fctprintf_def vsnprintf_internal_def out_fct_def)
qed

subsection \<open>Decimal numbers and atoi\<close>

lemma atoi_loop_append:
  "\<forall>c\<in>set xs. is_digit c \<Longrightarrow> atoi_loop i (xs @ ys) = atoi_loop (fst (atoi_loop i xs)) ys"
  by (induction xs arbitrary: i) auto

lemma of_char_digit: "is_digit c \<Longrightarrow> (of_char c - 48 :: u32) = of_nat (digit_value c)"
proof -
  assume "is_digit c"
  then have "of_nat (digit_value c) = (of_nat (of_char c) - 48 :: u32)"
    by (simp add: digit_value_def is_digit_def of_nat_diff)
  then show ?thesis by (simp add: of_nat_of_char)
qed

lemma atoi_loop_digits:
  "\<forall>c\<in>set buf. is_digit c \<Longrightarrow> atoi_loop i (rev buf) = (i * 10 ^ length buf + of_nat (digits_value 10 buf), [])"
  by (induction buf arbitrary: i) (auto simp: atoi_loop_append of_char_digit algebra_simps)

lemma set_ntoa_digits:
  "unat base = 10 \<Longrightarrow> \<forall>c\<in>set buf. is_digit c \<Longrightarrow> \<forall>c\<in>set (ntoa_digits upper v base buf). is_digit c"
proof (induction upper v base buf rule: ntoa_digits.induct)
  case (1 upper v base buf)
  have "unat (v mod base) < 10" using 1(2) by (simp add: unat_mod)
  then show ?case using 1 by (subst ntoa_digits.simps) (simp add: Let_def is_digit_digit_char)
qed

lemma set_ntoa_digits_nonzero:
  "unat base \<le> 16 \<Longrightarrow> unat base \<noteq> 0 \<Longrightarrow> CHR 0x00 \<notin> set buf \<Longrightarrow> CHR 0x00 \<notin> set (ntoa_digits upper v base buf)"
proof (induction upper v base buf rule: ntoa_digits.induct)
  case (1 upper v base buf)
  have "unat (v mod base) < unat base" using 1(3) by (simp add: unat_mod)
  then have "unat (v mod base) < 16" using 1(2) by simp
  then have "digit_char upper (unat (v mod base)) \<noteq> CHR 0x00"
    by (auto simp: digit_char_def char_of_eq_iff take_bit_nat_eq_self)
  then show ?case using 1 by (subst ntoa_digits.simps) (simp add: Let_def)
qed

lemma integer_text_u: "integer_text CHR ''u'' 0 0 0 a = rev (ntoa_digits False (ucast (ucast a :: u32)) 10 [])"
  by (simp add: integer_text_def integer_flags_def integer_base_def unsigned_arg_def flag_def ntoa_text_def
      ntoa_width_def ntoa_buf_def ntoa_sign_def rev_text_def Let_def pad_zeros_append)

lemma vformat_u: "vformat m ''%u'' [a] = Some (Inr (integer_text CHR ''u'' 0 0 0 a))"
  by (simp add: parse_directive_def parse_width_def parse_precision_def parse_length_def is_digit_def
      specifier_text_def integer_specifier_def)

lemma ucast_u32_u64_u32: "(ucast (ucast (x :: u32) :: u64) :: u32) = x"
  by (rule bit_word_eqI) (simp add: bit_simps)

text \<open>C24. A number printed with \<open>%u\<close> is read back by the \<open>_atoi\<close> of the same file: the text has decimal
  digits only and their value is the 32-bit argument.\<close>

theorem printf_u_atoi:
  assumes "wrap \<noteq> 0"
  shows "\<exists>t. fctprintf collect wrap ''%u'' [a] s = Some (Inr (int (length t), s\<lparr>odev := odev s @ t\<rparr>))
    \<and> atoi t = (ucast a, [])"
proof -
  let ?v = "ucast (ucast a :: u32) :: u64"
  let ?buf = "ntoa_digits False ?v 10 []"
  have dig: "\<forall>c\<in>set ?buf. is_digit c" by (rule set_ntoa_digits) simp_all
  have len: "length ?buf \<le> 32" by (rule length_ntoa_digits) simp
  have "CHR 0x00 \<notin> set (rev ?buf)" using dig by (auto simp: is_digit_def)
  moreover have "vformat (omem s) ''%u'' [a] = Some (Inr (rev ?buf))" by (simp only: vformat_u integer_text_u)
  ultimately have "fctprintf collect wrap ''%u'' [a] s
      = Some (Inr (int (length (rev ?buf)), s\<lparr>odev := odev s @ rev ?buf\<rparr>))"
    using assms len by (intro fctprintf_collect) simp_all
  moreover have "digits_value 10 ?buf = unat ?v"
    using digits_value_ntoa_digits [of "[]" 10 False ?v] unat_u64_less [of ?v] by simp
  then have "atoi (rev ?buf) = (ucast a, [])"
    using atoi_loop_digits [OF dig, of 0] ucast_u32_u64_u32 [of "ucast a"] by (simp add: atoi_def)
  ultimately show ?thesis by blast
qed

theorem printf_u_atoi_witness:
  "\<exists>t. fctprintf collect 0x1000 ''%u'' [4096] \<lparr>omem = (\<lambda>_. 0), odev = ''x''\<rparr>
     = Some (Inr (int (length t), \<lparr>omem = (\<lambda>_. 0), odev = ''x'' @ t\<rparr>)) \<and> atoi t = (4096, [])"
  using printf_u_atoi [of "0x1000" 4096 "\<lparr>omem = (\<lambda>_. 0), odev = ''x''\<rparr>"] by simp

text \<open>\<open>%p\<close> prints a pointer as exactly sixteen hexadecimal digits whose value is the pointer.\<close>

theorem printf_p_digits:
  assumes "wrap \<noteq> 0"
  shows "\<exists>t. fctprintf collect wrap ''%p'' [a] s = Some (Inr (16, s\<lparr>odev := odev s @ t\<rparr>))
    \<and> length t = 16 \<and> digits_value 16 (rev t) = unat a"
proof -
  let ?buf = "ntoa_digits True a 16 []"
  let ?t = "replicate (16 - length ?buf) CHR ''0'' @ rev ?buf"
  have len: "length ?buf \<le> 16" using length_ntoa_digits_le [of a 16 15 True "[]"] unat_u64_less [of a] by simp
  have vf: "vformat (omem s) ''%p'' [a] = Some (Inr ?t)"
    using len
    by (simp add: parse_directive_def parse_width_def parse_precision_def parse_length_def is_digit_def
        specifier_text_def integer_specifier_def ntoa_text_def ntoa_width_def ntoa_buf_def ntoa_sign_def
        rev_text_def flag_def Let_def pad_zeros_append)
  have "CHR 0x00 \<notin> set ?t" using set_ntoa_digits_nonzero [of 16 "[]" True a] by auto
  then have "fctprintf collect wrap ''%p'' [a] s = Some (Inr (int (length ?t), s\<lparr>odev := odev s @ ?t\<rparr>))"
    using assms len vf by (intro fctprintf_collect) simp_all
  moreover have "digits_value 16 (rev ?t) = unat a"
    using digits_value_ntoa_digits [of "[]" 16 True a] unat_u64_less [of a]
    by (simp add: digits_value_append digits_value_zeros)
  ultimately show ?thesis using len by (intro exI [of _ ?t]) simp
qed

theorem printf_p_digits_witness:
  "\<exists>t. fctprintf collect 0x1000 ''%p'' [HIGHER_HALF_DATA] \<lparr>omem = (\<lambda>_. 0), odev = []\<rparr> = Some (Inr (16, \<lparr>omem = (\<lambda>_. 0), odev = t\<rparr>))
     \<and> length t = 16 \<and> digits_value 16 (rev t) = unat HIGHER_HALF_DATA"
  using printf_p_digits [of "0x1000" HIGHER_HALF_DATA "\<lparr>omem = (\<lambda>_. 0), odev = []\<rparr>"] by simp

section \<open>A format that ends inside a directive\<close>

text \<open>A format whose last character is a percent sign makes the code step over the terminating null
  character and read on behind the string.\<close>

theorem printf_trailing_percent:
  assumes "CHR ''%'' \<notin> set format"
  shows "snprintf buffer count (format @ ''%'') va s = Some (Inl Out_Of_Bounds)"
proof -
  have "vsnprintf_loop out buffer count (format @ ''%'') va idx s = Some (Inl Out_Of_Bounds)"
    for out :: "'a out_fct_type" and idx s
    using assms
  proof (induction format arbitrary: idx s)
    case Nil
    show ?case by (simp add: parse_directive_def parse_width_def parse_precision_def parse_length_def is_digit_def)
  next
    case (Cons c format)
    then show ?case by auto
  qed
  then show ?thesis by (simp add: snprintf_def vsnprintf_internal_def Let_def)
qed

theorem printf_trailing_percent_witness:
  "snprintf 0x1000 64 (''load: 100'' @ ''%'') [] \<lparr>omem = (\<lambda>_. 0), odev = ()\<rparr> = Some (Inl Out_Of_Bounds)"
  by (rule printf_trailing_percent) simp

end
