(* ===== verification/Spinlock.thy ===== *)
theory Spinlock
  imports Kernel_Prelude
begin

text \<open>
  \<open>libk/lock/spinlock.h\<close>. \<open>spinlock_acquire\<close> and \<open>spinlock_release\<close> are given twice: as functions of
  one processor that runs alone, and as a transition system in which any number of processors
  execute the instructions of the two functions in any order and may be interrupted between
  two instructions by a handler that takes the same lock.
\<close>

section \<open>One processor\<close>

record spinlock_t =
  lock :: u8
  interrupts :: bool

text \<open>Bit 9 of the flags register, which is the flag that the functions below take and return.\<close>

definition asm_get_interrupt_flag :: "u64 \<Rightarrow> bool" where
  "asm_get_interrupt_flag rflags \<longleftrightarrow> drop_bit 9 rflags AND 1 \<noteq> 0"

definition atomic_test_and_set :: "spinlock_t \<Rightarrow> bool \<times> spinlock_t" where
  "atomic_test_and_set l = (lock l \<noteq> 0, l\<lparr>lock := 1\<rparr>)"

definition atomic_clear :: "spinlock_t \<Rightarrow> spinlock_t" where
  "atomic_clear l = l\<lparr>lock := 0\<rparr>"

text \<open>
  \<open>spinlock_acquire\<close> on a processor with interrupt flag \<open>flag\<close> that nobody disturbs; \<open>None\<close> is the
  loop that spins forever.
\<close>

partial_function (option) spinlock_acquire :: "spinlock_t \<Rightarrow> bool \<Rightarrow> (spinlock_t \<times> bool) option" where
  "spinlock_acquire l iflag =
     (let (old, l) = atomic_test_and_set l
      in if old then spinlock_acquire l iflag else Some (l\<lparr>interrupts := iflag\<rparr>, False))"

definition spinlock_release :: "spinlock_t \<Rightarrow> bool \<Rightarrow> spinlock_t \<times> bool" where
  "spinlock_release l iflag = (atomic_clear l, if interrupts l then True else False)"

lemma asm_get_interrupt_flag_bit: "asm_get_interrupt_flag rflags \<longleftrightarrow> bit rflags 9"
  by (simp add: asm_get_interrupt_flag_def and_one_eq odd_iff_mod_2_eq_one [symmetric] bit_iff_odd_drop_bit [symmetric])

lemma spinlock_acquire_free: "lock l = 0 \<Longrightarrow> spinlock_acquire l iflag = Some (\<lparr>lock = 1, interrupts = iflag\<rparr>, False)"
  by (subst spinlock_acquire.simps) (simp add: atomic_test_and_set_def)

lemma spinlock_acquire_held:
  assumes "lock l \<noteq> 0"
  shows "spinlock_acquire l iflag = None"
proof (rule ccontr)
  assume "spinlock_acquire l iflag \<noteq> None"
  then obtain r where r: "spinlock_acquire l iflag = Some r" by blast
  have "lock l \<noteq> 0 \<longrightarrow> False"
  proof (rule spinlock_acquire.raw_induct [OF _ r])
    fix rec l iflag r
    assume "\<And>l iflag r. rec l iflag = Some r \<Longrightarrow> lock l \<noteq> 0 \<longrightarrow> False"
      and "(let (old, l) = atomic_test_and_set l in if old then rec l iflag else Some (l\<lparr>interrupts := iflag\<rparr>, False)) = Some r"
    then show "lock l \<noteq> 0 \<longrightarrow> False" by (fastforce simp: atomic_test_and_set_def)
  qed
  with assms show False by simp
qed

section \<open>The interface of a lock\<close>

text \<open>
  What the code under a lock relies on. \<open>held\<close> and \<open>saved\<close> read the lock: whether somebody has it, and the
  interrupt flag its holder came with. A set of holders agrees with a lock when it has one element for a
  lock that is held and none for a free one.
\<close>

definition exclusive :: "bool \<Rightarrow> 'c set \<Rightarrow> bool" where
  "exclusive h C \<longleftrightarrow> (if h then \<exists>c. C = {c} else C = {})"

locale interrupt_lock =
  fixes held :: "'l \<Rightarrow> bool" and saved :: "'l \<Rightarrow> bool"
    and acquire :: "'l \<Rightarrow> bool \<Rightarrow> ('l \<times> bool) option" and release :: "'l \<Rightarrow> bool \<Rightarrow> 'l \<times> bool"
  assumes acquire_held: "held l \<Longrightarrow> acquire l iflag = None"
    and acquire_free: "\<not> held l \<Longrightarrow> \<exists>k. acquire l iflag = Some (k, False) \<and> held k \<and> saved k = iflag"
    and release_frees: "\<exists>k. release l iflag = (k, saved l) \<and> \<not> held k"
begin

lemma acquire_returns: "acquire l iflag \<noteq> None \<longleftrightarrow> \<not> held l"
  using acquire_held [of l iflag] acquire_free [of l iflag] by (cases "held l") auto

lemma acquired:
  assumes "acquire l iflag = Some (k, f)"
  shows "\<not> held l" "held k" "saved k = iflag" "\<not> f"
proof -
  show "\<not> held l" using acquire_held [of l iflag] assms by (cases "held l") simp_all
  from acquire_free [OF this, of iflag] assms show "held k" "saved k = iflag" "\<not> f" by auto
qed

lemma not_reentrant: "acquire l iflag = Some (k, f) \<Longrightarrow> acquire k f' = None"
  using acquired(2) acquire_held by blast

lemma section_keeps_flag:
  assumes "acquire l iflag = Some (k, f)" "release k f' = (m, f'')"
  shows "f'' = iflag" "\<not> held m"
  using acquired(3) [OF assms(1)] release_frees [of k f'] assms(2) by auto

lemma acquire_exclusive:
  assumes "exclusive (held l) C" "acquire l iflag = Some (k, f)"
  shows "C = {}" "exclusive (held k) {c}"
  using assms(1) acquired [OF assms(2)] by (auto simp: exclusive_def)

lemma release_exclusive:
  assumes "exclusive (held l) C" "c \<in> C" "release l iflag = (k, f)"
  shows "C = {c}" "exclusive (held k) (C - {c})"
proof -
  show "C = {c}" using assms(1,2) by (auto simp: exclusive_def split: if_splits)
  then show "exclusive (held k) (C - {c})" using release_frees [of l iflag] assms(3) by (simp add: exclusive_def)
qed

end

interpretation sl: interrupt_lock "\<lambda>l. lock l \<noteq> 0" interrupts spinlock_acquire spinlock_release
  by unfold_locales (simp_all add: spinlock_acquire_held spinlock_acquire_free spinlock_release_def atomic_clear_def)

section \<open>Many processors and interrupts\<close>

text \<open>
  The next instruction of a processor: \<open>Spin\<close> is the test-and-set, \<open>Save_Flag\<close> and \<open>Cli\<close> the two
  statements after the loop, \<open>Critical\<close> the locked code, \<open>Restore_Flag\<close> and \<open>Clear\<close> the two
  statements of \<open>spinlock_release\<close>. \<open>lock_instr\<close> takes \<open>Critical\<close> to the release, which is the call that ends
  the locked code; the steps before that call are the rule \<open>work\<close> of \<open>lock_step\<close>, which may be taken any
  number of times or, when the code halts with the lock, for ever.
\<close>

datatype lock_pc = Outside | Spin | Save_Flag | Cli | Critical | Restore_Flag | Clear

fun lock_instr :: "lock_pc \<Rightarrow> spinlock_t \<Rightarrow> bool \<Rightarrow> lock_pc \<times> spinlock_t \<times> bool" where
  "lock_instr Outside l iflag = (Spin, l, iflag)"
| "lock_instr Spin l iflag = (let (old, l) = atomic_test_and_set l in (if old then Spin else Save_Flag, l, iflag))"
| "lock_instr Save_Flag l iflag = (Cli, l\<lparr>interrupts := iflag\<rparr>, iflag)"
| "lock_instr Cli l iflag = (Critical, l, False)"
| "lock_instr Critical l iflag = (Restore_Flag, l, iflag)"
| "lock_instr Restore_Flag l iflag = (Clear, l, if interrupts l then True else False)"
| "lock_instr Clear l iflag = (Outside, atomic_clear l, iflag)"

text \<open>
  Each processor has its interrupt flag and a stack of activations, the running one first: an
  interrupt, taken only with the flag set, starts a handler with the flag cleared, and its return
  sets the flag again. The handler uses the lock as any other code does. Code outside the lock may
  set and clear the interrupt flag as it likes.
\<close>

record 'c lock_state =
  the_lock :: spinlock_t
  iflags :: "'c \<Rightarrow> bool"
  frames :: "'c \<Rightarrow> lock_pc list"

definition lock_initial :: "'c lock_state \<Rightarrow> bool" where
  "lock_initial s \<longleftrightarrow> lock (the_lock s) = 0 \<and> (\<forall>c. frames s c = [Outside])"

definition run_instr :: "'c \<Rightarrow> 'c lock_state \<Rightarrow> 'c lock_state" where
  "run_instr c s =
     (case frames s c of
        [] \<Rightarrow> s
      | pc # fs \<Rightarrow> (let (pc, l, iflag) = lock_instr pc (the_lock s) (iflags s c)
                   in \<lparr>the_lock = l, iflags = (iflags s)(c := iflag), frames = (frames s)(c := pc # fs)\<rparr>))"

inductive lock_step :: "'c lock_state \<Rightarrow> 'c lock_state \<Rightarrow> bool" where
  instr: "lock_step s (run_instr c s)"
| interrupt: "iflags s c \<Longrightarrow>
    lock_step s (s\<lparr>iflags := (iflags s)(c := False), frames := (frames s)(c := Outside # frames s c)\<rparr>)"
| set_flag: "frames s c = Outside # fs \<Longrightarrow> lock_step s (s\<lparr>iflags := (iflags s)(c := b)\<rparr>)"
| iret: "frames s c = Outside # pc # fs \<Longrightarrow>
    lock_step s (s\<lparr>iflags := (iflags s)(c := True), frames := (frames s)(c := pc # fs)\<rparr>)"
| work: "frames s c = Critical # fs \<Longrightarrow> lock_step s s"

inductive lock_reach :: "'c lock_state \<Rightarrow> 'c lock_state \<Rightarrow> bool" where
  refl: "lock_reach s s"
| step: "lock_reach s t \<Longrightarrow> lock_step t u \<Longrightarrow> lock_reach s u"

section \<open>Mutual exclusion\<close>

definition holds :: "lock_pc \<Rightarrow> bool" where
  "holds pc \<longleftrightarrow> pc \<in> {Save_Flag, Cli, Critical, Restore_Flag, Clear}"

text \<open>The code that runs with interrupts off.\<close>

definition quiet :: "lock_pc \<Rightarrow> bool" where
  "quiet pc \<longleftrightarrow> pc \<in> {Critical, Restore_Flag}"

definition holders :: "'c lock_state \<Rightarrow> 'c \<Rightarrow> lock_pc list" where
  "holders s c = filter holds (frames s c)"

definition lock_owned :: "'c lock_state \<Rightarrow> bool" where
  "lock_owned s \<longleftrightarrow> (if lock (the_lock s) = 0 then \<forall>c. holders s c = []
     else \<exists>c pc. holders s c = [pc] \<and> (\<forall>c'. c' \<noteq> c \<longrightarrow> holders s c' = []))"

definition lock_quiet :: "'c lock_state \<Rightarrow> bool" where
  "lock_quiet s \<longleftrightarrow> (\<forall>c. frames s c \<noteq> [] \<and> (\<forall>pc\<in>set (tl (frames s c)). \<not> quiet pc)
     \<and> (quiet (hd (frames s c)) \<longrightarrow> \<not> iflags s c))"

lemmas lock_pc_simps = holds_def quiet_def holders_def

lemma lock_instr_cases:
  assumes "lock_instr pc l iflag = (pc', l', iflag')"
  shows "(holds pc' \<longleftrightarrow> (if pc = Spin then lock l = 0 else holds pc \<and> pc \<noteq> Clear))"
    "(lock l' = 0 \<longleftrightarrow> pc = Clear \<or> (pc \<noteq> Spin \<and> lock l = 0))"
    "quiet pc' \<Longrightarrow> \<not> iflag' \<or> (pc = Critical \<and> iflag' = iflag)"
  using assms by (cases pc; auto simp: lock_pc_simps atomic_test_and_set_def atomic_clear_def split: if_splits)+

lemma holders_run_instr:
  assumes "frames s c = pc # fs" "lock_instr pc (the_lock s) (iflags s c) = (pc', l', iflag')"
  shows "holders (run_instr c s) c' = (if c' = c then filter holds (pc' # fs) else holders s c')"
    "the_lock (run_instr c s) = l'"
  using assms by (simp_all add: run_instr_def holders_def)

lemma lock_owned_run_instr:
  assumes "lock_owned s"
  shows "lock_owned (run_instr c s)"
proof (cases "frames s c")
  case Nil
  then show ?thesis using assms by (simp add: run_instr_def)
next
  case (Cons pc fs)
  obtain pc' l' iflag' where i: "lock_instr pc (the_lock s) (iflags s c) = (pc', l', iflag')"
    by (metis prod_cases3)
  note h = holders_run_instr [OF Cons i] and k = lock_instr_cases [OF i]
  have c: "holders s c = filter holds (pc # fs)" using Cons by (simp add: holders_def)
  show ?thesis
  proof (cases "lock (the_lock s) = 0")
    case True
    then have none: "\<forall>c'. holders s c' = []" using assms by (simp add: lock_owned_def)
    then have "\<not> holds pc" "filter holds fs = []" using c by (auto split: if_splits)
    then show ?thesis
      using True k h none by (cases "pc = Spin") (auto simp: lock_owned_def lock_pc_simps(1))
  next
    case False
    then obtain c0 pc0 where o: "holders s c0 = [pc0]" "\<And>c'. c' \<noteq> c0 \<Longrightarrow> holders s c' = []"
      using assms by (auto simp: lock_owned_def)
    show ?thesis
    proof (cases "c0 = c")
      case True
      then show ?thesis
        using False k h o c
        by (cases "pc = Clear") (auto simp: lock_owned_def lock_pc_simps(1) split: if_splits)
    next
      case other: False
      then have "\<not> holds pc" "filter holds fs = []" using o(2) [of c] c by (auto split: if_splits)
      moreover have "pc \<noteq> Clear" using \<open>\<not> holds pc\<close> by (auto simp: holds_def)
      ultimately show ?thesis using False other k h o by (auto simp: lock_owned_def)
    qed
  qed
qed

lemma lock_quiet_run_instr:
  assumes "lock_quiet s"
  shows "lock_quiet (run_instr c s)"
proof (cases "frames s c")
  case Nil
  then show ?thesis using assms by (simp add: run_instr_def)
next
  case (Cons pc fs)
  obtain pc' l' iflag' where i: "lock_instr pc (the_lock s) (iflags s c) = (pc', l', iflag')"
    by (metis prod_cases3)
  have "frames s c \<noteq> [] \<and> (\<forall>pc\<in>set (tl (frames s c)). \<not> quiet pc) \<and> (quiet (hd (frames s c)) \<longrightarrow> \<not> iflags s c)"
    using assms by (simp add: lock_quiet_def)
  then show ?thesis
    using assms Cons i lock_instr_cases(3) [OF i]
    by (auto simp: lock_quiet_def run_instr_def quiet_def)
qed

lemma lock_owned_cong: "holders t = holders s \<Longrightarrow> the_lock t = the_lock s \<Longrightarrow> lock_owned t = lock_owned s"
  by (simp add: lock_owned_def)

lemma lock_step_holders:
  "lock_step s t \<Longrightarrow> (\<exists>c. t = run_instr c s) \<or> holders t = holders s \<and> the_lock t = the_lock s"
  by (induction rule: lock_step.induct) (auto simp: lock_pc_simps fun_eq_iff)

lemma lock_owned_step:
  assumes "lock_step s t" "lock_owned s"
  shows "lock_owned t"
  using lock_step_holders [OF assms(1)] assms(2) lock_owned_cong [of t s] by (auto simp: lock_owned_run_instr)

lemma lock_quiet_step:
  assumes "lock_step s t" "lock_quiet s"
  shows "lock_quiet t"
  using assms
proof cases
  case (instr c)
  then show ?thesis using assms(2) by (simp add: lock_quiet_run_instr)
next
  case (interrupt c)
  have c: "frames s c \<noteq> []" "\<forall>pc\<in>set (tl (frames s c)). \<not> quiet pc" "\<not> quiet (hd (frames s c))"
    using assms(2) interrupt(2) by (auto simp: lock_quiet_def)
  then have "\<forall>pc\<in>set (frames s c). \<not> quiet pc" by (cases "frames s c") auto
  then show ?thesis using assms(2) interrupt(1) by (auto simp: lock_quiet_def quiet_def)
next
  case (set_flag c fs b)
  then show ?thesis using assms(2) by (auto simp: lock_quiet_def quiet_def)
next
  case (iret c pc fs)
  have "\<not> quiet pc \<and> (\<forall>pc\<in>set fs. \<not> quiet pc)"
    using assms(2) [unfolded lock_quiet_def, rule_format, of c] iret(2) by simp
  then show ?thesis using assms(2) iret(1) by (auto simp: lock_quiet_def)
next
  case (work c fs)
  then show ?thesis using assms(2) by simp
qed

lemma lock_reach_invariant:
  assumes "lock_reach s t" "lock_initial s"
  shows "lock_owned t \<and> lock_quiet t"
  using assms
proof induction
  case (refl s)
  then show ?case by (auto simp: lock_initial_def lock_owned_def lock_quiet_def lock_pc_simps)
next
  case (step s t u)
  then show ?case using lock_owned_step lock_quiet_step by blast
qed


lemma filter_single_index:
  assumes "filter P xs = [x]" "i < length xs" "P (xs ! i)" "j < length xs" "P (xs ! j)"
  shows "i = j"
proof -
  have "card {k. k < length xs \<and> P (xs ! k)} = 1" using assms(1) by (simp flip: length_filter_conv_card)
  then obtain k where "{k. k < length xs \<and> P (xs ! k)} = {k}" by (rule card_1_singletonE)
  then show ?thesis using assms(2-) by (metis (mono_tags, lifting) mem_Collect_eq singletonD)
qed

text \<open>C7. In every reachable state at most one activation on all processors is between its successful
  test-and-set and its clear; and an activation in the locked code is the running one of its
  processor and has interrupts disabled.\<close>

theorem spinlock_mutual_exclusion:
  assumes "lock_initial s" and "lock_reach s t"
    and "i < length (frames t c)" and "holds (frames t c ! i)"
  shows "(\<forall>c' j. j < length (frames t c') \<and> holds (frames t c' ! j) \<longrightarrow> c' = c \<and> j = i)
    \<and> (frames t c ! i = Critical \<longrightarrow> i = 0 \<and> \<not> iflags t c)"
proof -
  note inv = lock_reach_invariant [OF assms(2,1)]
  have ne: "holders t d \<noteq> []" if "k < length (frames t d)" "holds (frames t d ! k)" for d k
    using that by (auto simp: holders_def filter_empty_conv)
  with inv assms(3,4) obtain c0 pc where o: "holders t c0 = [pc]" "\<And>c'. c' \<noteq> c0 \<Longrightarrow> holders t c' = []"
    by (auto simp: lock_owned_def split: if_splits)
  then have c: "c = c0" using ne [OF assms(3,4)] by blast
  have 1: "c' = c \<and> j = i" if j: "j < length (frames t c')" "holds (frames t c' ! j)" for c' j
  proof -
    have "c' = c0" using ne [OF j] o(2) by blast
    then show ?thesis using filter_single_index [of holds "frames t c" pc j i] o(1) c j assms(3,4) by (simp add: holders_def)
  qed
  have 2: "i = 0 \<and> \<not> iflags t c" if crit: "frames t c ! i = Critical"
  proof -
    have q: "\<forall>pc\<in>set (tl (frames t c)). \<not> quiet pc" "quiet (hd (frames t c)) \<longrightarrow> \<not> iflags t c" "frames t c \<noteq> []"
      using inv by (auto simp: lock_quiet_def)
    have "i = 0"
    proof (rule ccontr)
      assume "i \<noteq> 0"
      then have "frames t c ! i \<in> set (tl (frames t c))"
        using assms(3) by (cases i) (auto simp: nth_tl [symmetric])
      then show False using q(1) crit by (auto simp: quiet_def)
    qed
    then show ?thesis using q crit by (simp add: hd_conv_nth quiet_def)
  qed
  from 1 2 show ?thesis by blast
qed


text \<open>A start with the lock free and interrupts on, for two processors.\<close>

definition two_cpus :: "bool lock_state" where
  "two_cpus = \<lparr>the_lock = \<lparr>lock = 0, interrupts = False\<rparr>, iflags = (\<lambda>_. True), frames = (\<lambda>_. [Outside])\<rparr>"

lemma lock_initial_two_cpus: "lock_initial two_cpus"
  by (simp add: lock_initial_def two_cpus_def)

lemma lock_reach_instrs: "lock_reach s ((run_instr c ^^ n) s)"
  by (induction n) (auto intro: lock_reach.intros lock_step.instr)

theorem spinlock_mutual_exclusion_witness:
  "frames ((run_instr True ^^ 4) two_cpus) True = [Critical] \<and> \<not> iflags ((run_instr True ^^ 4) two_cpus) True
   \<and> \<not> holds (frames ((run_instr True ^^ 4) two_cpus) False ! 0)"
proof -
  define t where "t = (run_instr True ^^ 4) two_cpus"
  have f: "frames t True = [Critical]" "frames t False = [Outside]"
    by (simp_all add: t_def numeral_eq_Suc run_instr_def two_cpus_def atomic_test_and_set_def)
  have "lock_reach two_cpus t" unfolding t_def by (rule lock_reach_instrs)
  from spinlock_mutual_exclusion [OF lock_initial_two_cpus this, of 0 True]
  have "(\<forall>c' j. j < length (frames t c') \<and> holds (frames t c' ! j) \<longrightarrow> c' = True \<and> j = 0) \<and> \<not> iflags t True"
    using f by (auto simp: holds_def)
  then show ?thesis using f unfolding t_def [symmetric] by (auto simp: holds_def)
qed

section \<open>Progress\<close>

text \<open>
  An infinite run is a function of the time. A processor \<open>acquires\<close> the lock in the step that takes one of its
  activations from the test-and-set to the statement after the loop. The run is fair when every processor
  executes instructions again and again: its own of \<open>spinlock.h\<close>, steps of a locked section, or, with no
  activation at the lock, any other code for ever.
\<close>

definition lock_run :: "(nat \<Rightarrow> 'c lock_state) \<Rightarrow> bool" where
  "lock_run r \<longleftrightarrow> lock_initial (r 0) \<and> (\<forall>i. lock_step (r i) (r (Suc i)))"

definition acquires :: "'c \<Rightarrow> 'c lock_state \<Rightarrow> 'c lock_state \<Rightarrow> bool" where
  "acquires c s t \<longleftrightarrow> hd (frames s c) = Spin \<and> frames t c = Save_Flag # tl (frames s c)"

definition fair_run :: "(nat \<Rightarrow> 'c lock_state) \<Rightarrow> bool" where
  "fair_run r \<longleftrightarrow> (\<forall>c i. \<exists>j\<ge>i. r (Suc j) = run_instr c (r j) \<or> hd (frames (r j) c) = Critical \<or> frames (r j) c = [Outside])"

text \<open>Every locked section comes to its end, and no interrupt is taken by an activation that has the lock.\<close>

definition sections_end :: "(nat \<Rightarrow> 'c lock_state) \<Rightarrow> bool" where
  "sections_end r \<longleftrightarrow> (\<forall>c i. hd (frames (r i) c) = Critical \<longrightarrow> (\<exists>j\<ge>i. hd (frames (r j) c) \<noteq> Critical))"

definition holders_undisturbed :: "(nat \<Rightarrow> 'c lock_state) \<Rightarrow> bool" where
  "holders_undisturbed r \<longleftrightarrow> (\<forall>i c. \<forall>pc\<in>set (tl (frames (r i) c)). \<not> holds pc)"

text \<open>The instructions that a holder still has before it, the locked section counted as one.\<close>

fun lock_rank :: "lock_pc \<Rightarrow> nat" where
  "lock_rank Save_Flag = 5"
| "lock_rank Cli = 4"
| "lock_rank Critical = 3"
| "lock_rank Restore_Flag = 2"
| "lock_rank Clear = 1"
| "lock_rank _ = 0"

lemma lock_run_reach:
  assumes "lock_run r"
  shows "lock_reach (r 0) (r i)"
  by (induction i) (use assms in \<open>auto simp: lock_run_def intro: lock_reach.intros\<close>)

lemma lock_run_invariant: "lock_run r \<Longrightarrow> lock_owned (r i) \<and> lock_quiet (r i)"
  by (rule lock_reach_invariant [OF lock_run_reach]) (simp_all add: lock_run_def)

text \<open>A step of the others leaves a holder where it is; its own instruction brings it nearer to the clear.\<close>

lemma run_instr_holder:
  assumes "frames s c = pc # fs" "holds pc"
  shows "\<exists>pc'. frames (run_instr c s) c = pc' # fs \<and> lock_rank pc' < lock_rank pc \<and> (holds pc' \<or> lock (the_lock (run_instr c s)) = 0)"
  using assms by (cases pc) (auto simp: holds_def run_instr_def atomic_clear_def)

lemma lock_step_holder:
  assumes "lock_step s t" "frames s c = pc # fs" "holds pc" "\<forall>pc\<in>set (tl (frames t c)). \<not> holds pc"
  shows "frames t c = pc # fs \<or> t = run_instr c s"
  using assms(1)
proof cases
  case (instr d)
  then show ?thesis using assms(2)
    by (cases "d = c") (auto simp: run_instr_def split: list.splits prod.splits)
next
  case (interrupt d)
  then show ?thesis using assms(2-4) by (cases "d = c") auto
qed (use assms(2,3) in \<open>auto simp: holds_def\<close>)

text \<open>Without an acquisition a free lock stays free and the activations at the test-and-set stay there.\<close>

abbreviation spinning :: "'c lock_state \<Rightarrow> 'c \<Rightarrow> nat" where
  "spinning s c \<equiv> length (filter (\<lambda>pc. pc = Spin) (frames s c))"

lemma run_instr_spin: "frames s c = Spin # fs \<Longrightarrow> lock (the_lock s) = 0 \<Longrightarrow> acquires c s (run_instr c s)"
  by (simp add: acquires_def run_instr_def atomic_test_and_set_def)

lemma free_step:
  assumes "lock_step s t" "lock_owned s" "lock (the_lock s) = 0" "\<And>c. \<not> acquires c s t"
  shows "lock (the_lock t) = 0"
proof (cases "\<exists>d. t = run_instr d s")
  case True
  then obtain d where t: "t = run_instr d s" by blast
  show ?thesis
  proof (cases "frames s d")
    case Nil
    then show ?thesis using t assms(3) by (simp add: run_instr_def)
  next
    case (Cons pc fs)
    then have "pc \<noteq> Spin" using assms(3,4) t run_instr_spin [of s d fs] by auto
    then show ?thesis
      using t assms(3) Cons by (cases pc) (auto simp: run_instr_def atomic_clear_def)
  qed
next
  case False
  then show ?thesis using lock_step_holders [OF assms(1)] assms(3) by auto
qed

lemma spinning_step:
  assumes "lock_step s t" "\<not> acquires c s t"
  shows "spinning s c \<le> spinning t c"
  using assms(1)
proof cases
  case (instr d)
  then show ?thesis using assms(2)
    by (cases "d = c"; cases "frames s d"; cases "hd (frames s d)")
       (auto simp: run_instr_def acquires_def atomic_test_and_set_def split: if_splits)
qed auto

lemma spinning_mono:
  assumes "lock_run r" "\<And>j c. j \<ge> i \<Longrightarrow> \<not> acquires c (r j) (r (Suc j))" "i \<le> j"
  shows "spinning (r j) c \<le> spinning (r (j + k)) c"
proof (induction k)
  case (Suc k)
  have "lock_step (r (j + k)) (r (Suc (j + k)))" using assms(1) by (simp add: lock_run_def)
  from spinning_step [OF this assms(2), of c] assms(3) Suc show ?case by simp
qed simp

lemma spinning_run_instr:
  assumes "lock_owned s" "lock (the_lock s) = 0" "frames s c \<noteq> []" "\<not> acquires c s (run_instr c s)"
  shows "spinning (run_instr c s) c = Suc (spinning s c)"
proof -
  obtain pc fs where f: "frames s c = pc # fs" using assms(3) by (cases "frames s c") auto
  have "holders s c = []" using assms(1,2) by (simp add: lock_owned_def)
  then have "\<not> holds pc" using f by (simp add: holders_def split: if_splits)
  moreover have "pc \<noteq> Spin" using f assms(2,4) run_instr_spin [of s c fs] by auto
  ultimately have "pc = Outside" by (cases pc) (auto simp: holds_def)
  then show ?thesis using f by (simp add: run_instr_def)
qed

text \<open>A holder gets to its clear.\<close>

lemma holder_clears:
  assumes "lock_run r" "fair_run r" "sections_end r" "holders_undisturbed r"
    and "frames (r i) c = pc # fs" "holds pc"
  shows "\<exists>j\<ge>i. lock (the_lock (r j)) = 0"
  using assms(5,6)
proof (induction "lock_rank pc" arbitrary: pc i rule: less_induct)
  case less
  have undisturbed: "\<forall>pc\<in>set (tl (frames (r j) c)). \<not> holds pc" for j
    using assms(4) by (simp add: holders_undisturbed_def)
  have leaves: "\<exists>j\<ge>i. frames (r j) c = pc # fs \<and> r (Suc j) = run_instr c (r j)"
  proof (rule ccontr)
    assume never: "\<not> ?thesis"
    have stay: "frames (r (i + n)) c = pc # fs" for n
    proof (induction n)
      case (Suc n)
      have "lock_step (r (i + n)) (r (Suc (i + n)))" using assms(1) by (simp add: lock_run_def)
      from lock_step_holder [OF this Suc less.prems(2) undisturbed] never Suc show ?case by auto
    qed (use less.prems in simp)
    then have at: "frames (r j) c = pc # fs" if "j \<ge> i" for j using stay [of "j - i"] that by simp
    show False
    proof (cases "pc = Critical")
      case True
      then show False using assms(3) at unfolding sections_end_def by (metis list.sel(1) order_refl)
    next
      case False
      moreover have "pc \<noteq> Outside" using less.prems(2) by (auto simp: holds_def)
      moreover obtain j where "j \<ge> i" "r (Suc j) = run_instr c (r j) \<or> hd (frames (r j) c) = Critical \<or> frames (r j) c = [Outside]"
        using assms(2) unfolding fair_run_def by blast
      ultimately show False using at never by auto
    qed
  qed
  then obtain j where j: "j \<ge> i" "frames (r j) c = pc # fs" "r (Suc j) = run_instr c (r j)" by blast
  obtain pc' where pc': "frames (r (Suc j)) c = pc' # fs" "lock_rank pc' < lock_rank pc"
      "holds pc' \<or> lock (the_lock (r (Suc j))) = 0"
    using run_instr_holder [OF j(2) less.prems(2)] j(3) by auto
  show ?case
  proof (cases "holds pc'")
    case True
    from less.hyps [OF pc'(2,1) True] obtain k where "k \<ge> Suc j" "lock (the_lock (r k)) = 0" by blast
    then show ?thesis using j(1) by (intro exI [of _ k]) simp
  next
    case False
    then show ?thesis using pc'(3) j(1) by (intro exI [of _ "Suc j"]) simp
  qed
qed

lemma lock_freed:
  assumes "lock_run r" "fair_run r" "sections_end r" "holders_undisturbed r"
  shows "\<exists>j\<ge>i. lock (the_lock (r j)) = 0"
proof (cases "lock (the_lock (r i)) = 0")
  case False
  then obtain c pc where "holders (r i) c = [pc]"
    using lock_run_invariant [OF assms(1), of i] by (auto simp: lock_owned_def)
  then have "\<exists>pc\<in>set (frames (r i) c). holds pc" by (auto simp: holders_def filter_eq_Cons_iff)
  then obtain pc fs where "frames (r i) c = pc # fs" "holds pc"
    using assms(4) [unfolded holders_undisturbed_def, rule_format, of _ i c] by (cases "frames (r i) c") auto
  then show ?thesis by (rule holder_clears [OF assms])
qed auto

text \<open>A free lock that nobody acquires collects more and more spinning activations.\<close>

lemma free_collects:
  assumes "lock_run r" "fair_run r" "lock (the_lock (r i)) = 0" "spinning (r i) c > 0"
    and never: "\<And>j c. j \<ge> i \<Longrightarrow> \<not> acquires c (r j) (r (Suc j))"
  shows "\<exists>j\<ge>i. spinning (r j) c \<ge> n"
proof -
  have st: "lock_step (r j) (r (Suc j))" for j using assms(1) by (simp add: lock_run_def)
  note inv = lock_run_invariant [OF assms(1)]
  have free: "lock (the_lock (r (i + k))) = 0" for k
    by (induction k) (use assms(3) free_step [OF st conjunct1 [OF inv]] never in auto)
  have mono: "spinning (r j) c \<le> spinning (r (j + k)) c" if "j \<ge> i" for j k
    by (rule spinning_mono [OF assms(1) never that])
  show ?thesis
  proof (induction n)
    case (Suc n)
    then obtain j where j: "j \<ge> i" "spinning (r j) c \<ge> n" by blast
    obtain k where k: "k \<ge> j" "r (Suc k) = run_instr c (r k) \<or> hd (frames (r k) c) = Critical \<or> frames (r k) c = [Outside]"
      using assms(2) unfolding fair_run_def by blast
    have ki: "lock (the_lock (r k)) = 0" "k \<ge> i" using free [of "k - i"] k(1) j(1) by simp_all
    have more: "spinning (r k) c \<ge> n" "spinning (r k) c > 0"
      using mono [OF j(1), of "k - j"] mono [of i "k - i"] j k(1) ki(2) assms(4) by (simp_all flip: length_greater_0_conv del: length_greater_0_conv)
    have ne: "frames (r k) c \<noteq> []" using more(2) by auto
    have "hd (frames (r k) c) \<noteq> Critical"
      using conjunct1 [OF inv [of k]] ki(1) hd_in_set [OF ne] by (auto simp: lock_owned_def holders_def filter_empty_conv holds_def)
    then have "r (Suc k) = run_instr c (r k)" using k(2) more(2) by auto
    then have "spinning (r (Suc k)) c = Suc (spinning (r k) c)"
      using spinning_run_instr [OF conjunct1 [OF inv] ki(1) ne] never [OF ki(2), of c] by simp
    then show ?case using more(1) ki(2) by (intro exI [of _ "Suc k"]) simp
  qed auto
qed

text \<open>C25. The lock is free of deadlock on every infinite fair run, with any number of processors, in any
  interleaving and with interrupts: when some processor waits at the test-and-set then, now or later,
  some processor acquires the lock. The run must end every locked section, however many steps it
  takes, leave activations with the lock uninterrupted and bound the nesting of interrupts of the
  waiting processor; a section that halts with the lock, and an interrupt between the
  test-and-set and the \<open>cli\<close>, do block the others.\<close>

theorem spinlock_deadlock_free:
  assumes "lock_run r" and "fair_run r" and "sections_end r" and "holders_undisturbed r"
    and "\<And>i. length (frames (r i) c) \<le> nesting"
    and "Spin \<in> set (frames (r i) c)"
  shows "\<exists>j\<ge>i. \<exists>c'. acquires c' (r j) (r (Suc j))"
proof (rule ccontr)
  assume "\<not> ?thesis"
  then have never: "\<not> acquires d (r j) (r (Suc j))" if "j \<ge> i" for j d using that by blast
  obtain k where k: "k \<ge> i" "lock (the_lock (r k)) = 0" using lock_freed [OF assms(1-4)] by blast
  have "spinning (r i) c > 0" using assms(6) by (simp add: filter_empty_conv)
  moreover have "spinning (r i) c \<le> spinning (r (i + (k - i))) c" by (rule spinning_mono [OF assms(1) never order_refl])
  ultimately have "spinning (r k) c > 0" using k(1) by (simp del: length_greater_0_conv)
  then have "\<exists>j\<ge>k. spinning (r j) c \<ge> Suc nesting"
    by (rule free_collects [OF assms(1,2) k(2)]) (use never k(1) in simp)
  then obtain j where "spinning (r j) c \<ge> Suc nesting" by blast
  then show False using assms(5) [of j] length_filter_le [of "\<lambda>pc. pc = Spin" "frames (r j) c"] by simp
qed

text \<open>Two processors that take turns at every instruction.\<close>

fun taking_turns :: "nat \<Rightarrow> bool lock_state" where
  "taking_turns 0 = two_cpus"
| "taking_turns (Suc n) = run_instr (even n) (taking_turns n)"

lemma length_run_instr: "length (frames (run_instr c s) d) = length (frames s d)"
  by (auto simp: run_instr_def split: list.splits prod.splits)

lemma length_taking_turns: "length (frames (taking_turns n) c) = 1"
  by (induction n) (simp_all add: length_run_instr two_cpus_def)

lemma turn_comes:
  obtains j :: nat where "i \<le> j" "even j = c"
  by (cases "even i = c") (use that [of i] that [of "Suc i"] in auto)

lemma lock_run_taking_turns: "lock_run taking_turns"
  by (simp add: lock_run_def lock_initial_two_cpus lock_step.instr)

lemma fair_run_taking_turns: "fair_run taking_turns"
  unfolding fair_run_def
proof (intro allI)
  fix c i
  obtain j :: nat where j: "i \<le> j" "even j = c" by (rule turn_comes)
  then show "\<exists>j\<ge>i. taking_turns (Suc j) = run_instr c (taking_turns j) \<or> hd (frames (taking_turns j) c) = Critical
      \<or> frames (taking_turns j) c = [Outside]"
    by (intro exI [of _ j] conjI disjI1) simp_all
qed

lemma sections_end_taking_turns: "sections_end taking_turns"
  unfolding sections_end_def
proof (intro allI impI)
  fix c i
  obtain j :: nat where j: "i \<le> j" "even j = c" by (rule turn_comes)
  show "\<exists>j\<ge>i. hd (frames (taking_turns j) c) \<noteq> Critical"
  proof (cases "hd (frames (taking_turns j) c) = Critical")
    case True
    then have "frames (taking_turns j) c = [Critical]"
      using length_taking_turns [of j c] by (cases "frames (taking_turns j) c") auto
    then have "hd (frames (taking_turns (Suc j)) c) \<noteq> Critical" using j(2) by (simp add: run_instr_def)
    then show ?thesis using j(1) le_SucI by blast
  qed (use j(1) in blast)
qed

lemma holders_undisturbed_taking_turns: "holders_undisturbed taking_turns"
proof -
  have "tl (frames (taking_turns i) c) = []" for i c
    using length_taking_turns [of i c] by (cases "frames (taking_turns i) c") auto
  then show ?thesis by (simp add: holders_undisturbed_def)
qed

theorem spinlock_deadlock_free_witness:
  "frames (taking_turns 4) False = [Spin] \<and> frames (taking_turns 4) True = [Save_Flag]
   \<and> (\<exists>j\<ge>4. \<exists>c. acquires c (taking_turns j) (taking_turns (Suc j)))"
proof -
  have "taking_turns 2 = run_instr False (run_instr True two_cpus)"
    unfolding numeral_2_eq_2 by simp
  then have "taking_turns 4 = run_instr False (run_instr True (run_instr False (run_instr True two_cpus)))"
    using taking_turns.simps(2) [of 3] taking_turns.simps(2) [of 2] by simp
  then have f: "frames (taking_turns 4) False = [Spin]" "frames (taking_turns 4) True = [Save_Flag]"
    by (simp_all add: run_instr_def two_cpus_def atomic_test_and_set_def)
  have "\<exists>j\<ge>4. \<exists>c. acquires c (taking_turns j) (taking_turns (Suc j))"
    by (rule spinlock_deadlock_free [OF lock_run_taking_turns fair_run_taking_turns sections_end_taking_turns
          holders_undisturbed_taking_turns, where c = False and nesting = 1])
      (simp_all add: length_taking_turns f(1))
  with f show ?thesis by blast
qed

text \<open>A section that never ends keeps everybody out: the hypothesis on the sections is needed.\<close>

lemma halted_section_blocks:
  assumes "lock_run r" and "\<And>j. j \<ge> i \<Longrightarrow> hd (frames (r j) c) = Critical" and "j \<ge> i"
  shows "\<not> acquires c' (r j) (r (Suc j))"
proof
  assume a: "acquires c' (r j) (r (Suc j))"
  note inv = lock_run_invariant [OF assms(1), of "Suc j"]
  have ne: "frames (r (Suc j)) c \<noteq> []" using inv by (simp add: lock_quiet_def)
  then have c: "Critical \<in> set (holders (r (Suc j)) c)"
    using assms(2) [of "Suc j"] assms(3) by (cases "frames (r (Suc j)) c") (auto simp: lock_pc_simps)
  have c': "Save_Flag \<in> set (holders (r (Suc j)) c')" using a by (auto simp: acquires_def lock_pc_simps)
  have "c' \<noteq> c" using a assms(2) [of j] assms(3) by (auto simp: acquires_def)
  then show False using inv c c' by (auto simp: lock_owned_def split: if_splits) (metis empty_iff list.set(1))
qed

section \<open>The interrupt window\<close>

definition stuck :: "'c \<Rightarrow> 'c lock_state \<Rightarrow> bool" where
  "stuck c s \<longleftrightarrow> frames s c = [Spin, Save_Flag] \<and> \<not> iflags s c \<and> lock (the_lock s) \<noteq> 0 \<and> (\<forall>c'. c' \<noteq> c \<longrightarrow> holders s c' = [])"

lemma stuck_run_instr:
  assumes "stuck c s"
  shows "stuck c (run_instr d s)"
proof (cases "frames s d")
  case Nil
  then show ?thesis using assms by (simp add: run_instr_def)
next
  case (Cons pc fs)
  obtain pc' l' iflag' where i: "lock_instr pc (the_lock s) (iflags s d) = (pc', l', iflag')"
    by (metis prod_cases3)
  note h = holders_run_instr [OF Cons i] and k = lock_instr_cases [OF i]
  show ?thesis
  proof (cases "d = c")
    case True
    then show ?thesis
      using assms Cons i h by (auto simp: stuck_def run_instr_def atomic_test_and_set_def)
  next
    case False
    then have n: "\<not> holds pc" "filter holds fs = []"
      using assms Cons by (auto simp: stuck_def holders_def split: if_splits)
    then have "pc \<noteq> Clear" by (auto simp: holds_def)
    moreover have "frames (run_instr d s) c = frames s c" "iflags (run_instr d s) c = iflags s c"
      using False Cons i by (simp_all add: run_instr_def)
    ultimately show ?thesis using assms False n h k by (auto simp: stuck_def)
  qed
qed

lemma stuck_step:
  assumes "lock_step s t" "stuck c s"
  shows "stuck c t"
proof (cases "\<exists>d. t = run_instr d s")
  case True
  then show ?thesis using assms(2) by (auto simp: stuck_run_instr)
next
  case False
  then have h: "holders t = holders s" "the_lock t = the_lock s" using lock_step_holders [OF assms(1)] by auto
  from assms(1) have "frames t c = frames s c \<and> iflags t c = iflags s c"
    by cases (use False assms(2) in \<open>auto simp: stuck_def\<close>)
  then show ?thesis using assms(2) h by (simp add: stuck_def)
qed

lemma stuck_reach: "lock_reach s t \<Longrightarrow> stuck c s \<Longrightarrow> stuck c t"
  by (induction rule: lock_reach.induct) (auto intro: stuck_step)

text \<open>C26. An interrupt between the test-and-set of \<open>spinlock_acquire\<close> and its \<open>cli\<close>, whose handler takes
  the same lock, locks the machine up: from then on the processor spins forever on the lock it
  holds itself, and no other processor gets past the lock.\<close>

theorem spinlock_interrupt_deadlock:
  assumes "lock_initial s" and "iflags s c"
  shows "\<exists>t. lock_reach s t \<and> (\<forall>u. lock_reach t u \<longrightarrow> frames u c = [Spin, Save_Flag] \<and> (\<forall>c'. c' \<noteq> c \<longrightarrow> holders u c' = []))"
proof -
  let ?a = "(run_instr c ^^ 2) s"
  let ?b = "?a\<lparr>iflags := (iflags ?a)(c := False), frames := (frames ?a)(c := Outside # frames ?a c)\<rparr>"
  let ?t = "run_instr c ?b"
  have a: "iflags ?a c" "frames ?a = (frames s)(c := [Save_Flag])" "lock (the_lock ?a) \<noteq> 0"
    using assms by (auto simp: numeral_eq_Suc run_instr_def lock_initial_def atomic_test_and_set_def fun_eq_iff)
  have "lock_reach s ?b" by (rule lock_reach.step [OF lock_reach_instrs lock_step.interrupt]) (rule a(1))
  then have "lock_reach s ?t" by (rule lock_reach.step) (rule lock_step.instr)
  moreover have "stuck c ?t"
    using a assms(1) by (auto simp: stuck_def run_instr_def holders_def lock_initial_def holds_def)
  then have "stuck c u" if "lock_reach ?t u" for u
    using stuck_reach [OF that] by blast
  ultimately show ?thesis unfolding stuck_def by blast
qed

theorem spinlock_interrupt_deadlock_witness:
  "\<exists>t. lock_reach two_cpus t \<and> (\<forall>u. lock_reach t u \<longrightarrow> frames u True = [Spin, Save_Flag] \<and> (\<forall>c'. c' \<noteq> True \<longrightarrow> holders u c' = []))"
  by (rule spinlock_interrupt_deadlock [OF lock_initial_two_cpus]) (simp add: two_cpus_def)

end
