(* ===== verification/Serial.thy ===== *)
theory Serial
  imports Printf_Correct Devices Spinlock
begin

text \<open>
  \<open>libk/serial/debug.c\<close> and \<open>libk/serial/log.c\<close>: a message is formatted into a static buffer under a
  spinlock and sent over the first serial line. The state is what the two files and their
  callees use of the machine; the addresses of the static buffers and of the string literals
  are chosen by the linker and are parameters.
\<close>

record console_state =
  cmem :: memory
  io :: "io_event list"
  iflag :: bool
  debug_lock :: spinlock_t
  log_lock :: spinlock_t

text \<open>
  \<open>debug_buffer\<close> and \<open>log_buffer\<close> are arrays of 5120 bytes, but \<open>vsnprintf\<close> is called with the bound \<open>-1\<close>. What
  lies behind an array is up to the linker, the locks among it, so a write there is the error
  \<open>Out_Of_Bounds\<close>: \<open>out_object\<close> is \<open>_out_buffer\<close> on an array of \<open>cap\<close> bytes and notes in \<open>odev\<close> that a write
  fell behind it.
\<close>

definition out_object :: "nat \<Rightarrow> bool out_fct_type" where
  "out_object cap character buffer idx maxlen s =
     (if idx < maxlen
      then \<lparr>omem = (omem s)(buffer + idx := of_char character), odev = odev s \<or> cap \<le> unat idx\<rparr>
      else s)"

definition vsnprintf_object ::
  "nat \<Rightarrow> u64 \<Rightarrow> u64 \<Rightarrow> string \<Rightarrow> va_list \<Rightarrow> memory \<Rightarrow> memory result option" where
  "vsnprintf_object cap buffer count format va m =
     obind (vsnprintf_internal (out_object cap) buffer count format va \<lparr>omem = m, odev = False\<rparr>) (\<lambda>(n, out).
       if odev out then Some (Inl Out_Of_Bounds) else Some (Inr (omem out)))"

definition debug ::
  "io_device \<Rightarrow> u64 \<Rightarrow> string \<Rightarrow> va_list \<Rightarrow> console_state \<Rightarrow> console_state result option" where
  "debug dev debug_buffer fmt va s =
     (case spinlock_acquire (debug_lock s) (iflag s) of
        None \<Rightarrow> None
      | Some (l, f) \<Rightarrow>
          obind (vsnprintf_object 5120 debug_buffer (- 1) fmt va (cmem s)) (\<lambda>m.
          obind (com_send_string dev COM1 m debug_buffer (io s)) (\<lambda>h.
            let (l, f) = spinlock_release l f
            in Some (Inr (s\<lparr>cmem := m, io := h, iflag := f, debug_lock := l\<rparr>)))))"

text \<open>
  A failed assertion in \<open>debug_set_color\<close> calls \<open>log\<close>, which calls \<open>debug_set_color\<close> again while the
  lock is held: the machine spins, \<open>None\<close>.
\<close>

definition debug_set_color :: "io_device \<Rightarrow> u64 \<Rightarrow> console_state \<Rightarrow> console_state result option" where
  "debug_set_color dev color_code s =
     (case spinlock_acquire (debug_lock s) (iflag s) of
        None \<Rightarrow> None
      | Some (l, f) \<Rightarrow>
          if \<not> (cmem s color_code = 0x1B \<and> cmem s (color_code + 1) = of_char CHR ''['') then None
          else obind (com_send_string dev COM1 (cmem s) color_code (io s)) (\<lambda>h.
                 let (l, f) = spinlock_release l f
                 in Some (Inr (s\<lparr>io := h, iflag := f, debug_lock := l\<rparr>))))"

datatype log_status_t = INFO | WARNING | PANIC | SUCCESS | FAIL

abbreviation ESC :: string where "ESC \<equiv> [CHR 0x1B]"

definition TERM_BLACK :: string where "TERM_BLACK = ESC @ ''[0;30m''"
definition TERM_RED :: string where "TERM_RED = ESC @ ''[0;31m''"
definition TERM_GREEN :: string where "TERM_GREEN = ESC @ ''[0;32m''"
definition TERM_YELLOW :: string where "TERM_YELLOW = ESC @ ''[0;33m''"
definition TERM_BLUE :: string where "TERM_BLUE = ESC @ ''[0;34m''"
definition TERM_PURPLE :: string where "TERM_PURPLE = ESC @ ''[0;35m''"
definition TERM_CYAN :: string where "TERM_CYAN = ESC @ ''[0;36m''"
definition TERM_WHITE :: string where "TERM_WHITE = ESC @ ''[0;37m''"
definition TERM_COLOR_RESET :: string where "TERM_COLOR_RESET = ESC @ ''[0m''"

fun log_color :: "log_status_t \<Rightarrow> string" where
  "log_color INFO = TERM_CYAN"
| "log_color WARNING = TERM_YELLOW"
| "log_color PANIC = TERM_RED"
| "log_color SUCCESS = TERM_GREEN"
| "log_color FAIL = TERM_PURPLE"

text \<open>The two marks of \<open>SUCCESS\<close> and \<open>FAIL\<close> are the bytes of their encoding in the source file.\<close>

fun log_format :: "log_status_t \<Rightarrow> string" where
  "log_format INFO = ''[INFO]    | %s:%d -> %s''"
| "log_format WARNING = ''[WARNING] | %s:%d -> %s''"
| "log_format PANIC = ''[PANIC]   | %s:%d -> %s''"
| "log_format SUCCESS = ''[ '' @ [CHR 0xF0, CHR 0x9F, CHR 0x97, CHR 0xB8] @ '' ]'' @ [CHR 0x09] @ ''| %s:%d -> %s''"
| "log_format FAIL = ''[ '' @ [CHR 0xE2, CHR 0x9C, CHR 0x97] @ '' ]'' @ [CHR 0x09] @ ''| %s:%d -> %s''"

text \<open>
  \<open>log_impl\<close>; the flag of the result says that the processor halted, which a panic does with the
  log lock held. \<open>lit\<close> is the address of a colour literal.
\<close>

definition log_impl ::
  "io_device \<Rightarrow> u64 \<Rightarrow> u64 \<Rightarrow> (string \<Rightarrow> u64) \<Rightarrow> u64 \<Rightarrow> u32 \<Rightarrow> log_status_t \<Rightarrow> string \<Rightarrow> va_list \<Rightarrow> console_state
   \<Rightarrow> (bool \<times> console_state) result option" where
  "log_impl dev debug_buffer log_buffer lit file line_nr status fmt va s =
     (case spinlock_acquire (log_lock s) (iflag s) of
        None \<Rightarrow> None
      | Some (l, f) \<Rightarrow>
          obind (vsnprintf_object 5120 log_buffer (- 1) fmt va (cmem s)) (\<lambda>m.
          obind (debug_set_color dev (lit (log_color status)) (s\<lparr>cmem := m, iflag := f, log_lock := l\<rparr>)) (\<lambda>s.
          obind (debug dev debug_buffer (log_format status) [file, ucast line_nr, log_buffer] s) (\<lambda>s.
            if status = PANIC then Some (Inr (True, s\<lparr>iflag := False\<rparr>))
            else obind (debug_set_color dev (lit TERM_COLOR_RESET) s) (\<lambda>s.
                   let (l, f) = spinlock_release (log_lock s) (iflag s)
                   in Some (Inr (False, s\<lparr>iflag := f, log_lock := l\<rparr>)))))))"

section \<open>What reaches the serial line\<close>

lemma of_char_u8_zero: "of_char c = (0 :: u8) \<Longrightarrow> c = CHR 0x00"
proof -
  assume "of_char c = (0 :: u8)"
  then have "unat (of_nat (of_char c) :: u8) = 0" by (simp add: of_nat_of_char)
  moreover have "unat (of_nat (of_char c) :: u8) = of_char c"
    using nat_of_char_less_256 [of c] by (simp add: unat_of_nat)
  ultimately have "of_char c = (of_char CHR 0x00 :: nat)" by simp
  then show ?thesis by (simp only: of_char_eq_iff)
qed

lemma cstring_text:
  assumes "CHR 0x00 \<notin> set t" and "\<And>i. i < length t \<Longrightarrow> m (buffer + of_nat i) = of_char (t ! i)"
    and "m (buffer + of_nat (length t)) = 0"
  shows "cstring_at m buffer (length t)" "cstring m buffer (length t) = map of_char t"
proof -
  have "of_char (t ! i) \<noteq> (0 :: u8)" if "i < length t" for i
    using of_char_u8_zero [of "t ! i"] that assms(1) nth_mem [of i t] by metis
  then show "cstring_at m buffer (length t)" using assms(2,3) by (simp add: cstring_at_def)
  show "cstring m buffer (length t) = map of_char t"
    using assms(2) by (intro nth_equalityI) (simp_all add: cstring_def)
qed

lemma vsnprintf_unbounded:
  assumes "buffer \<noteq> 0" and "vformat (omem s) format va = Some (Inr t)" and "length t < 2 ^ 64 - 1" and "CHR 0x00 \<notin> set t"
    and "\<forall>p\<in>set va. reads_kept {a. length t \<le> unat (a - buffer)} (omem s) p"
  shows "\<exists>n s'. vsnprintf buffer (- 1) format va s = Some (Inr (n, s')) \<and> cstring_at (omem s') buffer (length t)
    \<and> cstring (omem s') buffer (length t) = map of_char t \<and> (\<forall>a. length t < unat (a - buffer) \<longrightarrow> omem s' a = omem s a)"
proof -
  have u: "unat (- 1 :: u64) = 2 ^ 64 - 1" by (simp add: unsigned_minus_1_eq_mask mask_eq_exp_minus_1)
  then have m: "min (unat (- 1 :: u64)) (length t) = length t" "min (length t) (unat (- 1 :: u64) - 1) = length t"
    using assms(3) by simp_all
  obtain s' where s': "snprintf buffer (- 1) format va s = Some (Inr (sint (of_nat (length t) :: u32), s'))"
    and mem: "\<And>a. omem s' a = (let i = unat (a - buffer); n = length t
       in if i < n then of_char (t ! i) else if i = n then 0 else omem s a)"
    using snprintf_text [OF assms(1,2), of "- 1"] assms(3,5) m by (auto simp: word_gt_0)
  have i: "unat (buffer + of_nat i - buffer) = i" if "i \<le> length t" for i
    using that assms(3) by (simp add: unat_of_nat)
  have "cstring_at (omem s') buffer (length t)" "cstring (omem s') buffer (length t) = map of_char t"
    by (rule cstring_text [OF assms(4)]; use i mem in \<open>simp add: Let_def\<close>)+
  moreover have "omem s' a = omem s a" if "length t < unat (a - buffer)" for a using mem that by (simp add: Let_def)
  ultimately show ?thesis using s' by (simp add: vsnprintf_def snprintf_def)
qed

interpretation object_sink: printf_sink "out_object cap" buffer maxlen "{a. min (unat maxlen) limit \<le> unat (a - buffer)}"
    "\<lambda>idx. unat idx < limit \<or> maxlen \<le> idx" for cap buffer maxlen limit
  by unfold_locales (auto simp: out_object_def word_less_nat_alt word_le_nat_alt)

text \<open>\<open>out_object\<close> writes what \<open>_out_buffer\<close> writes and notices the first byte too far.\<close>

lemma unat_minus_one_u64: "unat (- 1 :: u64) = 2 ^ 64 - 1"
  by (simp add: unsigned_minus_1_eq_mask mask_eq_exp_minus_1)

lemma out_object_chars:
  assumes "unat idx + length t < 2 ^ 64"
  shows "out_chars (out_object cap) buffer (- 1) t (idx, s) = (idx + of_nat (length t),
    \<lparr>omem = omem (snd (out_chars out_buffer buffer (- 1) t (idx, \<lparr>omem = omem s, odev = ()\<rparr>))),
     odev = odev s \<or> t \<noteq> [] \<and> cap < unat idx + length t\<rparr>)"
  using assms
proof (induction t arbitrary: idx s)
  case (Cons c t)
  have idx: "unat (idx + 1) = Suc (unat idx)" "idx < - 1"
    using Cons.prems by (simp_all add: unat_add_no_wrap word_less_nat_alt unat_minus_one_u64)
  show ?case
    unfolding out_chars.simps
    by (subst Cons.IH, use Cons.prems idx in simp) (use idx in \<open>auto simp: out_object_def out_buffer_def\<close>)
qed simp

lemma vsnprintf_object_text:
  assumes "buffer \<noteq> 0" and "vformat m format va = Some (Inr t)" and "length t < 2 ^ 64 - 1" and "CHR 0x00 \<notin> set t"
    and "\<forall>p\<in>set va. reads_kept {a. length t \<le> unat (a - buffer)} m p"
  shows "\<exists>m'. vsnprintf_object cap buffer (- 1) format va m = Some (if length t < cap then Inr m' else Inl Out_Of_Bounds)
    \<and> cstring_at m' buffer (length t) \<and> cstring m' buffer (length t) = map of_char t
    \<and> (\<forall>a. length t < unat (a - buffer) \<longrightarrow> m' a = m a)"
proof -
  let ?b = "\<lparr>omem = m, odev = ()\<rparr>" and ?o = "\<lparr>omem = m, odev = False\<rparr>" and ?n = "of_nat (length t) :: u64"
  have "min (unat (- 1 :: u64)) (length t) = length t" using assms(3) by (simp add: unat_minus_one_u64)
  then have kept: "\<forall>p\<in>set va. reads_kept {a. min (unat (- 1 :: u64)) (length t) \<le> unat (a - buffer)} m p" using assms(5) by simp
  have n: "unat ?n = length t" "?n < - 1" using assms(3) by (simp_all add: word_less_nat_alt unat_minus_one_u64 unat_of_nat)
  have ok: "run_ok (\<lambda>idx. unat idx < length t \<or> - 1 \<le> idx) 0 (length t)"
    using assms(3) by (simp add: run_ok_def unat_of_nat)
  define u where "u = snd (out_chars out_buffer buffer (- 1) t (0, ?b))"
  have b: "out_chars out_buffer buffer (- 1) t (0, ?b) = (?n, u)"
    using fst_out_chars [of out_buffer buffer "- 1" t "(0, ?b)"] by (simp add: u_def prod_eq_iff)
  have "vsnprintf_loop out_buffer buffer (- 1) format va 0 ?b = Some (Inr (?n, u))"
    unfolding b [symmetric] by (rule buffer_sink.vsnprintf_loop_text [OF agrees_self]) (use assms(2) kept ok in simp_all)
  then have v: "vsnprintf buffer (- 1) format va ?b = Some (Inr (sint (ucast ?n :: u32), out_buffer CHR 0x00 buffer ?n (- 1) u))"
    using assms(1) n by (simp add: vsnprintf_def vsnprintf_internal_def)
  let ?f = "t \<noteq> [] \<and> cap < length t"
  have o: "out_chars (out_object cap) buffer (- 1) t (0, ?o) = (?n, \<lparr>omem = omem u, odev = ?f\<rparr>)"
    using out_object_chars [of 0 t cap buffer ?o] assms(3) by (simp add: u_def)
  have "vsnprintf_loop (out_object cap) buffer (- 1) format va 0 ?o = Some (Inr (?n, \<lparr>omem = omem u, odev = ?f\<rparr>))"
    unfolding o [symmetric] by (rule object_sink.vsnprintf_loop_text [OF agrees_self]) (use assms(2) kept ok in simp_all)
  then have "vsnprintf_object cap buffer (- 1) format va m = Some (if length t < cap
      then Inr (omem (out_buffer CHR 0x00 buffer ?n (- 1) u)) else Inl Out_Of_Bounds)"
    using assms(1) n by (auto simp: vsnprintf_object_def vsnprintf_internal_def out_object_def out_buffer_def)
  moreover have "cstring_at (omem (out_buffer CHR 0x00 buffer ?n (- 1) u)) buffer (length t)
      \<and> cstring (omem (out_buffer CHR 0x00 buffer ?n (- 1) u)) buffer (length t) = map of_char t
      \<and> (\<forall>a. length t < unat (a - buffer) \<longrightarrow> omem (out_buffer CHR 0x00 buffer ?n (- 1) u) a = m a)"
    using vsnprintf_unbounded [of buffer ?b format va t] assms v by auto
  ultimately show ?thesis by blast
qed

text \<open>C30. \<open>debug\<close>, called with its lock free on a serial line that works. A message whose text has less than 5120
  characters is sent exactly, the lock is released, the interrupt flag restored, and only
  the buffer from its start to the null character behind the text changes. A longer text is written past
  the end of \<open>debug_buffer\<close>: the call is an access out of bounds.\<close>

theorem debug_prints:
  assumes "lock (debug_lock s) = 0" and "transmits dev COM1" and "buffer \<noteq> 0"
    and "vformat (cmem s) fmt va = Some (Inr t)" and "length t < 2 ^ 64 - 1" and "CHR 0x00 \<notin> set t"
    and "\<forall>p\<in>set va. reads_kept {a. length t \<le> unat (a - buffer)} (cmem s) p"
  shows "if length t < 5120
    then \<exists>u. debug dev buffer fmt va s = Some (Inr u) \<and> sent COM1 (io u) = sent COM1 (io s) @ map of_char t
      \<and> lock (debug_lock u) = 0 \<and> iflag u = iflag s \<and> cstring (cmem u) buffer (length t) = map of_char t
      \<and> (\<forall>a. length t < unat (a - buffer) \<longrightarrow> cmem u a = cmem s a)
    else debug dev buffer fmt va s = Some (Inl Out_Of_Bounds)"
proof -
  obtain m where m: "vsnprintf_object 5120 buffer (- 1) fmt va (cmem s) = Some (if length t < 5120 then Inr m else Inl Out_Of_Bounds)"
      "cstring_at m buffer (length t)" "cstring m buffer (length t) = map of_char t"
      "\<forall>a. length t < unat (a - buffer) \<longrightarrow> m a = cmem s a"
    using vsnprintf_object_text [OF assms(3-7), of 5120] by blast
  show ?thesis
  proof (cases "length t < 5120")
    case True
    obtain h where h: "com_send_string dev COM1 m buffer (io s) = Some (Inr h)" "sent COM1 h = sent COM1 (io s) @ map of_char t"
      using com_send_string_sent [OF assms(2) m(2), of "io s"] m(3) True by auto
    have "debug dev buffer fmt va s = Some (Inr (s\<lparr>cmem := m, io := h, iflag := iflag s,
        debug_lock := \<lparr>lock = 0, interrupts = iflag s\<rparr>\<rparr>))"
      using assms(1) m(1) h(1) True by (simp add: debug_def spinlock_acquire_free spinlock_release_def atomic_clear_def)
    then show ?thesis using m h True by simp
  next
    case False
    then show ?thesis using assms(1) m(1) by (simp add: debug_def spinlock_acquire_free)
  qed
qed

text \<open>A line that is always ready, and a console in a memory of zeros.\<close>

definition ready_line :: io_device where
  "ready_line h port = 0x20"

definition example_console :: console_state where
  "example_console = \<lparr>cmem = (\<lambda>_. 0), io = [], iflag = True, debug_lock = \<lparr>lock = 0, interrupts = False\<rparr>,
     log_lock = \<lparr>lock = 0, interrupts = False\<rparr>\<rparr>"

lemma transmits_ready_line: "transmits ready_line port"
  by (simp add: transmits_def ready_line_def)

theorem debug_prints_witness:
  "\<exists>u. debug ready_line 0x5000 ''CPU %d'' [3] example_console = Some (Inr u)
     \<and> sent COM1 (io u) = map of_char ''CPU 3'' \<and> iflag u"
proof -
  have t: "vformat (cmem example_console) ''CPU %d'' [3] = Some (Inr ''CPU 3'')" by code_simp
  have rk: "\<forall>p\<in>set [3]. reads_kept {a. length ''CPU 3'' \<le> unat (a - 0x5000)} (cmem example_console) p"
    by (simp add: reads_kept_empty example_console_def)
  show ?thesis
    using debug_prints [OF _ transmits_ready_line _ t _ _ rk] by (fastforce simp: example_console_def sent_def)
qed

end
