(* ===== verification/Interrupts.thy ===== *)
theory Interrupts
  imports Serial Kernel_Memory
begin

text \<open>
  \<open>tables/isr.c\<close>, the C side of every interrupt, with the structure \<open>cpu_interrupt_state_t\<close> of
  \<open>hardware/cpu.h\<close> it reads from the stack and the macros \<open>pusha64\<close> and \<open>popa64\<close> of
  \<open>utility/definitions.inc\<close> the stubs save and restore the registers with. The effect of the handler
  is the list of its calls in order, and whether it returns or halts the processor.
\<close>

section \<open>The saved state\<close>

record cpu_interrupt_state_t =
  reg_r15 :: u64
  reg_r14 :: u64
  reg_r13 :: u64
  reg_r12 :: u64
  reg_r11 :: u64
  reg_r10 :: u64
  reg_r9 :: u64
  reg_r8 :: u64
  reg_rbp :: u64
  reg_rdi :: u64
  reg_rsi :: u64
  reg_rdx :: u64
  reg_rcx :: u64
  reg_rbx :: u64
  reg_rax :: u64
  isr_number :: u64
  error_code :: u64
  reg_rip :: u64
  reg_cs :: u64
  reg_rflags :: u64
  reg_rsp :: u64
  reg_ss :: u64

text \<open>The structure at a stack pointer: 22 consecutive eight-byte fields.\<close>

definition cpu_interrupt_state_at :: "memory \<Rightarrow> u64 \<Rightarrow> cpu_interrupt_state_t" where
  "cpu_interrupt_state_at m p =
     (let f = (\<lambda>i. load64 m (p + 8 * i)) in
      \<lparr>reg_r15 = f 0, reg_r14 = f 1, reg_r13 = f 2, reg_r12 = f 3, reg_r11 = f 4, reg_r10 = f 5, reg_r9 = f 6, reg_r8 = f 7, reg_rbp = f 8, reg_rdi = f 9, reg_rsi = f 10, reg_rdx = f 11, reg_rcx = f 12, reg_rbx = f 13, reg_rax = f 14,
       isr_number = f 15, error_code = f 16, reg_rip = f 17, reg_cs = f 18, reg_rflags = f 19, reg_rsp = f 20, reg_ss = f 21\<rparr>)"

section \<open>The handler\<close>

abbreviation NL :: string where "NL \<equiv> [CHR 0x0A]"

text \<open>The characters of the source outside ASCII, byte by byte.\<close>

definition LINE :: string where "LINE = concat (replicate 24 [CHR 0xE2, CHR 0x94, CHR 0x80])"
definition WARN :: string where "WARN = [CHR 0xE2, CHR 0x9A, CHR 0xA0]"
definition ARROW :: string where "ARROW = [CHR 0xE2, CHR 0xA4, CHR 0xB7]"
definition DASH :: string where "DASH = [CHR 0xE2, CHR 0x80, CHR 0x94]"
definition INFO_SIGN :: string where "INFO_SIGN = [CHR 0xE2, CHR 0x84, CHR 0xB9]"

definition exceptions :: "string list" where
  "exceptions =
    [''#DE: Divide Error'',
     ''#DB: Debug Exception'',
     '' '' @ DASH @ '' : NMI Interrupt'',
     ''#BP: Breakpoint'',
     ''#OF: Overflow'',
     ''#BR: BOUND Range Exceeded'',
     ''#UD: Invalid Opcode (Undefined Opcode)'',
     ''#NM: Device Not Available (No Math Coprocessor)'',
     ''#DF: Double Fault'',
     DASH @ '' : Coprocessor Segment Overrun (reserved)'',
     ''#TS: Invalid TSS'',
     ''#NP: Segment Not Present'',
     ''#SS: Stack-Segment Fault'',
     ''#GP: General Protection'',
     ''#PF: Page Fault'',
     DASH @ '' : (Intel reserved. Do not use.)'',
     ''#MF: x87 FPU Floating-Point Error (Math Fault)'',
     ''#AC: Alignment Check'',
     ''#MC: Machine Check'',
     ''#XM: SIMD Floating-Point Exception'',
     ''#VE: Virtualization Exception'',
     ''#CP: Control Protection Exception'',
     DASH @ '' : Intel reserved. Do not use.'',
     DASH @ '' : Intel reserved. Do not use.'',
     DASH @ '' : Intel reserved. Do not use.'',
     DASH @ '' : Intel reserved. Do not use.'',
     DASH @ '' : Intel reserved. Do not use.'',
     DASH @ '' : Intel reserved. Do not use.'',
     DASH @ '' : Intel reserved. Do not use.'',
     DASH @ '' : Intel reserved. Do not use.'',
     DASH @ '' : Intel reserved. Do not use.'',
     DASH @ '' : Intel reserved. Do not use.'']"

definition isa_irqs :: "string list" where
  "isa_irqs =
    [''Programmable Interrupt Timer'',
     ''Keyboard'',
     ''Cascade'',
     ''COM2'',
     ''COM1'',
     ''LPT2'',
     ''Floppy Disk'',
     ''LPT1 / Unreliable spurious interrupt'',
     ''CMOS real-time clock'',
     ''Free for peripherals / legacy SCSI / NIC'',
     ''Free for peripherals / SCSI / NIC'',
     ''Free for peripherals / SCSI / NIC'',
     ''PS2 Mouse'',
     ''FPU / Coprocessor / Inter-processor'',
     ''Primary ATA Hard Disk'',
     ''Secondary ATA Hard Disk'']"

abbreviation (input) LAPIC_TIMER_INT :: u64 where "LAPIC_TIMER_INT \<equiv> 32"
abbreviation (input) SYSCALL_INT :: u64 where "SYSCALL_INT \<equiv> 128"
abbreviation (input) SPURIOUS_INT :: u64 where "SPURIOUS_INT \<equiv> 255"

datatype debug_arg = Int_Arg u64 | Str_Arg string

datatype isr_action = Set_Color string | Debug string "debug_arg list" | Signal_Eoi

datatype isr_outcome = Returns u64 | Halts

text \<open>An element of a static table; an index behind its end is an error.\<close>

definition table_entry :: "'x list \<Rightarrow> u64 \<Rightarrow> 'x result" where
  "table_entry xs i = (if unat i < length xs then Inr (xs ! unat i) else Inl Out_Of_Bounds)"

definition isr_register_dump :: "cpu_interrupt_state_t \<Rightarrow> isr_action list" where
  "isr_register_dump cpu =
     [Debug (INFO_SIGN @ '' Register dump:'' @ NL @ NL) [],
      Debug ((ARROW @ '' rax: 0x%.16llx, rbx:    0x%.16llx, rcx: 0x%.16llx, rdx: 0x%.16llx'' @ NL) @
       (ARROW @ '' rsi: 0x%.16llx, rdi:    0x%.16llx, rbp: 0x%.16llx, r8 : 0x%.16llx'' @ NL) @
       (ARROW @ '' r9 : 0x%.16llx, r10:    0x%.16llx, r11: 0x%.16llx, r12: 0x%.16llx'' @ NL) @
       (ARROW @ '' r13: 0x%.16llx, r14:    0x%.16llx, r15: 0x%.16llx, ss : 0x%.16llx'' @ NL) @
       (ARROW @ '' rsp: 0x%.16llx, rflags: 0x%.16llx, cs : 0x%.16llx, rip: 0x%.16llx'' @ NL))
       [Int_Arg (reg_rax cpu), Int_Arg (reg_rbx cpu), Int_Arg (reg_rcx cpu), Int_Arg (reg_rdx cpu), Int_Arg (reg_rsi cpu), Int_Arg (reg_rdi cpu), Int_Arg (reg_rbp cpu), Int_Arg (reg_r8 cpu), Int_Arg (reg_r9 cpu), Int_Arg (reg_r10 cpu), Int_Arg (reg_r11 cpu), Int_Arg (reg_r12 cpu), Int_Arg (reg_r13 cpu), Int_Arg (reg_r14 cpu), Int_Arg (reg_r15 cpu), Int_Arg (reg_ss cpu), Int_Arg (reg_rsp cpu), Int_Arg (reg_rflags cpu), Int_Arg (reg_cs cpu), Int_Arg (reg_rip cpu)]]"

text \<open>The lines every branch but the timer's prints before and after its own.\<close>

definition isr_banner :: "string \<Rightarrow> isr_action list" where
  "isr_banner title = [Set_Color TERM_RED, Debug (NL @ LINE @ NL) [], Debug (WARN @ title @ WARN @ NL @ NL) []]"

definition isr_footer :: "cpu_interrupt_state_t \<Rightarrow> isr_action list" where
  "isr_footer cpu = [Set_Color TERM_CYAN] @ isr_register_dump cpu @ [Set_Color TERM_COLOR_RESET]"

definition isr_handler :: "cpu_interrupt_state_t \<Rightarrow> u64 \<Rightarrow> (isr_action list \<times> isr_outcome) result" where
  "isr_handler cpu rsp =
     (if isr_number cpu < 32
      then rbind (table_entry exceptions (isr_number cpu)) (\<lambda>name.
             Inr (isr_banner '' EXCEPTION OCCURRED! '' @
                  [Debug (ARROW @ '' ISR-No. %d: %s'' @ NL) [Int_Arg (isr_number cpu), Str_Arg name],
                   Debug (ARROW @ '' Error code: 0x%.16llx'' @ NL @ NL @ NL) [Int_Arg (error_code cpu)]]
                  @ isr_footer cpu, Halts))
      else if 32 \<le> isr_number cpu \<and> isr_number cpu < 48
      then (if isr_number cpu = LAPIC_TIMER_INT then Inr ([Debug ''.'' [], Signal_Eoi], Returns rsp)
            else rbind (table_entry isa_irqs (isr_number cpu - 32)) (\<lambda>name.
                   Inr (isr_banner '' UNHANDLED HARDWARE INTERRUPT OCCURRED! '' @
                        [Debug (ARROW @ '' ISR-No. %d: %s'' @ NL) [Int_Arg (isr_number cpu), Str_Arg name]]
                        @ isr_footer cpu @ [Signal_Eoi], Returns rsp)))
      else if isr_number cpu = SYSCALL_INT
      then Inr (isr_banner '' SYSCALL OCCURRED - UNHANDLED FOR NOW! '' @ isr_footer cpu, Returns rsp)
      else if isr_number cpu = SPURIOUS_INT
      then Inr (isr_banner '' SPURIOUS INTERRUPT OCCURRED - UNHANDLED FOR NOW! '' @ isr_footer cpu, Halts)
      else Inr (isr_banner '' UNKNOWN INTERRUPT OCCURRED! '' @
                [Debug (ARROW @ '' ISR-No. %d'' @ NL) [Int_Arg (isr_number cpu)]] @ isr_footer cpu, Halts))"

section \<open>Saving and restoring the registers\<close>

datatype reg = RAX | RBX | RCX | RDX | RBP | RDI | RSI | R8 | R9 | R10 | R11 | R12 | R13 | R14 | R15

definition pusha64_order :: "reg list" where
  "pusha64_order = [RAX, RBX, RCX, RDX, RBP, RDI, RSI, R8, R9, R10, R11, R12, R13, R14, R15]"

definition popa64_order :: "reg list" where
  "popa64_order = [RAX, RBX, RCX, RDX, RBP, RDI, RSI, R8, R9, R10, R11, R12, R13, R14, R15]"

text \<open>The stack is the list of its slots from the stack pointer upwards.\<close>

definition pusha64 :: "(reg \<Rightarrow> u64) \<Rightarrow> u64 list \<Rightarrow> u64 list" where
  "pusha64 regs stack = fold (\<lambda>r st. regs r # st) pusha64_order stack"

definition popa64 :: "(reg \<Rightarrow> u64) \<Rightarrow> u64 list \<Rightarrow> (reg \<Rightarrow> u64) \<times> u64 list" where
  "popa64 regs stack = fold (\<lambda>r (regs, st). (regs(r := hd st), tl st)) popa64_order (regs, stack)"

section \<open>Properties\<close>

lemma length_exceptions: "length exceptions = 32"
  by (simp add: exceptions_def)

lemma length_isa_irqs: "length isa_irqs = 16"
  by (simp add: isa_irqs_def)

lemma table_entry_in_range: "unat i < length xs \<Longrightarrow> table_entry xs i = Inr (xs ! unat i)"
  by (simp add: table_entry_def)

lemma no_eoi_simps:
  "Signal_Eoi \<notin> set (isr_banner title)" "Signal_Eoi \<notin> set (isr_footer cpu)"
  by (simp_all add: isr_banner_def isr_footer_def isr_register_dump_def)

text \<open>C28. The handler never reads behind the end of its tables of names. It returns the stack pointer it was
  given for the hardware lines 32 to 47, after acknowledging the interrupt exactly once and as its last
  action, and for system calls, without acknowledging; every other interrupt halts the processor.\<close>

theorem isr_handler_dispatch:
  "\<exists>acts outcome. isr_handler cpu rsp = Inr (acts, outcome)
     \<and> (outcome = (if 32 \<le> isr_number cpu \<and> isr_number cpu < 48 \<or> isr_number cpu = 128 then Returns rsp else Halts))
     \<and> (if 32 \<le> isr_number cpu \<and> isr_number cpu < 48
        then \<exists>as. acts = as @ [Signal_Eoi] \<and> Signal_Eoi \<notin> set as else Signal_Eoi \<notin> set acts)"
proof -
  consider "isr_number cpu < 32" | "isr_number cpu = 32" | "32 < isr_number cpu" "isr_number cpu < 48" | "48 \<le> isr_number cpu"
    by (metis linorder_not_less linorder_less_linear)
  then show ?thesis
  proof cases
    case 1
    then have "unat (isr_number cpu) < length exceptions" by (simp add: length_exceptions word_less_nat_alt)
    with 1 show ?thesis
      by (auto simp: isr_handler_def table_entry_in_range no_eoi_simps word_le_nat_alt word_less_nat_alt)
  next
    case 2
    then show ?thesis by (auto simp: isr_handler_def)
  next
    case 3
    then have "unat (isr_number cpu - 32) = unat (isr_number cpu) - 32" by (simp add: unat_sub_if_size word_less_nat_alt)
    then have "unat (isr_number cpu - 32) < length isa_irqs" using 3 by (simp add: length_isa_irqs word_less_nat_alt)
    with 3 show ?thesis
      by (auto simp: isr_handler_def table_entry_in_range no_eoi_simps word_le_nat_alt word_less_nat_alt)
  next
    case 4
    then show ?thesis
      by (auto simp: isr_handler_def no_eoi_simps word_le_nat_alt word_less_nat_alt)
  qed
qed

text \<open>Restoring the registers with \<open>popa64\<close> after \<open>pusha64\<close> mirrors them instead: every register gets the
  value of its mirror image in the list, so \<open>rax\<close> comes back with the value of \<open>r15\<close>; only \<open>r8\<close>, in the
  middle, keeps its own.\<close>

theorem popa64_mirrors_registers:
  "popa64 regs' (pusha64 regs stack) = ((\<lambda>r. case r of RAX \<Rightarrow> regs R15 | RBX \<Rightarrow> regs R14 | RCX \<Rightarrow> regs R13 | RDX \<Rightarrow> regs R12
      | RBP \<Rightarrow> regs R11 | RDI \<Rightarrow> regs R10 | RSI \<Rightarrow> regs R9 | R8 \<Rightarrow> regs R8 | R9 \<Rightarrow> regs RSI | R10 \<Rightarrow> regs RDI | R11 \<Rightarrow> regs RBP
      | R12 \<Rightarrow> regs RDX | R13 \<Rightarrow> regs RCX | R14 \<Rightarrow> regs RBX | R15 \<Rightarrow> regs RAX), stack)"
  by (auto simp: popa64_def pusha64_def pusha64_order_def popa64_order_def fun_eq_iff split: reg.splits)

end
