(* ===== verification/SMP.thy ===== *)
theory SMP
  imports APIC Descriptor_Tables Spinlock
begin

text \<open>
  \<open>proc/smp/smp.c\<close>, the start of the other processors, with \<open>enable_sse\<close> of \<open>hardware/cpu.h\<close> and the
  control registers of \<open>utility/utils.h\<close>. Every processor runs its own program, the bootstrap processor
  \<open>smp_init\<close> and the others \<open>ap_init\<close>; the statements of the programs are the steps, in any order between
  processors. The log lines are left out.
\<close>

section \<open>Processors\<close>

text \<open>
  The registers of a processor, with the base of the task state segment that it keeps when the task
  register is loaded, and the accesses it makes to its local APIC.
\<close>

record smp_cpu =
  reg_cr0 :: u64
  reg_cr3 :: u64
  reg_cr4 :: u64
  reg_msrs :: "u32 \<Rightarrow> u64"
  reg_gdtr :: gdtr_t
  reg_idtr :: idtr_t
  reg_cs :: u16
  reg_ds :: u16
  reg_tr :: u16
  reg_tss_base :: u64
  reg_if :: bool
  reg_mmio :: "mmio_event list"

datatype control_register = CR0 | CR3 | CR4

fun asm_read_cr :: "control_register \<Rightarrow> smp_cpu \<Rightarrow> u64" where
  "asm_read_cr CR0 r = reg_cr0 r"
| "asm_read_cr CR3 r = reg_cr3 r"
| "asm_read_cr CR4 r = reg_cr4 r"

fun asm_write_cr :: "control_register \<Rightarrow> u64 \<Rightarrow> smp_cpu \<Rightarrow> smp_cpu" where
  "asm_write_cr CR0 v r = r\<lparr>reg_cr0 := v\<rparr>"
| "asm_write_cr CR3 v r = r\<lparr>reg_cr3 := v\<rparr>"
| "asm_write_cr CR4 v r = r\<lparr>reg_cr4 := v\<rparr>"

definition enable_sse :: "smp_cpu \<Rightarrow> smp_cpu" where
  "enable_sse r =
     (let cr0 = asm_read_cr CR0 r;
          cr0 = cr0 AND NOT (push_bit 2 1);
          cr0 = cr0 OR push_bit 1 1;
          r = asm_write_cr CR0 cr0 r;
          cr4 = asm_read_cr CR4 r;
          cr4 = cr4 OR push_bit 9 1;
          cr4 = cr4 OR push_bit 10 1
      in asm_write_cr CR4 cr4 r)"

section \<open>Program points\<close>

text \<open>
  Where a processor stands: in the loop of \<open>smp_init\<close> at entry \<open>i\<close>, in \<open>ap_init\<close> for entry \<open>i\<close>, or in
  \<open>generic_cpu_local_init\<close> called from either, with the local variable \<open>cpu_num\<close> once it is read. A
  processor that has not been started is parked in the bootloader.
\<close>

datatype smp_caller = Bsp_Init | Ap_Init

datatype smp_pc =
    For_Head nat | For_Acquire nat | For_Prepare nat | For_Branch nat | Wait_Online | Returned
  | Parked | Ap_Acquire nat | Ap_Tables nat | Ap_Lapic nat | Ap_Sti | Ap_Hlt
  | Local_Fill smp_caller nat | Local_Create smp_caller nat u64 | Local_Load smp_caller nat | Local_Sse smp_caller nat
  | Count smp_caller nat | Release smp_caller nat

record smp_state =
  sys :: apic_state
  tables :: tables_state
  cpus :: "nat \<Rightarrow> smp_cpu"
  pcs :: "nat \<Rightarrow> smp_pc"
  smp_lock :: spinlock_t
  cpu_locals :: u64
  cpus_online :: u32

abbreviation goto :: "nat \<Rightarrow> smp_pc \<Rightarrow> smp_state \<Rightarrow> smp_state" where
  "goto c pc s \<equiv> s\<lparr>pcs := (pcs s)(c := pc)\<rparr>"

abbreviation upd_cpu :: "nat \<Rightarrow> (smp_cpu \<Rightarrow> smp_cpu) \<Rightarrow> smp_state \<Rightarrow> smp_state" where
  "upd_cpu c f s \<equiv> s\<lparr>cpus := (cpus s)(c := f (cpus s c))\<rparr>"

abbreviation smp_mem :: "smp_state \<Rightarrow> memory" where "smp_mem s \<equiv> kmem (sys s)"

text \<open>A function of another component runs on processor \<open>c\<close>: with its registers, which it may change.\<close>

definition on_sys :: "nat \<Rightarrow> (apic_state \<Rightarrow> apic_state) \<Rightarrow> smp_state \<Rightarrow> smp_state" where
  "on_sys c f s =
     (let r = cpus s c; x = f ((sys s)\<lparr>cr3 := reg_cr3 r, msrs := reg_msrs r, mmio := reg_mmio r\<rparr>)
      in s\<lparr>sys := x, cpus := (cpus s)(c := r\<lparr>reg_cr3 := cr3 x, reg_msrs := msrs x, reg_mmio := mmio x\<rparr>)\<rparr>)"

definition on_tables :: "nat \<Rightarrow> (tables_state \<Rightarrow> tables_state) \<Rightarrow> smp_state \<Rightarrow> smp_state" where
  "on_tables c f s =
     (let r = cpus s c;
          x = f ((tables s)\<lparr>cpu_gdtr := reg_gdtr r, cpu_idtr := reg_idtr r, cpu_cs := reg_cs r, cpu_ds := reg_ds r,
                   cpu_tr := reg_tr r, cpu_if := reg_if r\<rparr>)
      in s\<lparr>tables := x, cpus := (cpus s)(c := r\<lparr>reg_gdtr := cpu_gdtr x, reg_idtr := cpu_idtr x, reg_cs := cpu_cs x,
             reg_ds := cpu_ds x, reg_tr := cpu_tr x, reg_if := cpu_if x\<rparr>)\<rparr>)"

text \<open>Loading the task register reads the descriptor it names and keeps its base.\<close>

definition on_tss_load :: "nat \<Rightarrow> smp_state \<Rightarrow> smp_state" where
  "on_tss_load c s =
     (let s = on_tables c tss_load s
      in upd_cpu c (\<lambda>r. r\<lparr>reg_tss_base := system_base (gdt_bytes (gdt (tables s))) (unat (reg_tr r))\<rparr>) s)"

section \<open>The statements\<close>

text \<open>\<open>cpu_local_t\<close>: number, local APIC id, timer frequency, task state segment; 120 bytes.\<close>

definition cpu_local_at :: "u64 \<Rightarrow> u64 \<Rightarrow> u64" where "cpu_local_at p i = p + 120 * i"
definition cpu_local_tss :: "u64 \<Rightarrow> u64" where "cpu_local_tss p = p + 16"
definition cpu_local_number :: "memory \<Rightarrow> u64 \<Rightarrow> u64" where "cpu_local_number m p = kload64 m p"
definition cpu_local_lapic_id :: "memory \<Rightarrow> u64 \<Rightarrow> u32" where "cpu_local_lapic_id m p = kload32 m (p + 8)"
definition cpu_local_rsp0 :: "memory \<Rightarrow> u64 \<Rightarrow> u64" where "cpu_local_rsp0 m p = kload64 m (cpu_local_tss p + 4)"

definition set_cpu_local :: "u64 \<Rightarrow> u64 \<Rightarrow> u32 \<Rightarrow> u64 \<Rightarrow> memory \<Rightarrow> memory" where
  "set_cpu_local p cpu_num lapic_id stack m =
     (let m = store64 m (kaddr p) cpu_num;
          m = store32 m (kaddr (p + 8)) lapic_id
      in store64 m (kaddr (cpu_local_tss p + 4)) stack)"

definition smp_acquire :: "nat \<Rightarrow> smp_pc \<Rightarrow> smp_state \<Rightarrow> smp_state" where
  "smp_acquire c pc s =
     (case spinlock_acquire (smp_lock s) (reg_if (cpus s c)) of
        None \<Rightarrow> s
      | Some (l, iflag) \<Rightarrow> goto c pc (upd_cpu c (\<lambda>r. r\<lparr>reg_if := iflag\<rparr>) (s\<lparr>smp_lock := l\<rparr>)))"

definition smp_release :: "nat \<Rightarrow> smp_pc \<Rightarrow> smp_state \<Rightarrow> smp_state" where
  "smp_release c pc s =
     (let (l, iflag) = spinlock_release (smp_lock s) (reg_if (cpus s c))
      in goto c pc (upd_cpu c (\<lambda>r. r\<lparr>reg_if := iflag\<rparr>) (s\<lparr>smp_lock := l\<rparr>)))"

text \<open>In the loop of \<open>smp_init\<close>: argument and stack of entry \<open>i\<close>.\<close>

definition smp_prepare :: "u64 \<Rightarrow> nat \<Rightarrow> smp_state \<Rightarrow> smp_state result" where
  "smp_prepare smp_tag i s =
     (let e = smp_info_at smp_tag (of_nat i); x = sys s;
          x = x\<lparr>kmem := set_smp_info_extra_argument e (of_nat i) (kmem x)\<rparr>
      in rbind (pmm_allocz x (CPU_LOCALS_STACK_SIZE div PAGE_SIZE)) (\<lambda>(stack, x).
         rbind (assert_impl (stack \<noteq> 0) ''stack != 0'') (\<lambda>_.
           let stack = PHYS_TO_HIGHER_HALF_DATA (stack + CPU_LOCALS_STACK_SIZE)
           in Inr (s\<lparr>sys := x\<lparr>kmem := set_smp_info_target_stack e stack (kmem x)\<rparr>\<rparr>))))"

text \<open>In \<open>generic_cpu_local_init\<close>: the three assignments.\<close>

definition local_fill :: "u64 \<Rightarrow> nat \<Rightarrow> smp_state \<Rightarrow> u64 \<times> smp_state" where
  "local_fill smp_tag i s =
     (let smp_entry = smp_info_at smp_tag (of_nat i); m = smp_mem s;
          cpu_num = smp_info_extra_argument m smp_entry;
          lapic_id = smp_info_lapic_id m smp_entry;
          stack = smp_info_target_stack m smp_entry
      in (cpu_num, s\<lparr>sys := (sys s)\<lparr>kmem := set_cpu_local (cpu_local_at (cpu_locals s) cpu_num) cpu_num lapic_id stack m\<rparr>\<rparr>))"

text \<open>In \<open>ap_init\<close>: page attributes, page tables and descriptor tables of the calling processor.\<close>

definition ap_tables :: "nat \<Rightarrow> smp_state \<Rightarrow> smp_state" where
  "ap_tables c s =
     (let s = on_sys c enable_pat s;
          s = on_sys c (\<lambda>x. vmm_load_page_table x (vmm_get_root_page_table x)) s;
          s = on_tables c gdt_load s
      in on_tables c idt_load s)"

section \<open>The programs\<close>

text \<open>
  One step of processor \<open>c\<close>: the statement at its program point. \<open>ap_init_addr\<close> is the address of the code of
  \<open>ap_init\<close>; a parked processor \<open>c\<close> is at entry \<open>c\<close> of the tag and leaves the bootloader when it finds an
  address there.
\<close>

fun smp_instr :: "mmio_device \<Rightarrow> u64 \<Rightarrow> u64 \<Rightarrow> nat \<Rightarrow> smp_pc \<Rightarrow> smp_state \<Rightarrow> smp_state result" where
  "smp_instr dev smp_tag ap_init_addr c (For_Head i) s =
     Inr (goto c (if of_nat i < smp_tag_cpu_count (smp_mem s) smp_tag then For_Acquire i else Wait_Online) s)"
| "smp_instr dev smp_tag ap_init_addr c (For_Acquire i) s = Inr (smp_acquire c (For_Prepare i) s)"
| "smp_instr dev smp_tag ap_init_addr c (For_Prepare i) s = rbind (smp_prepare smp_tag i s) (\<lambda>s. Inr (goto c (For_Branch i) s))"
| "smp_instr dev smp_tag ap_init_addr c (For_Branch i) s =
     (let e = smp_info_at smp_tag (of_nat i) in
      if smp_info_lapic_id (smp_mem s) e = smp_tag_bsp_lapic_id (smp_mem s) smp_tag
      then Inr (goto c (Local_Fill Bsp_Init i) s)
      else Inr (goto c (Release Bsp_Init i) (s\<lparr>sys := (sys s)\<lparr>kmem := set_smp_info_goto_address e ap_init_addr (smp_mem s)\<rparr>\<rparr>)))"
| "smp_instr dev smp_tag ap_init_addr c Wait_Online s =
     Inr (if ucast (cpus_online s) \<noteq> smp_tag_cpu_count (smp_mem s) smp_tag then s else goto c Returned s)"
| "smp_instr dev smp_tag ap_init_addr c Returned s = Inr s"
| "smp_instr dev smp_tag ap_init_addr c Parked s =
     Inr (if smp_info_goto_address (smp_mem s) (smp_info_at smp_tag (of_nat c)) = 0 then s else goto c (Ap_Acquire c) s)"
| "smp_instr dev smp_tag ap_init_addr c (Ap_Acquire i) s = Inr (smp_acquire c (Ap_Tables i) s)"
| "smp_instr dev smp_tag ap_init_addr c (Ap_Tables i) s = Inr (goto c (Local_Fill Ap_Init i) (ap_tables c s))"
| "smp_instr dev smp_tag ap_init_addr c (Local_Fill caller i) s =
     (let (cpu_num, s) = local_fill smp_tag i s in Inr (goto c (Local_Create caller i cpu_num) s))"
| "smp_instr dev smp_tag ap_init_addr c (Local_Create caller i cpu_num) s =
     Inr (goto c (Local_Load caller i) (on_tables c (tss_create_segment (cpu_local_tss (cpu_local_at (cpu_locals s) cpu_num))) s))"
| "smp_instr dev smp_tag ap_init_addr c (Local_Load caller i) s = Inr (goto c (Local_Sse caller i) (on_tss_load c s))"
| "smp_instr dev smp_tag ap_init_addr c (Local_Sse caller i) s =
     Inr (goto c (case caller of Bsp_Init \<Rightarrow> Count caller i | Ap_Init \<Rightarrow> Ap_Lapic i) (upd_cpu c enable_sse s))"
| "smp_instr dev smp_tag ap_init_addr c (Ap_Lapic i) s = Inr (goto c (Count Ap_Init i) (on_sys c (lapic_enable dev) s))"
| "smp_instr dev smp_tag ap_init_addr c (Count caller i) s = Inr (goto c (Release caller i) (s\<lparr>cpus_online := cpus_online s + 1\<rparr>))"
| "smp_instr dev smp_tag ap_init_addr c (Release caller i) s =
     Inr (smp_release c (case caller of Bsp_Init \<Rightarrow> For_Head (Suc i) | Ap_Init \<Rightarrow> Ap_Sti) s)"
| "smp_instr dev smp_tag ap_init_addr c Ap_Sti s = Inr (goto c Ap_Hlt (upd_cpu c (\<lambda>r. r\<lparr>reg_if := True\<rparr>) s))"
| "smp_instr dev smp_tag ap_init_addr c Ap_Hlt s = Inr s"

text \<open>The call of \<open>smp_init\<close> up to its loop: the tag and the array for the processors.\<close>

definition smp_begin :: "nat \<Rightarrow> u64 \<Rightarrow> smp_state \<Rightarrow> (u64 \<times> smp_state) result option" where
  "smp_begin c stivale2_struct s =
     (case stivale2_get_tag (smp_mem s) stivale2_struct STIVALE2_STRUCT_TAG_SMP_ID of
        None \<Rightarrow> None
      | Some smp_tag \<Rightarrow> obind (malloc (sys s) (smp_tag_cpu_count (smp_mem s) smp_tag * 120)) (\<lambda>(p, x).
          Some (Inr (smp_tag, goto c (For_Head 0) (s\<lparr>sys := x, cpu_locals := p\<rparr>)))))"

text \<open>Runs: any processor of the machine makes the next step.\<close>

inductive smp_step :: "mmio_device \<Rightarrow> u64 \<Rightarrow> u64 \<Rightarrow> nat \<Rightarrow> smp_state \<Rightarrow> smp_state result \<Rightarrow> bool" for dev smp_tag ap_init_addr n where
  "c < n \<Longrightarrow> smp_step dev smp_tag ap_init_addr n s (smp_instr dev smp_tag ap_init_addr c (pcs s c) s)"

inductive smp_reach :: "mmio_device \<Rightarrow> u64 \<Rightarrow> u64 \<Rightarrow> nat \<Rightarrow> smp_state \<Rightarrow> smp_state result \<Rightarrow> bool" for dev smp_tag ap_init_addr n where
  start: "smp_reach dev smp_tag ap_init_addr n s (Inr s)"
| step: "smp_reach dev smp_tag ap_init_addr n s (Inr t) \<Longrightarrow> smp_step dev smp_tag ap_init_addr n t u \<Longrightarrow> smp_reach dev smp_tag ap_init_addr n s u"

inductive_cases smp_stepE: "smp_step dev smp_tag ap_init_addr n s t"

end
