(* ===== verification/Regions.thy ===== *)
theory Regions
  imports Realloc
begin

text \<open>
  Regions of memory behind kernel pointers: in one piece, apart from each other, away from a set of
  pages; and the regions that blocks of the heap are.
\<close>

text \<open>A region of \<open>k\<close> bytes behind a kernel pointer lies in one piece.\<close>

definition in_place :: "u64 \<Rightarrow> nat \<Rightarrow> bool" where
  "in_place p k \<longleftrightarrow> unat (kaddr p) + k < 2 ^ 64 \<and> (\<forall>x\<le>k. kaddr (p + of_nat x) = kaddr p + of_nat x)"

lemma in_place_addr:
  assumes "in_place p k" "x \<le> k"
  shows "kaddr (p + of_nat x) = kaddr p + of_nat x" "unat (kaddr p + of_nat x) = unat (kaddr p) + x"
proof -
  show "kaddr (p + of_nat x) = kaddr p + of_nat x" using assms by (simp add: in_place_def)
  show "unat (kaddr p + of_nat x) = unat (kaddr p) + x" using assms by (intro unat_add_of_nat) (simp add: in_place_def)
qed

lemma in_place_separate:
  assumes "in_place p k" "x + v \<le> k" "y + w \<le> k" "x + v \<le> y \<or> y + w \<le> x"
  shows "separate (kaddr p + of_nat x) v (kaddr p + of_nat y) w"
proof -
  have "unat (kaddr p + of_nat x) = unat (kaddr p) + x" "unat (kaddr p + of_nat y) = unat (kaddr p) + y"
    using in_place_addr(2) [OF assms(1)] assms(2,3) by simp_all
  moreover have "unat (kaddr p) + k < 2 ^ 64" using assms(1) by (simp add: in_place_def)
  ultimately show ?thesis using assms(2-4) unfolding separate_def by linarith
qed

lemma regions_separate:
  assumes "in_place p k" "in_place q l" "separate (kaddr p) k (kaddr q) l" "x + v \<le> k" "y + w \<le> l"
  shows "separate (kaddr p + of_nat x) v (kaddr q + of_nat y) w" "separate (kaddr q + of_nat y) w (kaddr p + of_nat x) v"
proof -
  have "unat (kaddr p + of_nat x) = unat (kaddr p) + x" "unat (kaddr q + of_nat y) = unat (kaddr q) + y"
    using in_place_addr(2) [OF assms(1)] in_place_addr(2) [OF assms(2)] assms(4,5) by simp_all
  moreover have "unat (kaddr p) + k < 2 ^ 64" "unat (kaddr q) + l < 2 ^ 64" using assms(1,2) by (simp_all add: in_place_def)
  ultimately show "separate (kaddr p + of_nat x) v (kaddr q + of_nat y) w" using assms(3-5) unfolding separate_def by linarith
  then show "separate (kaddr q + of_nat y) w (kaddr p + of_nat x) v" by (simp add: separate_sym)
qed

text \<open>A region away from a set of pages.\<close>

definition region_off :: "u64 \<Rightarrow> nat \<Rightarrow> nat set \<Rightarrow> bool" where
  "region_off p k X \<longleftrightarrow> (\<forall>x<k. unat (kaddr p + of_nat x) div 4096 \<notin> X)"

lemma region_load:
  assumes "region_off q k X" "off_pages X m m'" "y + w \<le> k"
  shows "load_word w m' (kaddr q + of_nat y) = (load_word w m (kaddr q + of_nat y) :: 'c::len word)"
proof (rule load_word_cong)
  fix x assume "x < w"
  then have "unat (kaddr q + of_nat (y + x)) div 4096 \<notin> X" using assms(1,3) unfolding region_off_def by (metis add_less_cancel_left less_le_trans)
  then show "m' (kaddr q + of_nat y + of_nat x) = m (kaddr q + of_nat y + of_nat x)" using assms(2) by (simp add: off_pages_def add.assoc)
qed

lemma region_off_mono: "region_off p k X \<Longrightarrow> Y \<subseteq> X \<Longrightarrow> region_off p k Y"
  by (auto simp: region_off_def)

text \<open>A region of page 1, for examples.\<close>

lemma low_region:
  assumes "unat (p :: u64) + k \<le> 8192" "4096 \<le> unat p"
  shows low_region_place: "in_place p k" and low_region_off: "region_off p k {2..<z}"
proof -
  have u: "unat (p + of_nat x) = unat p + x" if "x \<le> k" for x using that assms(1) by (intro unat_add_of_nat) simp
  have low: "kaddr (p + of_nat x) = p + of_nat x" if "x \<le> k" for x using u [OF that] that assms(1) by (intro kaddr_low) simp
  then have p: "kaddr p = p" using low [of 0] by simp
  show "in_place p k" using assms(1) low by (simp add: in_place_def p)
  show "region_off p k {2..<z}" using assms u by (auto simp: region_off_def p)
qed

text \<open>A block of the heap is a region.\<close>

lemma block_region:
  assumes "p = loc r k" "k + 2 + w < 4096" "r < 2 ^ 31"
  defines "l \<equiv> p + 2 + HEAP_START_ADDR"
  shows "kaddr l = loc r (k + 2)" "in_place l w" "x \<le> w \<Longrightarrow> unat (kaddr l + of_nat x) div 4096 = r"
proof -
  have l: "l + of_nat x = loc r (k + 2 + x) + HEAP_START_ADDR" for x by (simp add: l_def assms(1) loc_def)
  have ka: "kaddr (l + of_nat x) = loc r (k + 2 + x)" if "x \<le> w" for x
    unfolding l using assms(2,3) that by (intro kaddr_heap) auto
  from ka [of 0] show k0: "kaddr l = loc r (k + 2)" by simp
  have step: "loc r (k + 2 + x) = kaddr l + of_nat x" for x unfolding k0 by (simp add: loc_def)
  have "unat (kaddr l) = r * 4096 + (k + 2)" unfolding k0 using assms(2,3) by (simp add: unat_loc)
  then show "in_place l w" using ka assms(2,3) by (simp add: in_place_def step [symmetric] del: add_2_eq_Suc')
  show "unat (kaddr l + of_nat x) div 4096 = r" if "x \<le> w" using that assms(2,3) by (simp add: step [symmetric] unat_loc)
qed

lemma pages_separate:
  assumes "in_place p k" "in_place q w" "region_off p k X" "0 < k" "0 < w" "\<And>x. x < w \<Longrightarrow> unat (kaddr q + of_nat x) div 4096 \<in> X"
  shows "separate (kaddr p) k (kaddr q) w"
proof (rule ccontr)
  assume "\<not> separate (kaddr p) k (kaddr q) w"
  moreover have "unat (kaddr p) + k < 2 ^ 64" "unat (kaddr q) + w < 2 ^ 64" using assms(1,2) by (simp_all add: in_place_def)
  ultimately have over: "unat (kaddr q) < unat (kaddr p) + k" "unat (kaddr p) < unat (kaddr q) + w" unfolding separate_def by linarith+
  define x where "x = unat (kaddr q) - unat (kaddr p)"
  define y where "y = unat (kaddr p) - unat (kaddr q)"
  have xy: "x < k" "y < w" "unat (kaddr p) + x = unat (kaddr q) + y" using over assms(4,5) by (auto simp: x_def y_def)
  have "unat (kaddr p + of_nat x) = unat (kaddr q + of_nat y)"
    using in_place_addr(2) [OF assms(1), of x] in_place_addr(2) [OF assms(2), of y] xy by simp
  then show False using assms(3,6) xy(1,2) unfolding region_off_def by metis
qed

end
