(* ===== verification/SMP_Memory.thy ===== *)
theory SMP_Memory
  imports SMP Regions
begin

text \<open>
  The memory that the programs of \<open>SMP\<close> share: the tag of the bootloader and the array of the kernel as two
  regions, what each write leaves of their fields, and the frames for the stacks.
\<close>

section \<open>Two regions of memory\<close>

text \<open>The tag with \<open>n\<close> entries, and the array with \<open>n\<close> elements.\<close>

definition smp_apart :: "u64 \<Rightarrow> u64 \<Rightarrow> nat \<Rightarrow> bool" where
  "smp_apart p l n \<longleftrightarrow> in_place p (40 + 32 * n) \<and> in_place l (120 * n) \<and> separate (kaddr p) (40 + 32 * n) (kaddr l) (120 * n)"

lemma smp_apartD:
  assumes "smp_apart p l n"
  shows "in_place p (40 + 32 * n)" "in_place l (120 * n)" "separate (kaddr p) (40 + 32 * n) (kaddr l) (120 * n)"
  using assms by (simp_all add: smp_apart_def)

text \<open>What the programs read: the fields of an entry and of an array element.\<close>

definition entry_view :: "memory \<Rightarrow> u64 \<Rightarrow> nat \<Rightarrow> u32 \<times> u64 \<times> u64 \<times> u64" where
  "entry_view m p i = (let e = smp_info_at p (of_nat i) in
     (smp_info_lapic_id m e, smp_info_target_stack m e, smp_info_goto_address m e, smp_info_extra_argument m e))"

definition local_view :: "memory \<Rightarrow> u64 \<Rightarrow> nat \<Rightarrow> u64 \<times> u32 \<times> u64" where
  "local_view m l i = (let p = cpu_local_at l (of_nat i) in (cpu_local_number m p, cpu_local_lapic_id m p, cpu_local_rsp0 m p))"

definition head_view :: "memory \<Rightarrow> u64 \<Rightarrow> u64 \<times> u32" where
  "head_view m p = (smp_tag_cpu_count m p, smp_tag_bsp_lapic_id m p)"

lemma entry_field_addr:
  assumes "smp_apart p l n" "i < n" "d \<le> 32"
  shows "kaddr (smp_info_at p (of_nat i) + of_nat d) = kaddr p + of_nat (40 + 32 * i + d)"
proof -
  have "smp_info_at p (of_nat i) + of_nat d = p + of_nat (40 + 32 * i + d)" by (simp add: smp_info_at_def)
  moreover have "40 + 32 * i + d \<le> 40 + 32 * n" using assms(2,3) by linarith
  then have "kaddr (p + of_nat (40 + 32 * i + d)) = kaddr p + of_nat (40 + 32 * i + d)"
    by (rule in_place_addr(1) [OF smp_apartD(1) [OF assms(1)]])
  ultimately show ?thesis by (simp only:)
qed

lemma local_field_addr:
  assumes "smp_apart p l n" "i < n" "d \<le> 120"
  shows "kaddr (cpu_local_at l (of_nat i) + of_nat d) = kaddr l + of_nat (120 * i + d)"
proof -
  have "cpu_local_at l (of_nat i) + of_nat d = l + of_nat (120 * i + d)" by (simp add: cpu_local_at_def)
  moreover have "120 * i + d \<le> 120 * n" using assms(2,3) by linarith
  then have "kaddr (l + of_nat (120 * i + d)) = kaddr l + of_nat (120 * i + d)"
    by (rule in_place_addr(1) [OF smp_apartD(2) [OF assms(1)]])
  ultimately show ?thesis by (simp only:)
qed

lemma entry_view_eq:
  assumes "smp_apart p l n" "i < n"
  shows "entry_view m p i = (load32 m (kaddr p + of_nat (40 + 32 * i + 4)), load64 m (kaddr p + of_nat (40 + 32 * i + 8)),
    load64 m (kaddr p + of_nat (40 + 32 * i + 16)), load64 m (kaddr p + of_nat (40 + 32 * i + 24)))"
  using entry_field_addr [OF assms, of 4] entry_field_addr [OF assms, of 8] entry_field_addr [OF assms, of 16] entry_field_addr [OF assms, of 24]
  by (simp add: entry_view_def smp_info_lapic_id_def smp_info_target_stack_def smp_info_goto_address_def smp_info_extra_argument_def
      kload32_def kload64_def)

lemma local_view_eq:
  assumes "smp_apart p l n" "i < n"
  shows "local_view m l i = (load64 m (kaddr l + of_nat (120 * i + 0)), load32 m (kaddr l + of_nat (120 * i + 8)), load64 m (kaddr l + of_nat (120 * i + 20)))"
  using local_field_addr [OF assms, of 0] local_field_addr [OF assms, of 8] local_field_addr [OF assms, of 20]
  by (simp add: local_view_def cpu_local_number_def cpu_local_lapic_id_def cpu_local_rsp0_def cpu_local_tss_def kload32_def kload64_def add.assoc)

lemma head_view_eq:
  assumes "smp_apart p l n"
  shows "head_view m p = (load64 m (kaddr p + of_nat 32), load32 m (kaddr p + of_nat 24))"
  using in_place_addr(1) [of p "40 + 32 * n" 32] in_place_addr(1) [of p "40 + 32 * n" 24] assms
  by (simp add: smp_apart_def head_view_def smp_tag_cpu_count_def smp_tag_bsp_lapic_id_def kload32_def kload64_def)

text \<open>A write of an entry field.\<close>

lemma entry_store_views:
  fixes m :: memory and v :: u64
  assumes ap: "smp_apart p l n" and i: "i < n" and d: "d \<in> {8, 16, 24}"
  defines "m' \<equiv> store64 m (kaddr (smp_info_at p (of_nat i) + of_nat d)) v"
  shows "head_view m' p = head_view m p" and "j < n \<Longrightarrow> local_view m' l j = local_view m l j"
    and "j < n \<Longrightarrow> j \<noteq> i \<Longrightarrow> entry_view m' p j = entry_view m p j"
    and "entry_view m' p i = (case entry_view m p i of (x, y, z, w) \<Rightarrow>
       (x, if d = 8 then v else y, if d = 16 then v else z, if d = 24 then v else w))"
proof -
  note inp = smp_apartD [OF ap]
  have m': "m' = store64 m (kaddr p + of_nat (40 + 32 * i + d)) v"
    unfolding m'_def using entry_field_addr [OF ap i, of d] d by auto
  have lim: "40 + 32 * i + d + 8 \<le> 40 + 32 * n" using i d by auto
  note sepI = in_place_separate [OF inp(1) _ lim]
  have sl: "separate (kaddr l + of_nat y) w (kaddr p + of_nat (40 + 32 * i + d)) 8" if "y + w \<le> 120 * n" for y w
    using regions_separate(2) [OF inp lim that] .
  have keep: "load64 m' a = load64 m a" if "separate a 8 (kaddr p + of_nat (40 + 32 * i + d)) 8" for a
    unfolding m' using that by (simp add: load64_store64_separate)
  have keep32: "load32 m' a = load32 m a" if "separate a 4 (kaddr p + of_nat (40 + 32 * i + d)) 8" for a
    unfolding m' load32_def store64_def using that by (simp add: load_store_separate)
  show "head_view m' p = head_view m p"
    unfolding head_view_eq [OF ap] by (simp only: prod.inject) (intro conjI keep keep32 sepI; use i in simp)
  show "local_view m' l j = local_view m l j" if "j < n"
    unfolding local_view_eq [OF ap that] by (simp only: prod.inject) (intro conjI keep keep32 sl; use that in simp)
  have dd: "8 \<le> d" "d \<le> 24" using d by auto
  show "entry_view m' p j = entry_view m p j" if "j < n" "j \<noteq> i"
  proof -
    have "32 * i + 32 \<le> 32 * j \<or> 32 * j + 32 \<le> 32 * i" "32 * j + 32 \<le> 32 * n" using that by linarith+
    then show ?thesis
      unfolding entry_view_eq [OF ap that(1)] using dd by (simp only: prod.inject) (intro conjI keep keep32 sepI; linarith)
  qed
  have same: "load64 m' (kaddr p + of_nat (40 + 32 * i + d)) = v" unfolding m' by simp
  show "entry_view m' p i = (case entry_view m p i of (x, y, z, w) \<Rightarrow>
       (x, if d = 8 then v else y, if d = 16 then v else z, if d = 24 then v else w))"
  proof -
    have F: "load64 m' (kaddr p + of_nat (40 + 32 * i + k)) = (if d = k then v else load64 m (kaddr p + of_nat (40 + 32 * i + k)))"
      if k: "k \<in> {8, 16, 24}" for k
    proof (cases "d = k")
      case False
      then have "k + 8 \<le> d \<or> d + 8 \<le> k" "k \<le> 24" using k d by auto
      then have "load64 m' (kaddr p + of_nat (40 + 32 * i + k)) = load64 m (kaddr p + of_nat (40 + 32 * i + k))"
        using i by (intro keep sepI) linarith+
      then show ?thesis using False by (simp only: if_False)
    qed (use same in simp)
    have G: "load32 m' (kaddr p + of_nat (40 + 32 * i + 4)) = load32 m (kaddr p + of_nat (40 + 32 * i + 4))"
      using d i by (intro keep32 sepI) auto
    show ?thesis unfolding entry_view_eq [OF ap i]
      by (simp only: F [OF insertI1] F [OF insertI2 [OF insertI1]] F [OF insertI2 [OF insertI2 [OF insertI1]]] G prod.case)
  qed
qed

lemma set_entry_views:
  assumes ap: "smp_apart p l n" and i: "i < n" and ev: "entry_view m p i = (x, y, z, w)"
    and m': "m' = set_smp_info_target_stack (smp_info_at p (of_nat i)) v m \<and> ev' = (x, v, z, w)
      \<or> m' = set_smp_info_goto_address (smp_info_at p (of_nat i)) v m \<and> ev' = (x, y, v, w)
      \<or> m' = set_smp_info_extra_argument (smp_info_at p (of_nat i)) v m \<and> ev' = (x, y, z, v)"
  shows "head_view m' p = head_view m p" and "j < n \<Longrightarrow> local_view m' l j = local_view m l j"
    and "j < n \<Longrightarrow> entry_view m' p j = (if j = i then ev' else entry_view m p j)"
proof -
  obtain d where d: "d \<in> {8, 16, 24}" "m' = store64 m (kaddr (smp_info_at p (of_nat i) + of_nat d)) v"
      "ev' = (x, if d = 8 then v else y, if d = 16 then v else z, if d = 24 then v else w)"
    using m' that [of 8] that [of 16] that [of 24]
    by (auto simp: set_smp_info_target_stack_def set_smp_info_goto_address_def set_smp_info_extra_argument_def)
  note views = entry_store_views [OF ap i d(1), where m = m and v = v, folded d(2)]
  show "head_view m' p = head_view m p" by (rule views(1))
  show "j < n \<Longrightarrow> local_view m' l j = local_view m l j" by (rule views(2))
  show "j < n \<Longrightarrow> entry_view m' p j = (if j = i then ev' else entry_view m p j)" using views(3,4) ev d(3) by simp
qed

text \<open>The three writes into an array element.\<close>

lemma local_store_views:
  fixes m :: memory and num stack :: u64 and lid :: u32
  assumes ap: "smp_apart p l n" and i: "i < n"
  defines "m' \<equiv> set_cpu_local (cpu_local_at l (of_nat i)) num lid stack m"
  shows "head_view m' p = head_view m p" and "j < n \<Longrightarrow> entry_view m' p j = entry_view m p j"
    and "j < n \<Longrightarrow> j \<noteq> i \<Longrightarrow> local_view m' l j = local_view m l j" and "local_view m' l i = (num, lid, stack)"
proof -
  note inp = smp_apartD [OF ap]
  let ?A = "\<lambda>d. kaddr l + of_nat (120 * i + d)"
  have "cpu_local_tss (cpu_local_at l (of_nat i)) + 4 = cpu_local_at l (of_nat i) + of_nat 20" by (simp add: cpu_local_tss_def)
  then have "kaddr (cpu_local_tss (cpu_local_at l (of_nat i)) + 4) = ?A 20" using local_field_addr [OF ap i, of 20] by (simp only:)
  then have m': "m' = store64 (store32 (store64 m (?A 0) num) (?A 8) lid) (?A 20) stack"
    unfolding m'_def set_cpu_local_def Let_def
    using local_field_addr [OF ap i, of 0] local_field_addr [OF ap i, of 8] by simp
  have lim: "120 * i + 28 \<le> 120 * n" using i by linarith
  have inner: "separate (?A 0) 8 (?A 20) 8" "separate (?A 0) 8 (?A 8) 4" "separate (?A 8) 4 (?A 20) 8"
    using lim by (intro in_place_separate [OF inp(2)]; linarith)+
  then show "local_view m' l i = (num, lid, stack)"
    unfolding local_view_eq [OF ap i] m' by (simp add: access_defs load_store_same load_store_separate)
  have keep: "load_word w m' a = (load_word w m a :: 'c::len word)" if "\<And>d k. d + k \<le> 28 \<Longrightarrow> separate a w (?A d) k" for a w
    unfolding m' access_defs using that [of 0 8] that [of 8 4] that [of 20 8] by (simp add: load_store_separate)
  have sp: "separate (kaddr p + of_nat y) w (?A d) k" if "y + w \<le> 40 + 32 * n" "d + k \<le> 28" for y w d k
    using that lim by (intro regions_separate(1) [OF inp]) linarith+
  show "head_view m' p = head_view m p"
    unfolding head_view_eq [OF ap] load64_def load32_def by (simp only: prod.inject) (intro conjI keep sp; linarith)
  show "entry_view m' p j = entry_view m p j" if "j < n"
    unfolding entry_view_eq [OF ap that] load64_def load32_def
    using that by (simp only: prod.inject) (intro conjI keep sp; linarith)
  show "local_view m' l j = local_view m l j" if "j < n" "j \<noteq> i"
  proof -
    have j: "120 * i + 120 \<le> 120 * j \<or> 120 * j + 120 \<le> 120 * i" "120 * j + 120 \<le> 120 * n" using that by linarith+
    have sl: "separate (kaddr l + of_nat (120 * j + y)) w (?A d) k" if "y + w \<le> 28" "d + k \<le> 28" for y w d k
      using j lim that by (intro in_place_separate [OF inp(2)]) linarith+
    show ?thesis
      unfolding local_view_eq [OF ap that(1)] load64_def load32_def by (simp only: prod.inject) (intro conjI keep sl; linarith)
  qed
qed

text \<open>Clearing pages away from both regions.\<close>

lemma off_tag_views:
  assumes ap: "smp_apart p l n" and off: "region_off p (40 + 32 * n) X" "off_pages X m m'"
  shows "head_view m' p = head_view m p" and "i < n \<Longrightarrow> entry_view m' p i = entry_view m p i"
proof -
  note keep = region_load [OF off]
  show "head_view m' p = head_view m p"
    unfolding head_view_eq [OF ap] load64_def load32_def by (simp only: prod.inject) (intro conjI keep; linarith)
  show "entry_view m' p i = entry_view m p i" if "i < n"
    unfolding entry_view_eq [OF ap that] load64_def load32_def using that by (simp only: prod.inject) (intro conjI keep; linarith)
qed

lemma off_local_view:
  assumes ap: "smp_apart p l n" and off: "region_off l (120 * n) X" "off_pages X m m'" and i: "i < n"
  shows "local_view m' l i = local_view m l i"
  unfolding local_view_eq [OF ap i] load64_def load32_def using i by (simp only: prod.inject) (intro conjI region_load [OF off]; linarith)

lemma off_views:
  assumes ap: "smp_apart p l n" and off: "region_off p (40 + 32 * n) X" "region_off l (120 * n) X" "off_pages X m m'"
  shows "head_view m' p = head_view m p" and "i < n \<Longrightarrow> entry_view m' p i = entry_view m p i" and "i < n \<Longrightarrow> local_view m' l i = local_view m l i"
  using off_tag_views [OF ap off(1,3)] off_local_view [OF ap off(2,3)] by simp_all

section \<open>Stacks\<close>

lemma pmm_allocz_pair:
  assumes wf: "pmm_wf s" and free: "pmm_free_pages s = {a..<z}" "a + 2 \<le> z"
  shows "\<exists>t. pmm_allocz s 2 = Inr (page_addr a, t) \<and> page_addr a \<noteq> 0 \<and> pmm_wf t \<and> pmm_free_pages t = {a + 2..<z} \<and> off_pages {a, a + 1} (kmem s) (kmem t)
    \<and> t = s\<lparr>kmem := kmem t, pmm_bitmap := pmm_bitmap t, used_pages_count := used_pages_count t\<rparr>"
proof -
  have inv: "pmm_inv s" using wf by (simp add: pmm_wf_def)
  have ne: "pmm_free_pages s \<noteq> {}" and min: "Min (pmm_free_pages s) = a"
    unfolding free(1) using free(2) by (simp, intro Min_eqI) auto
  have memb: "a + 1 \<in> pmm_free_pages s" "a \<in> pmm_free_pages s" using free(2) unfolding free(1) by simp_all
  then have lim: "a + 2 \<le> pmm_pages s" by (simp add: pmm_free_pages_def)
  have caps: "pmm_pages s \<le> bitmap_cap (pmm_bitmap s)" "bitmap_cap (pmm_bitmap s) \<le> 2 ^ 31" using inv by (simp_all add: pmm_inv_def)
  have fits: "Min (pmm_free_pages s) + unat (2 :: u64) \<le> bitmap_cap (pmm_bitmap s)" using min lim caps by simp
  obtain b where b: "pmm_alloc s 2 = Inr (page_addr a, s\<lparr>pmm_bitmap := b, used_pages_count := used_pages_count s + 2\<rparr>)"
      "bitmap_cap b = bitmap_cap (pmm_bitmap s)" "bitmap_ones b = pmm_used s \<union> {a..<a + 2}"
    using pmm_alloc_found [OF inv _ _ pmm_wf_counter_pos [OF wf ne] ne fits] min by auto
  define t where "t = s\<lparr>pmm_bitmap := b, used_pages_count := used_pages_count s + 2, kmem := memset (kmem s) (page_addr a) 0 (PAGE_SIZE * 2)\<rparr>"
  have pp: "pmm_pages t = pmm_pages s" by (simp add: t_def pmm_pages_def)
  have used: "pmm_used t = pmm_used s \<union> {a..<a + 2}" using b(3) by (simp add: t_def pmm_used_def)
  have "pmm_free_pages t = pmm_free_pages s - {a..<a + 2}" unfolding pmm_free_pages_def pp used by blast
  then have ft: "pmm_free_pages t = {a + 2..<z}" unfolding free(1) by auto
  have "pmm_inv t" using inv b(2) pp used by (simp add: pmm_inv_def t_def)
  moreover have "pmm_counter_ok t"
  proof -
    have cnt: "card (pmm_used s \<inter> {..<pmm_pages s}) \<le> unat (used_pages_count s)" "unat (used_pages_count s) + card (pmm_free_pages s) < 2 ^ 64"
      using wf by (simp_all add: pmm_wf_def pmm_counter_ok_def)
    have "card (pmm_free_pages s) = Suc (Suc (z - (a + 2)))" using free by simp
    then have u: "unat (used_pages_count s + 2) = unat (used_pages_count s) + 2"
      using cnt(2) unat_add_of_nat [of "used_pages_count s" 2] by simp
    have two: "{a..<a + 2} = {a, Suc a}" by auto
    have "pmm_used t \<inter> {..<pmm_pages t} = insert a (insert (Suc a) (pmm_used s \<inter> {..<pmm_pages s}))"
      unfolding used pp two using lim by auto
    moreover have "a \<notin> pmm_used s" "Suc a \<notin> pmm_used s" using memb by (simp_all add: pmm_free_pages_def)
    ultimately have "card (pmm_used t \<inter> {..<pmm_pages t}) = card (pmm_used s \<inter> {..<pmm_pages s}) + 2" by simp
    moreover have "used_pages_count t = used_pages_count s + 2" by (simp add: t_def)
    ultimately show ?thesis using cnt u \<open>card (pmm_free_pages s) = Suc (Suc (z - (a + 2)))\<close> unfolding pmm_counter_ok_def ft by simp
  qed
  moreover have "off_pages {a, a + 1} (kmem s) (kmem t)"
    unfolding off_pages_def
  proof (intro allI impI)
    fix x :: u64 assume x: "unat x div 4096 \<notin> {a, a + 1}"
    have "\<not> unat (x - page_addr a) < 8192"
    proof
      assume d: "unat (x - page_addr a) < 8192"
      have "unat (page_addr a + of_nat (unat (x - page_addr a))) = unat (page_addr a) + unat (x - page_addr a)"
        using d lim caps by (intro unat_add_of_nat) (simp add: unat_page_addr)
      then have "unat x = a * 4096 + unat (x - page_addr a)" using lim caps by (simp add: unat_page_addr)
      then have "unat x div 4096 = a + unat (x - page_addr a) div 4096" by simp
      moreover have "unat (x - page_addr a) div 4096 < 2" using d by (simp add: div_less_iff_less_mult)
      ultimately show False using x by auto
    qed
    then show "kmem t x = kmem s x" by (simp add: t_def memset_closed)
  qed
  moreover have "pmm_allocz s 2 = Inr (page_addr a, t)" using b(1) by (simp add: pmm_allocz_def t_def)
  moreover have "page_addr a \<noteq> 0" by (rule pg.page_addr_avail(1) [OF wf memb(2)])
  moreover have "t = s\<lparr>kmem := kmem t, pmm_bitmap := pmm_bitmap t, used_pages_count := used_pages_count t\<rparr>" by (simp add: t_def)
  ultimately show ?thesis using ft by (simp add: pmm_wf_def)
qed

end
