(* ===== verification/SMP_Start.thy ===== *)
theory SMP_Start
  imports SMP_Memory
begin

text \<open>
  All processors come up: an invariant of the interleaved programs of \<open>SMP\<close>, and what it gives when
  \<open>smp_init\<close> returns.
\<close>

section \<open>The invariant\<close>

text \<open>
  What does not change: the addresses of the tag and of the array, the number of processors, the number of
  the bootstrap processor, the frames for the stacks, the tables to load.
\<close>

record smp_setup =
  the_tag :: u64
  the_locals :: u64
  ncpu :: nat
  bsp :: nat
  frame0 :: nat
  frame_end :: nat
  ap_addr :: u64
  lapic_ids :: "nat \<Rightarrow> u32"
  the_root :: u64
  the_gdtr :: gdtr_t
  the_idtr :: idtr_t
  the_lapic :: u64

definition tss_of :: "smp_setup \<Rightarrow> nat \<Rightarrow> u64" where
  "tss_of g c = cpu_local_tss (cpu_local_at (the_locals g) (of_nat c))"

definition stack_of :: "smp_setup \<Rightarrow> nat \<Rightarrow> u64" where
  "stack_of g c = PHYS_TO_HIGHER_HALF_DATA (page_addr (frame0 g + 2 * c) + CPU_LOCALS_STACK_SIZE)"

definition setup_ok :: "smp_setup \<Rightarrow> bool" where
  "setup_ok g \<longleftrightarrow> smp_apart (the_tag g) (the_locals g) (ncpu g) \<and> bsp g < ncpu g \<and> ncpu g < 2 ^ 32 \<and> ap_addr g \<noteq> 0
     \<and> region_off (the_tag g) (40 + 32 * ncpu g) {frame0 g..<frame_end g} \<and> region_off (the_locals g) (120 * ncpu g) {frame0 g..<frame_end g}
     \<and> frame0 g + 2 * ncpu g \<le> frame_end g \<and> (\<forall>i<ncpu g. lapic_ids g i = lapic_ids g (bsp g) \<longrightarrow> i = bsp g)"

definition setup_kept :: "smp_setup \<Rightarrow> smp_state \<Rightarrow> bool" where
  "setup_kept g s \<longleftrightarrow> cpu_locals s = the_locals g \<and> root_page_table (sys s) = the_root g \<and> lapic_address (sys s) = the_lapic g
     \<and> gdtr (tables s) = the_gdtr g \<and> idtr (tables s) = the_idtr g \<and> length (entries (gdt (tables s))) = 5
     \<and> head_view (smp_mem s) (the_tag g) = (of_nat (ncpu g), lapic_ids g (bsp g))
     \<and> (\<forall>i<ncpu g. fst (entry_view (smp_mem s) (the_tag g) i) = lapic_ids g i)"

text \<open>Which program points a processor can be at.\<close>

fun bsp_point :: "nat \<Rightarrow> nat \<Rightarrow> smp_pc \<Rightarrow> bool" where
  "bsp_point n b (For_Head i) \<longleftrightarrow> i \<le> n"
| "bsp_point n b (For_Acquire i) \<longleftrightarrow> i < n"
| "bsp_point n b (For_Prepare i) \<longleftrightarrow> i < n"
| "bsp_point n b (For_Branch i) \<longleftrightarrow> i < n"
| "bsp_point n b Wait_Online \<longleftrightarrow> True"
| "bsp_point n b Returned \<longleftrightarrow> True"
| "bsp_point n b (Local_Fill caller i) \<longleftrightarrow> caller = Bsp_Init \<and> i = b"
| "bsp_point n b (Local_Create caller i x) \<longleftrightarrow> caller = Bsp_Init \<and> i = b \<and> x = of_nat i"
| "bsp_point n b (Local_Load caller i) \<longleftrightarrow> caller = Bsp_Init \<and> i = b"
| "bsp_point n b (Local_Sse caller i) \<longleftrightarrow> caller = Bsp_Init \<and> i = b"
| "bsp_point n b (Count caller i) \<longleftrightarrow> caller = Bsp_Init \<and> i = b"
| "bsp_point n b (Release caller i) \<longleftrightarrow> caller = Bsp_Init \<and> i < n"
| "bsp_point n b _ \<longleftrightarrow> False"

fun ap_point :: "nat \<Rightarrow> smp_pc \<Rightarrow> bool" where
  "ap_point c Parked \<longleftrightarrow> True"
| "ap_point c (Ap_Acquire i) \<longleftrightarrow> i = c"
| "ap_point c (Ap_Tables i) \<longleftrightarrow> i = c"
| "ap_point c (Ap_Lapic i) \<longleftrightarrow> i = c"
| "ap_point c Ap_Sti \<longleftrightarrow> True"
| "ap_point c Ap_Hlt \<longleftrightarrow> True"
| "ap_point c (Local_Fill caller i) \<longleftrightarrow> caller = Ap_Init \<and> i = c"
| "ap_point c (Local_Create caller i x) \<longleftrightarrow> caller = Ap_Init \<and> i = c \<and> x = of_nat i"
| "ap_point c (Local_Load caller i) \<longleftrightarrow> caller = Ap_Init \<and> i = c"
| "ap_point c (Local_Sse caller i) \<longleftrightarrow> caller = Ap_Init \<and> i = c"
| "ap_point c (Count caller i) \<longleftrightarrow> caller = Ap_Init \<and> i = c"
| "ap_point c (Release caller i) \<longleftrightarrow> caller = Ap_Init \<and> i = c"
| "ap_point c _ \<longleftrightarrow> False"

text \<open>How many entries the loop of \<open>smp_init\<close> has prepared, and how many of them it has passed.\<close>

fun prepared :: "nat \<Rightarrow> smp_pc \<Rightarrow> nat" where
  "prepared n (For_Head i) = i"
| "prepared n (For_Acquire i) = i"
| "prepared n (For_Prepare i) = i"
| "prepared n (For_Branch i) = Suc i"
| "prepared n (Local_Fill _ i) = Suc i"
| "prepared n (Local_Create _ i _) = Suc i"
| "prepared n (Local_Load _ i) = Suc i"
| "prepared n (Local_Sse _ i) = Suc i"
| "prepared n (Count _ i) = Suc i"
| "prepared n (Release _ i) = Suc i"
| "prepared n _ = n"

fun passed :: "nat \<Rightarrow> smp_pc \<Rightarrow> nat" where
  "passed n (For_Head i) = i"
| "passed n (For_Acquire i) = i"
| "passed n (For_Prepare i) = i"
| "passed n (For_Branch i) = i"
| "passed n (Local_Fill _ i) = Suc i"
| "passed n (Local_Create _ i _) = Suc i"
| "passed n (Local_Load _ i) = Suc i"
| "passed n (Local_Sse _ i) = Suc i"
| "passed n (Count _ i) = Suc i"
| "passed n (Release _ i) = Suc i"
| "passed n _ = n"

text \<open>How far the initialisation of the processor itself has come: 2 tables loaded, 3 its array element
  filled, 4 its segment described, 5 loaded, 6 vector unit on, 7 local APIC on, 8 counted.\<close>

fun stage :: "nat \<Rightarrow> smp_pc \<Rightarrow> nat" where
  "stage b Parked = 0"
| "stage b (Ap_Acquire i) = 1"
| "stage b (Ap_Tables i) = 1"
| "stage b (Local_Fill caller i) = 2"
| "stage b (Local_Create caller i x) = 3"
| "stage b (Local_Load caller i) = 4"
| "stage b (Local_Sse caller i) = 5"
| "stage b (Ap_Lapic i) = 6"
| "stage b (Count caller i) = 7"
| "stage b (Release caller i) = (if caller = Ap_Init \<or> b \<le> i then 8 else 0)"
| "stage b (For_Head i) = (if b < i then 8 else 0)"
| "stage b (For_Acquire i) = (if b < i then 8 else 0)"
| "stage b (For_Prepare i) = (if b < i then 8 else 0)"
| "stage b (For_Branch i) = (if b < i then 8 else 0)"
| "stage b _ = 8"

fun holds_smp :: "smp_pc \<Rightarrow> bool" where
  "holds_smp (For_Prepare i) \<longleftrightarrow> True"
| "holds_smp (For_Branch i) \<longleftrightarrow> True"
| "holds_smp (Ap_Tables i) \<longleftrightarrow> True"
| "holds_smp (Local_Fill caller i) \<longleftrightarrow> True"
| "holds_smp (Local_Create caller i x) \<longleftrightarrow> True"
| "holds_smp (Local_Load caller i) \<longleftrightarrow> True"
| "holds_smp (Local_Sse caller i) \<longleftrightarrow> True"
| "holds_smp (Ap_Lapic i) \<longleftrightarrow> True"
| "holds_smp (Count caller i) \<longleftrightarrow> True"
| "holds_smp (Release caller i) \<longleftrightarrow> True"
| "holds_smp _ \<longleftrightarrow> False"

definition tables_loaded :: "smp_setup \<Rightarrow> smp_cpu \<Rightarrow> bool" where
  "tables_loaded g r \<longleftrightarrow> reg_cr3 r = HIGHER_HALF_DATA_TO_PHYS (the_root g) \<and> reg_msrs r 0x277 = custom_pat_config
     \<and> reg_gdtr r = the_gdtr g \<and> reg_idtr r = the_idtr g \<and> reg_cs r = 0x08 \<and> reg_ds r = 0x10"

definition sse_on :: "smp_cpu \<Rightarrow> bool" where
  "sse_on r \<longleftrightarrow> \<not> bit (reg_cr0 r) 2 \<and> bit (reg_cr0 r) 1 \<and> bit (reg_cr4 r) 9 \<and> bit (reg_cr4 r) 10"

definition lapic_on :: "smp_setup \<Rightarrow> smp_cpu \<Rightarrow> bool" where
  "lapic_on g r \<longleftrightarrow> (\<exists>v. Write32 (the_lapic g + 0xF0) (v OR 0x1FF) \<in> set (reg_mmio r))"

definition cpu_up :: "smp_setup \<Rightarrow> smp_state \<Rightarrow> nat \<Rightarrow> bool" where
  "cpu_up g s c \<longleftrightarrow>
     (let k = stage (bsp g) (pcs s c); r = cpus s c in
      (2 \<le> k \<and> c \<noteq> bsp g \<longrightarrow> tables_loaded g r)
      \<and> (3 \<le> k \<longrightarrow> local_view (smp_mem s) (the_locals g) c = (of_nat c, lapic_ids g c, stack_of g c))
      \<and> (k = 4 \<longrightarrow> system_base (gdt_bytes (gdt (tables s))) 0x28 = tss_of g c)
      \<and> (5 \<le> k \<longrightarrow> reg_tr r = 0x28 \<and> reg_tss_base r = tss_of g c)
      \<and> (6 \<le> k \<longrightarrow> sse_on r) \<and> (7 \<le> k \<and> c \<noteq> bsp g \<longrightarrow> lapic_on g r))"

definition entries_set :: "smp_setup \<Rightarrow> smp_state \<Rightarrow> bool" where
  "entries_set g s \<longleftrightarrow> (\<forall>i<ncpu g. case entry_view (smp_mem s) (the_tag g) i of (_, stack, goto_address, arg) \<Rightarrow>
     (i < prepared (ncpu g) (pcs s (bsp g)) \<longrightarrow> arg = of_nat i \<and> stack = stack_of g i)
     \<and> goto_address = (if i < passed (ncpu g) (pcs s (bsp g)) \<and> i \<noteq> bsp g then ap_addr g else 0)
     \<and> (i \<noteq> bsp g \<longrightarrow> pcs s i \<noteq> Parked \<longrightarrow> i < passed (ncpu g) (pcs s (bsp g))))"

definition holders_smp :: "smp_setup \<Rightarrow> (nat \<Rightarrow> smp_pc) \<Rightarrow> nat set" where
  "holders_smp g pc = {c. c < ncpu g \<and> holds_smp (pc c)}"

definition lock_ok :: "smp_setup \<Rightarrow> smp_state \<Rightarrow> bool" where
  "lock_ok g s \<longleftrightarrow> exclusive (lock (smp_lock s) \<noteq> 0) (holders_smp g (pcs s))"

definition frames_ok :: "smp_setup \<Rightarrow> smp_state \<Rightarrow> bool" where
  "frames_ok g s \<longleftrightarrow> pmm_wf (sys s) \<and> pmm_free_pages (sys s) = {frame0 g + 2 * prepared (ncpu g) (pcs s (bsp g))..<frame_end g}"

definition smp_inv :: "smp_setup \<Rightarrow> smp_state \<Rightarrow> bool" where
  "smp_inv g s \<longleftrightarrow> setup_kept g s \<and> entries_set g s \<and> lock_ok g s \<and> frames_ok g s
     \<and> (\<forall>c<ncpu g. (if c = bsp g then bsp_point (ncpu g) (bsp g) (pcs s c) else ap_point c (pcs s c)) \<and> cpu_up g s c)
     \<and> cpus_online s = of_nat (card {c. c < ncpu g \<and> stage (bsp g) (pcs s c) = 8})"

section \<open>One step\<close>

lemma smp_invD:
  assumes "smp_inv g s"
  shows "setup_kept g s" "entries_set g s" "lock_ok g s" "frames_ok g s"
    "c < ncpu g \<Longrightarrow> cpu_up g s c" "bsp g < ncpu g \<Longrightarrow> bsp_point (ncpu g) (bsp g) (pcs s (bsp g))"
    "c < ncpu g \<Longrightarrow> c \<noteq> bsp g \<Longrightarrow> ap_point c (pcs s c)"
    "cpus_online s = of_nat (card {c. c < ncpu g \<and> stage (bsp g) (pcs s c) = 8})"
  using assms by (auto simp: smp_inv_def split: if_splits)

lemma cpu_up_cong:
  assumes "cpu_up g s d" "pcs t d = pcs s d" "cpus t d = cpus s d"
    and "local_view (smp_mem t) (the_locals g) d = local_view (smp_mem s) (the_locals g) d"
    and "stage (bsp g) (pcs s d) = 4 \<Longrightarrow> gdt (tables t) = gdt (tables s)"
  shows "cpu_up g t d"
  using assms by (auto simp: cpu_up_def Let_def)

lemma cpu_up_flag:
  assumes "cpu_up g s c" "stage (bsp g) (pcs t c) = stage (bsp g) (pcs s c)" "cpus t c = (cpus s c)\<lparr>reg_if := b\<rparr>"
    and "smp_mem t = smp_mem s" "gdt (tables t) = gdt (tables s)"
  shows "cpu_up g t c"
  using assms by (simp add: cpu_up_def Let_def tables_loaded_def sse_on_def lapic_on_def)

lemma stage_counts:
  fixes n :: nat
  assumes "c < n" "stage b pc = 8 \<or> stage b (ps c) \<noteq> 8"
  shows "card {d. d < n \<and> stage b ((ps(c := pc)) d) = 8}
    = card {d. d < n \<and> stage b (ps d) = 8} + (if stage b pc = 8 \<and> stage b (ps c) \<noteq> 8 then 1 else 0)"
proof -
  let ?A = "{d. d < n \<and> stage b (ps d) = 8}"
  have "{d. d < n \<and> stage b ((ps(c := pc)) d) = 8} = (if stage b pc = 8 then insert c ?A else ?A)" using assms by auto
  moreover have "finite ?A" by (rule finite_subset [of _ "{..<n}"]) auto
  moreover have "stage b (ps c) = 8 \<Longrightarrow> insert c ?A = ?A" using assms(1) by auto
  ultimately show ?thesis by auto
qed

lemma smp_inv_step:
  assumes inv: "smp_inv g s" and c: "c < ncpu g" and pcs: "pcs t = (pcs s)(c := pc)"
    and parts: "setup_kept g t" "entries_set g t" "lock_ok g t" "frames_ok g t"
    and point: "if c = bsp g then bsp_point (ncpu g) (bsp g) pc else ap_point c pc" and up: "cpu_up g t c"
    and others: "\<And>d. d < ncpu g \<Longrightarrow> d \<noteq> c \<Longrightarrow> cpus t d = cpus s d
        \<and> local_view (smp_mem t) (the_locals g) d = local_view (smp_mem s) (the_locals g) d
        \<and> (stage (bsp g) (pcs s d) = 4 \<longrightarrow> gdt (tables t) = gdt (tables s))"
    and online: "stage (bsp g) pc = 8 \<or> stage (bsp g) (pcs s c) \<noteq> 8"
      "cpus_online t = cpus_online s + (if stage (bsp g) pc = 8 \<and> stage (bsp g) (pcs s c) \<noteq> 8 then 1 else 0)"
  shows "smp_inv g t"
proof -
  have "cpu_up g t d" if d: "d < ncpu g" for d
  proof (cases "d = c")
    case False
    then show ?thesis using cpu_up_cong [OF smp_invD(5) [OF inv d]] others [OF d False] pcs by simp
  qed (use up in simp)
  moreover have "if d = bsp g then bsp_point (ncpu g) (bsp g) (pcs t d) else ap_point d (pcs t d)" if d: "d < ncpu g" for d
    using point inv d pcs by (cases "d = c") (auto simp: smp_inv_def)
  moreover have "cpus_online t = of_nat (card {c. c < ncpu g \<and> stage (bsp g) (pcs t c) = 8})"
    unfolding pcs stage_counts [of c "ncpu g" "bsp g" pc "pcs s", OF c online(1)] using online(2) smp_invD(8) [OF inv] by simp
  ultimately show ?thesis using parts by (simp add: smp_inv_def)
qed

text \<open>The lock.\<close>

lemma holders_smp_upd:
  "c < ncpu g \<Longrightarrow> holders_smp g (pc(c := x)) = (if holds_smp x then insert c (holders_smp g pc) else holders_smp g pc - {c})"
  by (auto simp: holders_smp_def)

lemma lock_ok_same:
  assumes "lock_ok g s" "lock (smp_lock t) = lock (smp_lock s)" "pcs t = (pcs s)(c := pc)" "holds_smp pc = holds_smp (pcs s c)"
  shows "lock_ok g t"
proof -
  have "holders_smp g (pcs t) = holders_smp g (pcs s)" using assms(3,4) by (auto simp: holders_smp_def)
  then show ?thesis using assms(1,2) by (simp add: lock_ok_def)
qed

lemma holder_unique:
  assumes "lock_ok g s" "c < ncpu g" "holds_smp (pcs s c)"
  shows "lock (smp_lock s) \<noteq> 0" "d < ncpu g \<Longrightarrow> holds_smp (pcs s d) \<Longrightarrow> d = c"
proof -
  have "c \<in> holders_smp g (pcs s)" using assms(2,3) by (simp add: holders_smp_def)
  then have "lock (smp_lock s) \<noteq> 0" "holders_smp g (pcs s) = {c}" using assms(1) by (auto simp: lock_ok_def exclusive_def split: if_splits)
  then show "lock (smp_lock s) \<noteq> 0" "d < ncpu g \<Longrightarrow> holds_smp (pcs s d) \<Longrightarrow> d = c" by (auto simp: holders_smp_def)
qed

lemma stage_4_holds: "stage b pc = 4 \<Longrightarrow> holds_smp pc"
  by (cases pc) (auto split: if_splits)

text \<open>The entries when memory stays as it is.\<close>

lemma entries_set_same:
  assumes "entries_set g s" "pcs t = (pcs s)(c := pc)" "\<And>i. i < ncpu g \<Longrightarrow> entry_view (smp_mem t) (the_tag g) i = entry_view (smp_mem s) (the_tag g) i"
    and "c = bsp g \<Longrightarrow> prepared (ncpu g) pc = prepared (ncpu g) (pcs s c) \<and> passed (ncpu g) pc = passed (ncpu g) (pcs s c)"
    and "c \<noteq> bsp g \<Longrightarrow> pc \<noteq> Parked \<Longrightarrow> pcs s c = Parked \<Longrightarrow> c < passed (ncpu g) (pcs s (bsp g))"
  shows "entries_set g t"
  using assms by (auto simp: entries_set_def)

lemma frames_ok_same:
  assumes "frames_ok g s" "pcs t = (pcs s)(c := pc)" "c = bsp g \<Longrightarrow> prepared (ncpu g) pc = prepared (ncpu g) (pcs s c)"
    and "pmm_wf (sys t) = pmm_wf (sys s)" "pmm_free_pages (sys t) = pmm_free_pages (sys s)"
  shows "frames_ok g t"
  using assms by (auto simp: frames_ok_def)

lemma pmm_cpu_fields [simp]:
  fixes x :: apic_state
  shows "pmm_wf (x\<lparr>cr3 := a\<rparr>) = pmm_wf x" "pmm_wf (x\<lparr>msrs := b\<rparr>) = pmm_wf x" "pmm_wf (x\<lparr>mmio := e\<rparr>) = pmm_wf x" "pmm_wf (x\<lparr>kmem := m\<rparr>) = pmm_wf x"
    "pmm_free_pages (x\<lparr>cr3 := a\<rparr>) = pmm_free_pages x" "pmm_free_pages (x\<lparr>msrs := b\<rparr>) = pmm_free_pages x"
    "pmm_free_pages (x\<lparr>mmio := e\<rparr>) = pmm_free_pages x" "pmm_free_pages (x\<lparr>kmem := m\<rparr>) = pmm_free_pages x"
  by (simp_all add: pmm_wf_def pmm_inv_def pmm_counter_ok_def pmm_used_def pmm_free_pages_def pmm_pages_def)

text \<open>A step that touches neither memory nor the segment table nor the lock nor the count.\<close>

lemma smp_inv_quiet:
  assumes inv: "smp_inv g s" and c: "c < ncpu g" and pcs: "pcs t = (pcs s)(c := pc)"
    and same: "smp_mem t = smp_mem s" "pmm_wf (sys t) = pmm_wf (sys s)" "pmm_free_pages (sys t) = pmm_free_pages (sys s)"
      "root_page_table (sys t) = root_page_table (sys s)" "lapic_address (sys t) = lapic_address (sys s)"
      "gdtr (tables t) = gdtr (tables s)" "idtr (tables t) = idtr (tables s)" "gdt (tables t) = gdt (tables s)"
      "cpu_locals t = cpu_locals s" "\<And>d. d \<noteq> c \<Longrightarrow> cpus t d = cpus s d"
    and lk: "lock_ok g t"
    and point: "if c = bsp g then bsp_point (ncpu g) (bsp g) pc else ap_point c pc" and up: "cpu_up g t c"
    and keeps: "c = bsp g \<Longrightarrow> prepared (ncpu g) pc = prepared (ncpu g) (pcs s c) \<and> passed (ncpu g) pc = passed (ncpu g) (pcs s c)"
      "c \<noteq> bsp g \<Longrightarrow> pc \<noteq> Parked \<Longrightarrow> pcs s c = Parked \<Longrightarrow> c < passed (ncpu g) (pcs s (bsp g))"
    and online: "stage (bsp g) pc = 8 \<or> stage (bsp g) (pcs s c) \<noteq> 8"
      "cpus_online t = cpus_online s + (if stage (bsp g) pc = 8 \<and> stage (bsp g) (pcs s c) \<noteq> 8 then 1 else 0)"
  shows "smp_inv g t"
proof (rule smp_inv_step [OF inv c pcs _ _ lk _ point up _ online])
  show "setup_kept g t" using smp_invD(1) [OF inv] same by (simp add: setup_kept_def)
  show "entries_set g t" using entries_set_same [OF smp_invD(2) [OF inv] pcs] same(1) keeps by simp
  show "frames_ok g t" using frames_ok_same [OF smp_invD(4) [OF inv] pcs] same(2,3) keeps(1) by simp
qed (use same in simp_all)

section \<open>The steps\<close>

lemma point_at:
  assumes "smp_inv g s" "c < ncpu g"
  shows "if c = bsp g then bsp_point (ncpu g) (bsp g) (pcs s c) else ap_point c (pcs s c)"
  using assms by (auto simp: smp_inv_def)

lemma inv_acquire:
  assumes inv: "smp_inv g s" and c: "c < ncpu g"
    and at: "pcs s c = For_Acquire i \<and> pc = For_Prepare i \<or> pcs s c = Ap_Acquire i \<and> pc = Ap_Tables i"
  shows "smp_inv g (smp_acquire c pc s)"
proof (cases "spinlock_acquire (smp_lock s) (reg_if (cpus s c))")
  case None
  then show ?thesis using inv by (simp add: smp_acquire_def)
next
  case (Some a)
  then obtain l f where acq: "spinlock_acquire (smp_lock s) (reg_if (cpus s c)) = Some (l, f)" by (cases a) simp
  let ?t = "s\<lparr>smp_lock := l, cpus := (cpus s)(c := (cpus s c)\<lparr>reg_if := f\<rparr>), pcs := (pcs s)(c := pc)\<rparr>"
  have t: "smp_acquire c pc s = ?t" using acq by (simp add: smp_acquire_def)
  have "holders_smp g (pcs s) = {}" "exclusive (lock l \<noteq> 0) {c}"
    using sl.acquire_exclusive [OF smp_invD(3) [OF inv, unfolded lock_ok_def] acq] by simp_all
  moreover have "holds_smp pc" using at by auto
  ultimately have "lock_ok g ?t" using c by (simp add: lock_ok_def holders_smp_upd)
  moreover have st: "stage (bsp g) pc = stage (bsp g) (pcs s c)" using at by auto
  then have "cpu_up g ?t c" by (intro cpu_up_flag [OF smp_invD(5) [OF inv c], of _ f]) simp_all
  moreover have "if c = bsp g then bsp_point (ncpu g) (bsp g) pc else ap_point c pc" using point_at [OF inv c] at by (auto split: if_splits)
  moreover have "prepared (ncpu g) pc = prepared (ncpu g) (pcs s c) \<and> passed (ncpu g) pc = passed (ncpu g) (pcs s c)" using at by auto
  moreover have "pcs s c \<noteq> Parked" using at by auto
  ultimately show ?thesis unfolding t using st by (intro smp_inv_quiet [OF inv c, of _ pc]) simp_all
qed

lemma inv_release:
  assumes inv: "smp_inv g s" and c: "c < ncpu g" and at: "pcs s c = Release caller i"
  defines "pc \<equiv> (case caller of Bsp_Init \<Rightarrow> For_Head (Suc i) | Ap_Init \<Rightarrow> Ap_Sti)"
  shows "smp_inv g (smp_release c pc s)"
proof -
  obtain l f where rel: "spinlock_release (smp_lock s) (reg_if (cpus s c)) = (l, f)" by (cases "spinlock_release (smp_lock s) (reg_if (cpus s c))")
  let ?t = "s\<lparr>smp_lock := l, cpus := (cpus s)(c := (cpus s c)\<lparr>reg_if := f\<rparr>), pcs := (pcs s)(c := pc)\<rparr>"
  have t: "smp_release c pc s = ?t" using rel by (simp add: smp_release_def)
  have "c \<in> holders_smp g (pcs s)" using at c by (simp add: holders_smp_def)
  then have "exclusive (lock l \<noteq> 0) (holders_smp g (pcs s) - {c})"
    using sl.release_exclusive(2) [OF smp_invD(3) [OF inv, unfolded lock_ok_def] _ rel] by simp
  moreover have "\<not> holds_smp pc" unfolding pc_def by (cases caller) simp_all
  ultimately have "lock_ok g ?t" using c by (simp add: lock_ok_def holders_smp_upd)
  moreover have st: "stage (bsp g) pc = stage (bsp g) (pcs s c)" using at by (cases caller) (auto simp: pc_def)
  then have "cpu_up g ?t c" by (intro cpu_up_flag [OF smp_invD(5) [OF inv c]]) simp_all
  moreover have "if c = bsp g then bsp_point (ncpu g) (bsp g) pc else ap_point c pc"
    "c = bsp g \<Longrightarrow> prepared (ncpu g) pc = prepared (ncpu g) (pcs s c) \<and> passed (ncpu g) pc = passed (ncpu g) (pcs s c)"
    using point_at [OF inv c] at by (auto simp: pc_def split: if_splits)
  ultimately show ?thesis unfolding t using at st by (intro smp_inv_quiet [OF inv c, of _ pc]) simp_all
qed

text \<open>Steps that only move on, or change registers of the processor itself.\<close>

lemma inv_goto:
  assumes inv: "smp_inv g s" and c: "c < ncpu g" and st: "stage (bsp g) pc = stage (bsp g) (pcs s c)" and hs: "holds_smp pc = holds_smp (pcs s c)"
    and point: "if c = bsp g then bsp_point (ncpu g) (bsp g) pc else ap_point c pc"
    and keeps: "c = bsp g \<Longrightarrow> prepared (ncpu g) pc = prepared (ncpu g) (pcs s c) \<and> passed (ncpu g) pc = passed (ncpu g) (pcs s c)"
      "c \<noteq> bsp g \<Longrightarrow> pc \<noteq> Parked \<Longrightarrow> pcs s c = Parked \<Longrightarrow> c < passed (ncpu g) (pcs s (bsp g))"
  shows "smp_inv g (goto c pc s)"
proof (rule smp_inv_quiet [OF inv c _ _ _ _ _ _ _ _ _ _ _ _ point _ keeps, of "goto c pc s"])
  show "lock_ok g (goto c pc s)" by (rule lock_ok_same [OF smp_invD(3) [OF inv], of _ c pc]) (use hs in simp_all)
  show "cpu_up g (goto c pc s) c" using smp_invD(5) [OF inv c] st by (simp add: cpu_up_def Let_def)
qed (use st in simp_all)

lemma inv_cpu:
  assumes inv: "smp_inv g s" and c: "c < ncpu g" and hs: "holds_smp pc" "holds_smp (pcs s c)"
    and point: "if c = bsp g then bsp_point (ncpu g) (bsp g) pc else ap_point c pc"
    and keeps: "c = bsp g \<Longrightarrow> prepared (ncpu g) pc = prepared (ncpu g) (pcs s c) \<and> passed (ncpu g) pc = passed (ncpu g) (pcs s c)"
    and t: "pcs t = (pcs s)(c := pc)" "smp_lock t = smp_lock s"
    and same: "smp_mem t = smp_mem s" "pmm_wf (sys t) = pmm_wf (sys s)" "pmm_free_pages (sys t) = pmm_free_pages (sys s)"
      "root_page_table (sys t) = root_page_table (sys s)" "lapic_address (sys t) = lapic_address (sys s)"
      "gdtr (tables t) = gdtr (tables s)" "idtr (tables t) = idtr (tables s)" "gdt (tables t) = gdt (tables s)"
      "cpu_locals t = cpu_locals s" "\<And>d. d \<noteq> c \<Longrightarrow> cpus t d = cpus s d"
    and up: "cpu_up g t c"
    and online: "stage (bsp g) pc = 8 \<or> stage (bsp g) (pcs s c) \<noteq> 8"
      "cpus_online t = cpus_online s + (if stage (bsp g) pc = 8 \<and> stage (bsp g) (pcs s c) \<noteq> 8 then 1 else 0)"
  shows "smp_inv g t"
proof (rule smp_inv_quiet [OF inv c t(1) same _ point up keeps _ online])
  show "lock_ok g t" by (rule lock_ok_same [OF smp_invD(3) [OF inv] _ t(1)]) (use t(2) hs in simp_all)
  show "c < passed (ncpu g) (pcs s (bsp g))" if "pcs s c = Parked" using hs(2) that by simp
qed

lemma inv_unpark:
  assumes inv: "smp_inv g s" and c: "c < ncpu g" and at: "pcs s c = Parked" "c \<noteq> bsp g" "c < passed (ncpu g) (pcs s (bsp g))"
  shows "smp_inv g (goto c (Ap_Acquire c) s)"
proof (rule smp_inv_quiet [OF inv c, of "goto c (Ap_Acquire c) s" "Ap_Acquire c"])
  show "lock_ok g (goto c (Ap_Acquire c) s)" using at by (intro lock_ok_same [OF smp_invD(3) [OF inv], of _ c "Ap_Acquire c"]) simp_all
  show "cpu_up g (goto c (Ap_Acquire c) s) c" by (simp add: cpu_up_def Let_def)
qed (use at in simp_all)

lemma inv_sti:
  assumes inv: "smp_inv g s" and c: "c < ncpu g" and at: "pcs s c = Ap_Sti"
  shows "smp_inv g (goto c Ap_Hlt (upd_cpu c (\<lambda>r. r\<lparr>reg_if := True\<rparr>) s))"
proof (rule smp_inv_quiet [OF inv c, of _ Ap_Hlt])
  let ?t = "goto c Ap_Hlt (upd_cpu c (\<lambda>r. r\<lparr>reg_if := True\<rparr>) s)"
  show "lock_ok g ?t" using at by (intro lock_ok_same [OF smp_invD(3) [OF inv], of _ c Ap_Hlt]) simp_all
  show "cpu_up g ?t c" using at by (intro cpu_up_flag [OF smp_invD(5) [OF inv c], of _ True]) simp_all
qed (use at point_at [OF inv c] in \<open>simp_all split: if_splits\<close>)

lemmas on_defs = on_sys_def on_tables_def Let_def enable_pat_def asm_wrmsr_def vmm_load_page_table_def vmm_get_root_page_table_def
  gdt_load_def idt_load_def

lemma inv_tables:
  assumes inv: "smp_inv g s" and c: "c < ncpu g" and at: "pcs s c = Ap_Tables i"
  shows "smp_inv g (goto c (Local_Fill Ap_Init i) (ap_tables c s))"
proof (rule inv_cpu [OF inv c, of "Local_Fill Ap_Init i"])
  let ?t = "goto c (Local_Fill Ap_Init i) (ap_tables c s)"
  have "push_bit 32 (drop_bit 32 custom_pat_config) OR ucast (ucast custom_pat_config :: u32) = custom_pat_config"
    by (simp add: custom_pat_config_def)
  then have "tables_loaded g (cpus ?t c)" using smp_invD(1) [OF inv] by (simp add: ap_tables_def on_defs tables_loaded_def setup_kept_def)
  then show "cpu_up g ?t c" by (simp add: cpu_up_def ap_tables_def on_defs)
qed (use at point_at [OF inv c] in \<open>auto simp: ap_tables_def on_defs split: if_splits\<close>)

lemma inv_load:
  assumes inv: "smp_inv g s" and c: "c < ncpu g" and at: "pcs s c = Local_Load caller i"
  shows "smp_inv g (goto c (Local_Sse caller i) (on_tss_load c s))"
proof (rule inv_cpu [OF inv c, of "Local_Sse caller i"])
  show "cpu_up g (goto c (Local_Sse caller i) (on_tss_load c s)) c"
    using smp_invD(5) [OF inv c] at by (simp add: cpu_up_def on_tss_load_def on_tables_def tss_load_def Let_def tables_loaded_def)
qed (use at point_at [OF inv c] in \<open>auto simp: on_tss_load_def on_tables_def tss_load_def Let_def split: if_splits\<close>)

lemma enable_sse_on: "sse_on (enable_sse r)"
  by (simp add: sse_on_def enable_sse_def Let_def bit_simps)

lemma enable_sse_rest:
  "reg_cr3 (enable_sse r) = reg_cr3 r" "reg_msrs (enable_sse r) = reg_msrs r" "reg_gdtr (enable_sse r) = reg_gdtr r" "reg_idtr (enable_sse r) = reg_idtr r"
  "reg_cs (enable_sse r) = reg_cs r" "reg_ds (enable_sse r) = reg_ds r" "reg_tr (enable_sse r) = reg_tr r" "reg_tss_base (enable_sse r) = reg_tss_base r"
  by (simp_all add: enable_sse_def Let_def)

lemma inv_sse:
  assumes inv: "smp_inv g s" and c: "c < ncpu g" and at: "pcs s c = Local_Sse caller i"
  defines "pc \<equiv> (case caller of Bsp_Init \<Rightarrow> Count caller i | Ap_Init \<Rightarrow> Ap_Lapic i)"
  shows "smp_inv g (goto c pc (upd_cpu c enable_sse s))"
proof (rule inv_cpu [OF inv c, of pc])
  show "cpu_up g (goto c pc (upd_cpu c enable_sse s)) c"
    using smp_invD(5) [OF inv c] at point_at [OF inv c]
    by (cases caller) (auto simp: cpu_up_def pc_def Let_def tables_loaded_def enable_sse_on enable_sse_rest split: if_splits)
qed (use at point_at [OF inv c] in \<open>cases caller; auto simp: pc_def split: if_splits\<close>)+

lemma inv_lapic:
  assumes inv: "smp_inv g s" and c: "c < ncpu g" and at: "pcs s c = Ap_Lapic i"
  shows "smp_inv g (goto c (Count Ap_Init i) (on_sys c (lapic_enable dev) s))"
proof (rule inv_cpu [OF inv c, of "Count Ap_Init i"])
  let ?t = "goto c (Count Ap_Init i) (on_sys c (lapic_enable dev) s)"
  have la: "lapic_address (sys s) = the_lapic g" using smp_invD(1) [OF inv] by (simp add: setup_kept_def)
  have "v OR (256 OR 255) = v OR (0x1FF :: u32)" for v by simp
  then have "lapic_on g (cpus ?t c)"
    using la by (auto simp: lapic_on_def on_sys_def lapic_enable_def lapic_read_reg_def lapic_write_reg_def mmio_read32_def mmio_write32_def Let_def or.assoc)
  then show "cpu_up g ?t c" using smp_invD(5) [OF inv c] at
    by (simp add: cpu_up_def on_sys_def lapic_enable_def lapic_read_reg_def lapic_write_reg_def mmio_read32_def mmio_write32_def Let_def tables_loaded_def sse_on_def)
qed (use at point_at [OF inv c] in \<open>auto simp: on_sys_def lapic_enable_def lapic_read_reg_def lapic_write_reg_def mmio_read32_def mmio_write32_def Let_def split: if_splits\<close>)

lemma inv_count:
  assumes inv: "smp_inv g s" and c: "c < ncpu g" and at: "pcs s c = Count caller i"
  shows "smp_inv g (goto c (Release caller i) (s\<lparr>cpus_online := cpus_online s + 1\<rparr>))"
proof (rule inv_cpu [OF inv c, of "Release caller i"])
  show "cpu_up g (goto c (Release caller i) (s\<lparr>cpus_online := cpus_online s + 1\<rparr>)) c"
    using smp_invD(5) [OF inv c] at point_at [OF inv c] by (auto simp: cpu_up_def Let_def split: if_splits)
qed (use at point_at [OF inv c] c in \<open>auto split: if_splits\<close>)

text \<open>The segment descriptor is shared: writing it is safe because no other processor is about to load it.\<close>

lemma inv_create:
  assumes inv: "smp_inv g s" and c: "c < ncpu g" and at: "pcs s c = Local_Create caller i x"
  shows "smp_inv g (goto c (Local_Load caller i) (on_tables c (tss_create_segment (cpu_local_tss (cpu_local_at (cpu_locals s) x))) s))"
proof -
  let ?t = "goto c (Local_Load caller i) (on_tables c (tss_create_segment (cpu_local_tss (cpu_local_at (cpu_locals s) x))) s)"
  have kept: "setup_kept g s" by (rule smp_invD(1) [OF inv])
  have x: "x = of_nat c" using at point_at [OF inv c] by (auto split: if_splits)
  have t: "pcs ?t = (pcs s)(c := Local_Load caller i)" "sys ?t = sys s" "smp_lock ?t = smp_lock s" "cpus_online ?t = cpus_online s"
      "\<And>d. d \<noteq> c \<Longrightarrow> cpus ?t d = cpus s d" "cpus ?t c = cpus s c"
    by (simp_all add: on_tables_def Let_def tss_create_segment_def)
  have hs: "holds_smp (pcs s c)" using at by simp
  have len: "length (entries (gdt (tables s))) = 5" using kept by (simp add: setup_kept_def)
  have seg: "system_base (gdt_bytes (gdt (tables ?t))) 0x28 = tss_of g c"
    unfolding on_tables_def Let_def using kept x by (simp add: tss_segment_base len tss_of_def setup_kept_def)
  show ?thesis
  proof (rule smp_inv_step [OF inv c t(1)])
    show "setup_kept g ?t" using kept by (simp add: setup_kept_def on_tables_def Let_def tss_create_segment_def)
    show "entries_set g ?t" using at t by (intro entries_set_same [OF smp_invD(2) [OF inv] t(1)]) simp_all
    show "lock_ok g ?t" using hs t by (intro lock_ok_same [OF smp_invD(3) [OF inv] _ t(1)]) simp_all
    show "frames_ok g ?t" using at t by (intro frames_ok_same [OF smp_invD(4) [OF inv] t(1)]) simp_all
    show "if c = bsp g then bsp_point (ncpu g) (bsp g) (Local_Load caller i) else ap_point c (Local_Load caller i)"
      using at point_at [OF inv c] by (auto split: if_splits)
    show "cpu_up g ?t c" using smp_invD(5) [OF inv c] at seg t by (simp add: cpu_up_def Let_def)
    fix d assume d: "d < ncpu g" "d \<noteq> c"
    have "stage (bsp g) (pcs s d) \<noteq> 4" using holder_unique(2) [OF smp_invD(3) [OF inv] c hs d(1)] stage_4_holds d(2) by blast
    then show "cpus ?t d = cpus s d \<and> local_view (smp_mem ?t) (the_locals g) d = local_view (smp_mem s) (the_locals g) d
        \<and> (stage (bsp g) (pcs s d) = 4 \<longrightarrow> gdt (tables ?t) = gdt (tables s))" using t d(2) by simp
  qed (use at t in simp_all)
qed

text \<open>The steps that write memory.\<close>

lemma setup_keptI:
  assumes "setup_kept g s" "cpu_locals t = cpu_locals s" "root_page_table (sys t) = root_page_table (sys s)" "lapic_address (sys t) = lapic_address (sys s)"
    and "tables t = tables s" "head_view (smp_mem t) (the_tag g) = head_view (smp_mem s) (the_tag g)"
    and "\<And>i. i < ncpu g \<Longrightarrow> fst (entry_view (smp_mem t) (the_tag g) i) = fst (entry_view (smp_mem s) (the_tag g) i)"
  shows "setup_kept g t"
  using assms by (simp add: setup_kept_def)

lemma inv_fill:
  assumes ok: "setup_ok g" and inv: "smp_inv g s" and c: "c < ncpu g" and at: "pcs s c = Local_Fill caller i"
  shows "case local_fill (the_tag g) i s of (cpu_num, t) \<Rightarrow> smp_inv g (goto c (Local_Create caller i cpu_num) t)"
proof -
  have ap: "smp_apart (the_tag g) (the_locals g) (ncpu g)" using ok by (simp add: setup_ok_def)
  have i: "i = c" using at point_at [OF inv c] by (auto split: if_splits)
  have prep: "c < prepared (ncpu g) (pcs s (bsp g))"
  proof (cases "c = bsp g")
    case False
    have "case entry_view (smp_mem s) (the_tag g) c of (_, _, _, _) \<Rightarrow> c < passed (ncpu g) (pcs s (bsp g))"
      using smp_invD(2) [OF inv] c at False unfolding entries_set_def by fastforce
    then have "c < passed (ncpu g) (pcs s (bsp g))" by (simp split: prod.splits)
    moreover have "passed n pc \<le> prepared n pc" for n pc by (cases pc) simp_all
    ultimately show ?thesis by (meson less_le_trans)
  qed (use at i in simp)
  obtain gt where v: "entry_view (smp_mem s) (the_tag g) c = (lapic_ids g c, stack_of g c, gt, of_nat c)"
    using smp_invD(1,2) [OF inv] c prep by (fastforce simp: entries_set_def setup_kept_def)
  let ?m = "set_cpu_local (cpu_local_at (the_locals g) (of_nat c)) (of_nat c) (lapic_ids g c) (stack_of g c) (smp_mem s)"
  let ?t = "s\<lparr>sys := (sys s)\<lparr>kmem := ?m\<rparr>\<rparr>"
  have fill: "local_fill (the_tag g) i s = (of_nat c, ?t)"
    using v smp_invD(1) [OF inv] i by (simp add: local_fill_def entry_view_def Let_def setup_kept_def)
  note views = local_store_views [OF ap c, where num = "of_nat c" and lid = "lapic_ids g c" and stack = "stack_of g c" and m = "smp_mem s"]
  let ?u = "goto c (Local_Create caller i (of_nat c)) ?t"
  have "smp_inv g ?u"
  proof (rule smp_inv_step [OF inv c, of ?u "Local_Create caller i (of_nat c)"])
    show "setup_kept g ?u" using views(1,2) by (intro setup_keptI [OF smp_invD(1) [OF inv]]) simp_all
    show "entries_set g ?u" using views(2) at by (intro entries_set_same [OF smp_invD(2) [OF inv], of ?u c "Local_Create caller i (of_nat c)"]) simp_all
    show "lock_ok g ?u" using at by (intro lock_ok_same [OF smp_invD(3) [OF inv], of ?u c "Local_Create caller i (of_nat c)"]) simp_all
    show "frames_ok g ?u" using at by (intro frames_ok_same [OF smp_invD(4) [OF inv], of ?u c "Local_Create caller i (of_nat c)"]) simp_all
    show "if c = bsp g then bsp_point (ncpu g) (bsp g) (Local_Create caller i (of_nat c)) else ap_point c (Local_Create caller i (of_nat c))"
      using at point_at [OF inv c] by (auto split: if_splits)
    show "cpu_up g ?u c" using smp_invD(5) [OF inv c] at views(4) by (simp add: cpu_up_def Let_def)
  qed (use at views(3) in simp_all)
  then show ?thesis by (simp add: fill)
qed

lemma inv_prepare:
  assumes ok: "setup_ok g" and inv: "smp_inv g s" and c: "c < ncpu g" and at: "pcs s c = For_Prepare i"
  shows "\<exists>t. smp_prepare (the_tag g) i s = Inr t \<and> smp_inv g (goto c (For_Branch i) t)"
proof -
  have b: "c = bsp g" "i < ncpu g" using at point_at [OF inv c] by (auto split: if_splits)
  have ap: "smp_apart (the_tag g) (the_locals g) (ncpu g)" and room: "frame0 g + 2 * ncpu g \<le> frame_end g"
    and off: "region_off (the_tag g) (40 + 32 * ncpu g) {frame0 g..<frame_end g}" "region_off (the_locals g) (120 * ncpu g) {frame0 g..<frame_end g}"
    using ok by (simp_all add: setup_ok_def)
  let ?e = "smp_info_at (the_tag g) (of_nat i)" and ?a = "frame0 g + 2 * i"
  define m1 where "m1 = set_smp_info_extra_argument ?e (of_nat i) (smp_mem s)"
  have fr: "pmm_wf ((sys s)\<lparr>kmem := m1\<rparr>)" "pmm_free_pages ((sys s)\<lparr>kmem := m1\<rparr>) = {?a..<frame_end g}" "?a + 2 \<le> frame_end g"
    using smp_invD(4) [OF inv] at b room by (simp_all add: frames_ok_def)
  obtain x where x: "pmm_allocz ((sys s)\<lparr>kmem := m1\<rparr>) 2 = Inr (page_addr ?a, x)" "page_addr ?a \<noteq> 0" "pmm_wf x" "pmm_free_pages x = {?a + 2..<frame_end g}"
      "off_pages {?a, ?a + 1} m1 (kmem x)"
      "x = (sys s)\<lparr>kmem := m1\<rparr>\<lparr>kmem := kmem x, pmm_bitmap := pmm_bitmap x, used_pages_count := used_pages_count x\<rparr>"
    using pmm_allocz_pair [OF fr] by auto
  define m3 where "m3 = set_smp_info_target_stack ?e (stack_of g i) (kmem x)"
  let ?t = "s\<lparr>sys := x\<lparr>kmem := m3\<rparr>\<rparr>" and ?u = "goto c (For_Branch i) (s\<lparr>sys := x\<lparr>kmem := m3\<rparr>\<rparr>)"
  have two: "CPU_LOCALS_STACK_SIZE div PAGE_SIZE = 2" by (simp add: CPU_LOCALS_STACK_SIZE_def)
  have prep: "smp_prepare (the_tag g) i s = Inr ?t"
    using x(1,2) by (simp add: smp_prepare_def Let_def two m1_def m3_def assert_impl_def stack_of_def)
  have "off_pages {frame0 g..<frame_end g} m1 (kmem x)" using x(5) fr(3) by (auto intro: off_pages_mono)
  note v2 = off_views [OF ap off this]
  obtain d y z w where ev: "entry_view (smp_mem s) (the_tag g) i = (d, y, z, w)" by (cases "entry_view (smp_mem s) (the_tag g) i")
  note v1 = set_entry_views [OF ap b(2) ev, of m1 "of_nat i" "(d, y, z, of_nat i)"]
  have m1: "head_view m1 (the_tag g) = head_view (smp_mem s) (the_tag g)" "\<And>j. j < ncpu g \<Longrightarrow> local_view m1 (the_locals g) j = local_view (smp_mem s) (the_locals g) j"
      "\<And>j. j < ncpu g \<Longrightarrow> entry_view m1 (the_tag g) j = (if j = i then (d, y, z, of_nat i) else entry_view (smp_mem s) (the_tag g) j)"
    using v1 by (simp_all add: m1_def)
  have ex: "entry_view (kmem x) (the_tag g) i = (d, y, z, of_nat i)" using v2(2) [OF b(2)] m1(3) [OF b(2)] by simp
  note v3 = set_entry_views [OF ap b(2) ex, of m3 "stack_of g i" "(d, stack_of g i, z, of_nat i)"]
  have m3: "head_view m3 (the_tag g) = head_view (smp_mem s) (the_tag g)" "\<And>j. j < ncpu g \<Longrightarrow> local_view m3 (the_locals g) j = local_view (smp_mem s) (the_locals g) j"
      "\<And>j. j < ncpu g \<Longrightarrow> entry_view m3 (the_tag g) j = (if j = i then (d, stack_of g i, z, of_nat i) else entry_view (smp_mem s) (the_tag g) j)"
    using v3 v2 m1 by (simp_all add: m3_def)
  have "smp_inv g ?u"
  proof (rule smp_inv_step [OF inv c, of ?u "For_Branch i"])
    have xs: "root_page_table x = root_page_table (sys s)" "lapic_address x = lapic_address (sys s)"
      using arg_cong [OF x(6), of root_page_table] arg_cong [OF x(6), of lapic_address] by simp_all
    show "setup_kept g ?u" using m3(1,3) ev xs by (intro setup_keptI [OF smp_invD(1) [OF inv]]) auto
    show "entries_set g ?u" using smp_invD(2) [OF inv] m3(3) ev at b by (auto simp: entries_set_def less_Suc_eq)
    show "lock_ok g ?u" using at by (intro lock_ok_same [OF smp_invD(3) [OF inv], of ?u c "For_Branch i"]) simp_all
    show "frames_ok g ?u" using x(3,4) b by (simp add: frames_ok_def)
    show "cpu_up g ?u c" using smp_invD(5) [OF inv c] at m3(2) [OF c] by (simp add: cpu_up_def Let_def)
  qed (use at b m3(2) in simp_all)
  then show ?thesis using prep by blast
qed

lemma inv_branch_self:
  assumes inv: "smp_inv g s" and c: "c < ncpu g" and at: "pcs s c = For_Branch (bsp g)"
  shows "smp_inv g (goto c (Local_Fill Bsp_Init (bsp g)) s)"
proof -
  let ?u = "goto c (Local_Fill Bsp_Init (bsp g)) s"
  have b: "c = bsp g" using at point_at [OF inv c] by (auto split: if_splits)
  show ?thesis
  proof (rule smp_inv_step [OF inv c, of ?u "Local_Fill Bsp_Init (bsp g)"])
    show "setup_kept g ?u" using smp_invD(1) [OF inv] by (simp add: setup_kept_def)
    show "entries_set g ?u" using smp_invD(2) [OF inv] at b by (auto simp: entries_set_def less_Suc_eq)
    show "lock_ok g ?u" using at by (intro lock_ok_same [OF smp_invD(3) [OF inv], of ?u c "Local_Fill Bsp_Init (bsp g)"]) simp_all
    show "frames_ok g ?u" using at by (intro frames_ok_same [OF smp_invD(4) [OF inv], of ?u c "Local_Fill Bsp_Init (bsp g)"]) simp_all
    show "cpu_up g ?u c" using b by (simp add: cpu_up_def Let_def)
  qed (use at b in simp_all)
qed

lemma inv_branch_start:
  assumes ok: "setup_ok g" and inv: "smp_inv g s" and c: "c < ncpu g" and at: "pcs s c = For_Branch i" and i: "i \<noteq> bsp g"
  shows "smp_inv g (goto c (Release Bsp_Init i)
    (s\<lparr>sys := (sys s)\<lparr>kmem := set_smp_info_goto_address (smp_info_at (the_tag g) (of_nat i)) (ap_addr g) (smp_mem s)\<rparr>\<rparr>))"
proof -
  let ?m = "set_smp_info_goto_address (smp_info_at (the_tag g) (of_nat i)) (ap_addr g) (smp_mem s)"
  let ?u = "goto c (Release Bsp_Init i) (s\<lparr>sys := (sys s)\<lparr>kmem := ?m\<rparr>\<rparr>)"
  have b: "c = bsp g" "i < ncpu g" using at point_at [OF inv c] by (auto split: if_splits)
  have ap: "smp_apart (the_tag g) (the_locals g) (ncpu g)" using ok by (simp add: setup_ok_def)
  obtain d y z w where ev: "entry_view (smp_mem s) (the_tag g) i = (d, y, z, w)" by (cases "entry_view (smp_mem s) (the_tag g) i")
  note v = set_entry_views [OF ap b(2) ev, of ?m "ap_addr g" "(d, y, ap_addr g, w)"]
  show ?thesis
  proof (rule smp_inv_step [OF inv c, of ?u "Release Bsp_Init i"])
    show "setup_kept g ?u" using v(1,3) ev by (intro setup_keptI [OF smp_invD(1) [OF inv]]) auto
    show "entries_set g ?u" unfolding entries_set_def
    proof (intro allI impI)
      fix k assume k: "k < ncpu g"
      then have "case entry_view (smp_mem s) (the_tag g) k of (_, stack, goto_address, arg) \<Rightarrow>
         (k < Suc i \<longrightarrow> arg = of_nat k \<and> stack = stack_of g k) \<and> goto_address = (if k < i \<and> k \<noteq> bsp g then ap_addr g else 0)
         \<and> (k \<noteq> bsp g \<longrightarrow> pcs s k \<noteq> Parked \<longrightarrow> k < i)"
        using smp_invD(2) [OF inv] at b by (simp add: entries_set_def)
      then show "case entry_view (smp_mem ?u) (the_tag g) k of (_, stack, goto_address, arg) \<Rightarrow>
         (k < prepared (ncpu g) (pcs ?u (bsp g)) \<longrightarrow> arg = of_nat k \<and> stack = stack_of g k)
         \<and> goto_address = (if k < passed (ncpu g) (pcs ?u (bsp g)) \<and> k \<noteq> bsp g then ap_addr g else 0)
         \<and> (k \<noteq> bsp g \<longrightarrow> pcs ?u k \<noteq> Parked \<longrightarrow> k < passed (ncpu g) (pcs ?u (bsp g)))"
        using v(3) [OF _ k] ev b i by (cases "k = i") (auto simp: less_Suc_eq split: prod.splits)
    qed
    show "lock_ok g ?u" using at by (intro lock_ok_same [OF smp_invD(3) [OF inv], of ?u c "Release Bsp_Init i"]) simp_all
    show "frames_ok g ?u" using at by (intro frames_ok_same [OF smp_invD(4) [OF inv], of ?u c "Release Bsp_Init i"]) simp_all
    show "cpu_up g ?u c" using smp_invD(5) [OF inv c] at v(2) [OF _ c] i by (auto simp: cpu_up_def Let_def split: if_splits)
  qed (use at b i v(2) in auto)
qed

lemma head_fields:
  assumes "smp_inv g s"
  shows "smp_tag_cpu_count (smp_mem s) (the_tag g) = of_nat (ncpu g)" "smp_tag_bsp_lapic_id (smp_mem s) (the_tag g) = lapic_ids g (bsp g)"
    and "i < ncpu g \<Longrightarrow> smp_info_lapic_id (smp_mem s) (smp_info_at (the_tag g) (of_nat i)) = lapic_ids g i"
  using smp_invD(1) [OF assms] by (auto simp: setup_kept_def head_view_def entry_view_def Let_def)

lemma goto_field:
  assumes "smp_inv g s" "i < ncpu g"
  shows "smp_info_goto_address (smp_mem s) (smp_info_at (the_tag g) (of_nat i))
    = (if i < passed (ncpu g) (pcs s (bsp g)) \<and> i \<noteq> bsp g then ap_addr g else 0)"
  using smp_invD(2) [OF assms(1)] assms(2) by (auto simp: entries_set_def entry_view_def Let_def)

text \<open>Every step keeps the invariant and none fails.\<close>

lemma smp_instr_inv:
  assumes ok: "setup_ok g" and inv: "smp_inv g s" and c: "c < ncpu g"
  shows "\<exists>t. smp_instr dev (the_tag g) (ap_addr g) c (pcs s c) s = Inr t \<and> smp_inv g t"
proof -
  have n32: "ncpu g < 2 ^ 32" using ok by (simp add: setup_ok_def)
  note point = point_at [OF inv c]
  show ?thesis
  proof (cases "pcs s c")
    case (For_Head i)
    have "(of_nat i :: u64) < of_nat (ncpu g) \<longleftrightarrow> i < ncpu g" using For_Head point n32 by (auto simp: word_less_nat_alt unat_of_nat split: if_splits)
    moreover have "smp_inv g (goto c (if i < ncpu g then For_Acquire i else Wait_Online) s)"
      using For_Head point ok by (intro inv_goto [OF inv c]) (auto simp: setup_ok_def split: if_splits)
    ultimately show ?thesis using For_Head by (simp add: head_fields [OF inv])
  next
    case (For_Branch i)
    have i: "i < ncpu g" "lapic_ids g i = lapic_ids g (bsp g) \<longleftrightarrow> i = bsp g" using For_Branch point ok by (auto simp: setup_ok_def split: if_splits)
    then show ?thesis using For_Branch inv_branch_self [OF inv c] inv_branch_start [OF ok inv c For_Branch]
      by (cases "i = bsp g") (simp_all add: head_fields [OF inv])
  next
    case Parked
    have p: "c \<noteq> bsp g" using Parked point by (auto split: if_splits)
    show ?thesis
    proof (cases "c < passed (ncpu g) (pcs s (bsp g))")
      case True
      then have "smp_inv g (goto c (Ap_Acquire c) s)" by (rule inv_unpark [OF inv c Parked p])
      then show ?thesis using True Parked inv p ok by (simp add: goto_field [OF inv c] setup_ok_def)
    qed (use Parked inv in \<open>simp add: goto_field [OF inv c]\<close>)
  next
    case Wait_Online
    then have "smp_inv g (goto c Returned s)" using point by (intro inv_goto [OF inv c]) (simp_all split: if_splits)
    then show ?thesis using inv Wait_Online by simp
  next
    case Ap_Sti
    then show ?thesis using inv_sti [OF inv c Ap_Sti] by simp
  next
    case (Local_Fill caller i)
    then show ?thesis using inv_fill [OF ok inv c Local_Fill] by (simp split: prod.splits)
  qed (use inv inv_prepare [OF ok inv c] inv_acquire [OF inv c] inv_release [OF inv c] inv_tables [OF inv c] inv_load [OF inv c] inv_sse [OF inv c]
      inv_lapic [OF inv c] inv_count [OF inv c] inv_create [OF inv c] in \<open>fastforce\<close>)+
qed

section \<open>Runs\<close>

definition smp_ready :: "smp_setup \<Rightarrow> smp_state \<Rightarrow> bool" where
  "smp_ready g s \<longleftrightarrow> setup_ok g \<and> setup_kept g s \<and> pcs s (bsp g) = For_Head 0 \<and> (\<forall>c<ncpu g. c \<noteq> bsp g \<longrightarrow> pcs s c = Parked)
     \<and> (\<forall>i<ncpu g. smp_info_goto_address (smp_mem s) (smp_info_at (the_tag g) (of_nat i)) = 0)
     \<and> lock (smp_lock s) = 0 \<and> cpus_online s = 0 \<and> pmm_wf (sys s) \<and> pmm_free_pages (sys s) = {frame0 g..<frame_end g}"

lemma smp_ready_inv: "smp_ready g s \<Longrightarrow> smp_inv g s"
proof -
  assume r: "smp_ready g s"
  have st: "stage (bsp g) (pcs s c) = 0 \<and> \<not> holds_smp (pcs s c)" if "c < ncpu g" for c
    using r that by (cases "c = bsp g") (auto simp: smp_ready_def)
  then have "{c. c < ncpu g \<and> stage (bsp g) (pcs s c) = 8} = {}" by auto
  then have none: "card {c. c < ncpu g \<and> stage (bsp g) (pcs s c) = 8} = 0" by (simp only: card.empty)
  have "cpus_online s = 0" using r by (simp add: smp_ready_def)
  then have "cpus_online s = of_nat (card {c. c < ncpu g \<and> stage (bsp g) (pcs s c) = 8})" unfolding none by simp
  moreover have "cpu_up g s c" if "c < ncpu g" for c using st [OF that] by (simp add: cpu_up_def Let_def)
  moreover have "lock_ok g s" using r st by (auto simp: lock_ok_def smp_ready_def holders_smp_def exclusive_def)
  moreover have "entries_set g s" using r by (auto simp: smp_ready_def entries_set_def entry_view_def Let_def)
  ultimately show ?thesis using r by (auto simp: smp_ready_def smp_inv_def frames_ok_def)
qed

lemma smp_reach_inv:
  assumes "smp_reach dev (the_tag g) (ap_addr g) (ncpu g) s r" "setup_ok g" "smp_inv g s"
  shows "\<exists>t. r = Inr t \<and> smp_inv g t"
  using assms
proof (induction rule: smp_reach.induct)
  case (step s t u)
  then obtain c where c: "c < ncpu g" "u = smp_instr dev (the_tag g) (ap_addr g) c (pcs t c) t" by (auto elim: smp_stepE)
  show ?case using smp_instr_inv [OF step.prems(1) _ c(1)] step.IH [OF step.prems] c(2) by auto
qed simp

lemmas instr_defs = smp_acquire_def smp_release_def local_fill_def smp_prepare_def ap_tables_def on_sys_def on_tables_def on_tss_load_def Let_def

lemma smp_instr_others:
  assumes "smp_instr dev tag ap c pc s = Inr t" "d \<noteq> c"
  shows "pcs t d = pcs s d"
  using assms by (cases pc) (auto simp: instr_defs rbind_eq_Inr split: option.splits prod.splits if_splits)

lemma smp_instr_stage_8:
  assumes ok: "setup_ok g" and inv: "smp_inv g s" and c: "c < ncpu g"
    and t: "smp_instr dev (the_tag g) (ap_addr g) c (pcs s c) s = Inr t" "stage (bsp g) (pcs s c) = 8"
  shows "stage (bsp g) (pcs t c) = 8"
proof (cases "\<exists>i. pcs s c = For_Branch i")
  case True
  then obtain i where i: "pcs s c = For_Branch i" by blast
  then have "bsp g < i" "i < ncpu g" using t(2) point_at [OF inv c] by (auto split: if_splits)
  then show ?thesis using t(1) i ok by (auto simp: head_fields [OF inv] setup_ok_def Let_def split: if_splits)
next
  case False
  then show ?thesis using t
    by (cases "pcs s c") (auto simp: instr_defs rbind_eq_Inr split: option.splits prod.splits if_splits smp_caller.splits)
qed

text \<open>Once \<open>smp_init\<close> has returned every processor has been counted.\<close>

lemma online_all:
  assumes "setup_ok g" "smp_inv g s" "ucast (cpus_online s) = (of_nat (ncpu g) :: u64)" "c < ncpu g"
  shows "stage (bsp g) (pcs s c) = 8"
proof -
  let ?A = "{c. c < ncpu g \<and> stage (bsp g) (pcs s c) = 8}"
  have sub: "?A \<subseteq> {..<ncpu g}" by auto
  then have le: "card ?A \<le> ncpu g" using card_mono [OF _ sub] by simp
  have n: "ncpu g < 2 ^ 32" using assms(1) by (simp add: setup_ok_def)
  have "unat (ucast (cpus_online s) :: u64) = ncpu g" using assms(3) n by (simp add: unat_of_nat)
  moreover have "unat (ucast (cpus_online s) :: u64) = unat (cpus_online s)" by (simp add: unsigned_ucast_eq take_bit_nat_eq_self_iff less_le_trans [OF unsigned_less])
  moreover have "unat (cpus_online s) = card ?A" using smp_invD(8) [OF assms(2)] le n by (simp add: unat_of_nat)
  ultimately have "?A = {..<ncpu g}" using card_subset_eq [OF _ sub] by simp
  then show ?thesis using assms(4) by blast
qed

lemma returned_all:
  assumes "smp_reach dev (the_tag g) (ap_addr g) (ncpu g) s (Inr t)" "setup_ok g" "smp_inv g s" "pcs s (bsp g) \<noteq> Returned" "pcs t (bsp g) = Returned"
  shows "\<forall>c<ncpu g. stage (bsp g) (pcs t c) = 8"
  using assms
proof (induction s "Inr t :: smp_state result" arbitrary: t rule: smp_reach.induct)
  case (step s t u)
  obtain c where c: "c < ncpu g" "smp_instr dev (the_tag g) (ap_addr g) c (pcs t c) t = Inr u" using step.hyps(3) by (auto elim: smp_stepE)
  have inv: "smp_inv g t" using smp_reach_inv [OF step.hyps(1) step.prems(1,2)] by auto
  note keep = smp_instr_stage_8 [OF step.prems(1) inv c] and rest = smp_instr_others [OF c(2)]
  have "\<forall>d<ncpu g. stage (bsp g) (pcs t d) = 8"
  proof (cases "pcs t (bsp g) = Returned")
    case True
    then show ?thesis using step by blast
  next
    case False
    then have b: "c = bsp g" using rest step.prems(4) by (cases "c = bsp g") auto
    have "pcs t c = Wait_Online \<and> ucast (cpus_online t) = (of_nat (ncpu g) :: u64)"
      using c(2) step.prems(4) False point_at [OF inv c(1)] unfolding b
      by (cases "pcs t (bsp g)") (auto simp: instr_defs rbind_eq_Inr head_fields [OF inv] split: option.splits prod.splits if_splits smp_caller.splits)
    then show ?thesis using online_all [OF step.prems(1) inv] by blast
  qed
  then show ?case using keep rest by metis
qed simp

section \<open>Progress\<close>

text \<open>How many steps of a processor are left.\<close>

fun steps_left :: "nat \<Rightarrow> smp_pc \<Rightarrow> nat" where
  "steps_left n (For_Head i) = 12 * (n - i) + 2"
| "steps_left n (For_Acquire i) = 12 * (n - i) + 1"
| "steps_left n (For_Prepare i) = 12 * (n - i)"
| "steps_left n (For_Branch i) = 12 * (n - i) - 1"
| "steps_left n (Local_Fill caller i) = (if caller = Ap_Init then 10 else 12 * (n - i) - 2)"
| "steps_left n (Local_Create caller i x) = (if caller = Ap_Init then 9 else 12 * (n - i) - 3)"
| "steps_left n (Local_Load caller i) = (if caller = Ap_Init then 8 else 12 * (n - i) - 4)"
| "steps_left n (Local_Sse caller i) = (if caller = Ap_Init then 7 else 12 * (n - i) - 5)"
| "steps_left n (Count caller i) = (if caller = Ap_Init then 5 else 12 * (n - i) - 6)"
| "steps_left n (Release caller i) = (if caller = Ap_Init then 4 else 12 * (n - i) - 7)"
| "steps_left n Wait_Online = 1"
| "steps_left n Returned = 0"
| "steps_left n Parked = 13"
| "steps_left n (Ap_Acquire i) = 12"
| "steps_left n (Ap_Tables i) = 11"
| "steps_left n (Ap_Lapic i) = 6"
| "steps_left n Ap_Sti = 3"
| "steps_left n Ap_Hlt = 2"

definition all_left :: "smp_setup \<Rightarrow> smp_state \<Rightarrow> nat" where
  "all_left g s = (\<Sum>c<ncpu g. steps_left (ncpu g) (pcs s c))"

lemma all_left_less:
  assumes "c < ncpu g" "\<And>d. d \<noteq> c \<Longrightarrow> pcs t d = pcs s d" "steps_left (ncpu g) (pcs t c) < steps_left (ncpu g) (pcs s c)"
  shows "all_left g t < all_left g s"
  unfolding all_left_def
proof (rule sum_strict_mono_ex1)
  show "\<forall>d\<in>{..<ncpu g}. steps_left (ncpu g) (pcs t d) \<le> steps_left (ncpu g) (pcs s d)"
    using assms(2,3) by (metis less_or_eq_imp_le order_refl)
  show "\<exists>d\<in>{..<ncpu g}. steps_left (ncpu g) (pcs t d) < steps_left (ncpu g) (pcs s d)" using assms(1,3) by blast
qed simp

text \<open>The processor that holds the lock always moves on.\<close>

lemma holder_moves:
  assumes inv: "smp_inv g s" and c: "c < ncpu g" "holds_smp (pcs s c)" and t: "smp_instr dev (the_tag g) (ap_addr g) c (pcs s c) s = Inr t"
  shows "steps_left (ncpu g) (pcs t c) < steps_left (ncpu g) (pcs s c)"
  using c(2) t point_at [OF inv c(1)] c(1)
  by (cases "pcs s c") (auto simp: instr_defs rbind_eq_Inr split: option.splits prod.splits if_splits smp_caller.splits)

lemma smp_progress:
  assumes ok: "setup_ok g" and inv: "smp_inv g s" and "pcs s (bsp g) \<noteq> Returned"
  shows "\<exists>c<ncpu g. \<exists>t. smp_instr dev (the_tag g) (ap_addr g) c (pcs s c) s = Inr t \<and> smp_inv g t \<and> all_left g t < all_left g s"
proof -
  have b: "bsp g < ncpu g" using ok by (simp add: setup_ok_def)
  have go: ?thesis if mv: "c < ncpu g" "\<And>t. smp_instr dev (the_tag g) (ap_addr g) c (pcs s c) s = Inr t \<Longrightarrow> steps_left (ncpu g) (pcs t c) < steps_left (ncpu g) (pcs s c)" for c
  proof -
    obtain t where t: "smp_instr dev (the_tag g) (ap_addr g) c (pcs s c) s = Inr t" "smp_inv g t" using smp_instr_inv [OF ok inv mv(1)] by blast
    then show ?thesis using all_left_less [OF mv(1) smp_instr_others [OF t(1)] mv(2) [OF t(1)]] mv(1) by blast
  qed
  show ?thesis
  proof (cases "\<exists>c<ncpu g. holds_smp (pcs s c)")
    case True
    then show ?thesis using go holder_moves [OF inv] by blast
  next
    case False
    then have free: "lock (smp_lock s) = 0" using smp_invD(3) [OF inv] by (auto simp: lock_ok_def holders_smp_def exclusive_def split: if_splits)
    note acq = spinlock_acquire_free [OF free]
    have bp: "bsp_point (ncpu g) (bsp g) (pcs s (bsp g))" "\<not> holds_smp (pcs s (bsp g))" using smp_invD(6) [OF inv b] False b by auto
    then consider i where "pcs s (bsp g) = For_Head i" | i where "pcs s (bsp g) = For_Acquire i" | "pcs s (bsp g) = Wait_Online"
      using assms(3) by (cases "pcs s (bsp g)") auto
    then show ?thesis
    proof cases
      case (1 i)
      then show ?thesis by (intro go [OF b]) (auto simp: head_fields [OF inv])
    next
      case (2 i)
      then show ?thesis by (intro go [OF b]) (auto simp: smp_acquire_def acq)
    next
      case 3
      show ?thesis
      proof (cases "\<forall>c<ncpu g. stage (bsp g) (pcs s c) = 8")
        case True
        then have "{c. c < ncpu g \<and> stage (bsp g) (pcs s c) = 8} = {..<ncpu g}" by auto
        then have "cpus_online s = of_nat (ncpu g)" using smp_invD(8) [OF inv] by simp
        then have "ucast (cpus_online s) = (of_nat (ncpu g) :: u64)" using ok by (simp add: setup_ok_def unsigned_of_nat take_bit_nat_eq_self)
        then show ?thesis using 3 by (intro go [OF b]) (auto simp: head_fields [OF inv])
      next
        case False': False
        then obtain c where c: "c < ncpu g" "stage (bsp g) (pcs s c) \<noteq> 8" by blast
        then have "c \<noteq> bsp g" using 3 by auto
        then have "pcs s c = Parked \<or> pcs s c = Ap_Acquire c"
          using c smp_invD(7) [OF inv c(1)] False by (cases "pcs s c") auto
        then show ?thesis
          using 3 c \<open>c \<noteq> bsp g\<close> ok by (intro go [OF c(1)]) (auto simp: goto_field [OF inv c(1)] smp_acquire_def acq setup_ok_def)
      qed
    qed
  qed
qed

lemma smp_reach_trans:
  assumes "smp_reach dev tag ap n t r" "smp_reach dev tag ap n s (Inr t)"
  shows "smp_reach dev tag ap n s r"
  using assms by (induction rule: smp_reach.induct) (auto intro: smp_reach.step)

lemma smp_terminates:
  assumes "setup_ok g" "smp_inv g s"
  shows "\<exists>t. smp_reach dev (the_tag g) (ap_addr g) (ncpu g) s (Inr t) \<and> pcs t (bsp g) = Returned"
  using assms(2)
proof (induction "all_left g s" arbitrary: s rule: less_induct)
  case less
  show ?case
  proof (cases "pcs s (bsp g) = Returned")
    case True
    then show ?thesis using smp_reach.start by blast
  next
    case False
    from smp_progress [OF assms(1) less.prems this] obtain c t where c: "c < ncpu g"
      "smp_instr dev (the_tag g) (ap_addr g) c (pcs s c) s = Inr t" "smp_inv g t" "all_left g t < all_left g s" by blast
    then have "smp_reach dev (the_tag g) (ap_addr g) (ncpu g) s (Inr t)"
      using smp_step.intros [OF c(1), of dev "the_tag g" "ap_addr g" s] by (metis smp_reach.intros)
    then show ?thesis using less.hyps [OF c(4,3)] smp_reach_trans by blast
  qed
qed

section \<open>Properties\<close>

lemma tss_of_inj:
  assumes "setup_ok g"
  shows "inj_on (tss_of g) {..<ncpu g}"
proof (rule inj_onI)
  fix c d assume c: "c \<in> {..<ncpu g}" "d \<in> {..<ncpu g}" "tss_of g c = tss_of g d"
  have n: "ncpu g < 2 ^ 32" using assms by (simp add: setup_ok_def)
  have "(of_nat (120 * c) :: u64) = of_nat (120 * d)" using c(3) by (simp add: tss_of_def cpu_local_tss_def cpu_local_at_def)
  then have "unat (of_nat (120 * c) :: u64) = unat (of_nat (120 * d) :: u64)" by (simp only:)
  then show "c = d" using c(1,2) n by (simp add: unat_of_nat take_bit_nat_eq_self del: of_nat_mult)
qed

lemma smp_reach_up:
  assumes "smp_ready g s" and "smp_reach dev (the_tag g) (ap_addr g) (ncpu g) s r"
  shows "\<exists>t. r = Inr t \<and> (\<forall>c<ncpu g. \<forall>d<ncpu g. holds_smp (pcs t c) \<longrightarrow> holds_smp (pcs t d) \<longrightarrow> c = d)
    \<and> inj_on (tss_of g) {..<ncpu g}
    \<and> (pcs t (bsp g) = Returned \<longrightarrow> cpus_online t = of_nat (ncpu g) \<and> (\<forall>c<ncpu g.
         reg_tr (cpus t c) = 0x28 \<and> reg_tss_base (cpus t c) = tss_of g c
         \<and> local_view (smp_mem t) (the_locals g) c = (of_nat c, lapic_ids g c, stack_of g c) \<and> sse_on (cpus t c)
         \<and> (c \<noteq> bsp g \<longrightarrow> tables_loaded g (cpus t c) \<and> lapic_on g (cpus t c))))"
proof -
  have ok: "setup_ok g" and start: "pcs s (bsp g) \<noteq> Returned" using assms(1) by (simp_all add: smp_ready_def)
  note inv = smp_ready_inv [OF assms(1)]
  obtain t where t: "r = Inr t" "smp_inv g t" using smp_reach_inv [OF assms(2) ok inv] by blast
  have "cpus_online t = of_nat (ncpu g) \<and> (\<forall>c<ncpu g. stage (bsp g) (pcs t c) = 8)" if ret: "pcs t (bsp g) = Returned"
  proof -
    have all: "\<forall>c<ncpu g. stage (bsp g) (pcs t c) = 8" using returned_all [OF _ ok inv start ret] assms(2) t(1) by blast
    then have "{c. c < ncpu g \<and> stage (bsp g) (pcs t c) = 8} = {..<ncpu g}" by auto
    then show ?thesis using smp_invD(8) [OF t(2)] all by simp
  qed
  moreover have "reg_tr (cpus t c) = 0x28 \<and> reg_tss_base (cpus t c) = tss_of g c
         \<and> local_view (smp_mem t) (the_locals g) c = (of_nat c, lapic_ids g c, stack_of g c) \<and> sse_on (cpus t c)
         \<and> (c \<noteq> bsp g \<longrightarrow> tables_loaded g (cpus t c) \<and> lapic_on g (cpus t c))" if "c < ncpu g" "stage (bsp g) (pcs t c) = 8" for c
    using smp_invD(5) [OF t(2) that(1)] that(2) by (simp add: cpu_up_def Let_def)
  ultimately show ?thesis using t(1) holder_unique(2) [OF smp_invD(3) [OF t(2)]] tss_of_inj [OF ok] by blast
qed

text \<open>C8. When the free frames form one interval (\<open>pmm_alloc\<close> checks only the first of the pages it hands out for
  a stack), then however the processors interleave, no run of \<open>smp_init\<close> and \<open>ap_init\<close> fails, at most one processor is
  in the code under \<open>smp_lock\<close>, and when \<open>smp_init\<close> returns every processor is up: its task register
  has the base of its own task state segment, although all processors load it through one shared
  descriptor; that segment has the stack made for the processor; its vector unit is on; and each of the other
  processors runs on the kernel's page tables, page attributes and descriptor tables with its local APIC on.\<close>

theorem smp_processors_up:
  assumes "smp_ready g s" and "smp_reach dev (the_tag g) (ap_addr g) (ncpu g) s r"
  shows "\<exists>t. r = Inr t \<and> (\<forall>c<ncpu g. \<forall>d<ncpu g. holds_smp (pcs t c) \<longrightarrow> holds_smp (pcs t d) \<longrightarrow> c = d)
    \<and> inj_on (tss_of g) {..<ncpu g}
    \<and> (pcs t (bsp g) = Returned \<longrightarrow> cpus_online t = of_nat (ncpu g) \<and> (\<forall>c<ncpu g.
         reg_tr (cpus t c) = 0x28 \<and> reg_tss_base (cpus t c) = tss_of g c
         \<and> local_view (smp_mem t) (the_locals g) c = (of_nat c, lapic_ids g c, stack_of g c) \<and> sse_on (cpus t c)
         \<and> (c \<noteq> bsp g \<longrightarrow> tables_loaded g (cpus t c) \<and> lapic_on g (cpus t c))))"
  by (rule smp_reach_up [OF assms])

text \<open>The start of the processors never gets stuck: from every state of every run there is a
  continuation in which \<open>smp_init\<close> returns.\<close>

lemma smp_init_can_return:
  assumes "smp_ready g s" and "smp_reach dev (the_tag g) (ap_addr g) (ncpu g) s (Inr t)"
  shows "\<exists>u. smp_reach dev (the_tag g) (ap_addr g) (ncpu g) t (Inr u) \<and> pcs u (bsp g) = Returned"
proof -
  have ok: "setup_ok g" using assms(1) by (simp add: smp_ready_def)
  have "smp_inv g t" using smp_reach_inv [OF assms(2) ok smp_ready_inv [OF assms(1)]] by simp
  then show ?thesis by (rule smp_terminates [OF ok])
qed

text \<open>Two processors, with the tag and the array in page 1.\<close>

definition example_setup :: smp_setup where
  "example_setup = \<lparr>the_tag = 0x1000, the_locals = 0x1800, ncpu = 2, bsp = 0, frame0 = 2, frame_end = 0x1000000, ap_addr = 0xFFFFFFFF80002000,
     lapic_ids = (\<lambda>i. of_nat i), the_root = PHYS_TO_HIGHER_HALF_DATA (page_addr 1), the_gdtr = gdtr example_tables, the_idtr = idtr example_tables,
     the_lapic = 0xFEE00000\<rparr>"

definition example_smp_memory :: memory where
  "example_smp_memory = store32 (store64 (\<lambda>_. 0) 0x1020 2) 0x104C 1"

definition example_smp_sys :: apic_state where
  "example_smp_sys = (acpi_state.extend (heap_state.extend example_heap_machine (acpi_state.fields 0 False 0 0 0 0 0 0 0 0 0 0 0))
     (apic_state.fields 0xFEE00000 0 0 0 [] []))\<lparr>kmem := example_smp_memory\<rparr>"

definition example_smp :: smp_state where
  "example_smp = \<lparr>sys = example_smp_sys, tables = example_tables,
     cpus = (\<lambda>_. smp_cpu.make 0x80000011 0 0x20 (\<lambda>_. 0) (gdtr example_tables) (idtr example_tables) 0 0 0 0 False []),
     pcs = (\<lambda>c. if c = 0 then For_Head 0 else Parked), smp_lock = \<lparr>lock = 0, interrupts = False\<rparr>, cpu_locals = 0x1800, cpus_online = 0\<rparr>"

lemma example_smp_apart: "smp_apart 0x1000 0x1800 2"
  using low_region_place [of "0x1000" 104] low_region_place [of "0x1800" 240] by (simp add: smp_apart_def kaddr_low separate_def)

lemma example_smp_views:
  shows "head_view example_smp_memory 0x1000 = (2, 0)"
    and "i < 2 \<Longrightarrow> entry_view example_smp_memory 0x1000 i = (of_nat i, 0, 0, 0)"
proof -
  show "head_view example_smp_memory 0x1000 = (2, 0)"
    unfolding head_view_eq [OF example_smp_apart]
    by (simp add: example_smp_memory_def kaddr_low access_defs load_store_same load_store_separate separate_def load_word_zero)
  assume "i < 2"
  then consider "i = 0" | "i = 1" by linarith
  then show "entry_view example_smp_memory 0x1000 i = (of_nat i, 0, 0, 0)"
    unfolding entry_view_eq [OF example_smp_apart \<open>i < 2\<close>]
    by cases (simp_all add: example_smp_memory_def kaddr_low access_defs load_store_same load_store_separate separate_def load_word_zero)
qed

lemma example_smp_ready: "smp_ready example_setup example_smp"
proof -
  have ok: "setup_ok example_setup"
    using example_smp_apart low_region_off [of "0x1000" 104] low_region_off [of "0x1800" 240]
    by (auto simp: setup_ok_def example_setup_def less_2_cases_iff)
  have mem: "smp_mem example_smp = example_smp_memory" by (simp add: example_smp_def example_smp_sys_def)
  have kept: "setup_kept example_setup example_smp"
    by (simp add: setup_kept_def mem, simp add: example_smp_def example_setup_def example_smp_sys_def example_heap_machine_def example_machine_def
        example_tables_def example_smp_views vmm_state.defs heap_state.defs acpi_state.defs apic_state.defs)
  have wf: "pmm_wf example_machine" using example_machine_inv by (simp add: vmm_inv_def)
  have free: "pmm_free_pages example_smp_sys = pmm_free_pages example_machine"
    by (simp add: example_smp_sys_def example_heap_machine_def pmm_free_pages_def pmm_pages_def pmm_used_def vmm_state.defs heap_state.defs
        acpi_state.defs apic_state.defs)
  have "pmm_wf example_smp_sys"
    using wf by (simp add: example_smp_sys_def example_heap_machine_def pmm_wf_def pmm_inv_def pmm_counter_ok_def pmm_free_pages_def pmm_pages_def
        pmm_used_def vmm_state.defs heap_state.defs acpi_state.defs apic_state.defs)
  moreover have "smp_info_goto_address example_smp_memory (smp_info_at 0x1000 (of_nat i)) = 0" if "i < 2" for i
    using example_smp_views(2) [OF that] by (simp add: entry_view_def Let_def)
  ultimately show ?thesis using ok kept free mem
    by (simp add: smp_ready_def example_machine_free, simp add: example_smp_def example_setup_def)
qed

theorem smp_processors_up_witness:
  "\<exists>t. smp_reach (\<lambda>_ _. 0) 0x1000 0xFFFFFFFF80002000 2 example_smp (Inr t) \<and> pcs t 0 = Returned \<and> cpus_online t = 2
    \<and> (\<forall>c<2. reg_tss_base (cpus t c) = 0x1810 + 120 * of_nat c)"
proof -
  let ?g = example_setup
  have g: "the_tag ?g = 0x1000" "ap_addr ?g = 0xFFFFFFFF80002000" "ncpu ?g = 2" "bsp ?g = 0" "tss_of ?g c = 0x1810 + 120 * of_nat c" for c
    by (simp_all add: example_setup_def tss_of_def cpu_local_tss_def cpu_local_at_def)
  have "setup_ok ?g" using example_smp_ready by (simp add: smp_ready_def)
  from smp_terminates [OF this smp_ready_inv [OF example_smp_ready]]
  obtain t where t: "smp_reach (\<lambda>_ _. 0) (the_tag ?g) (ap_addr ?g) (ncpu ?g) example_smp (Inr t)" "pcs t (bsp ?g) = Returned" by blast
  from smp_processors_up [OF example_smp_ready t(1)] t show ?thesis by (auto simp: g)
qed

end
