(* ===== verification/Page_Blocks.thy ===== *)
theory Page_Blocks
  imports Regions
begin

text \<open>
  The other half of \<open>malloc.c\<close>: requests too large for the slab caches take a page of their own from the frame
  allocator, and \<open>free\<close> gives it back.
\<close>

lemma round_alloc_size_page: "512 < unat n \<Longrightarrow> unat n \<le> 4096 \<Longrightarrow> round_alloc_size n = 4096"
proof -
  assume n: "512 < unat n" "unat n \<le> 4096"
  then have "(unat n + 4095) div 4096 = 1" by (simp add: div_nat_eqI)
  then have "unat (ALIGN_UP n PAGE_SIZE) = unat (4096 :: u64)" using n by (simp add: unat_ALIGN_UP)
  then have "ALIGN_UP n PAGE_SIZE = 4096" by (simp only: word_unat_eq_iff)
  then show ?thesis using n by (simp add: round_alloc_size_def word_le_nat_alt)
qed

lemma free_page_bounds:
  assumes "pmm_wf s" "f \<in> pmm_free_pages s"
  shows "f < 2 ^ 31" "0 < f" "f < pmm_pages s"
  using free_pageD [OF _ assms(2)] assms(1) by (auto simp: pmm_wf_def pmm_inv_def)

lemma malloc_page:
  fixes s :: "'a heap_state_scheme"
  assumes wf: "pmm_wf s" and ne: "pmm_free_pages s \<noteq> {}" and n: "510 < unat n" "unat n \<le> 4094"
  defines "f \<equiv> Min (pmm_free_pages s)"
  shows "\<exists>t. malloc s n = Some (Inr (loc f 0 + 2 + HEAP_START_ADDR, t)) \<and> pmm_wf t \<and> pmm_free_pages t = pmm_free_pages s - {f}
    \<and> off_pages {f} (kmem s) (kmem t) \<and> metadata_size (kmem t) (loc f 0) = 1 \<and> (\<forall>x. 2 \<le> x \<longrightarrow> x < 4096 \<longrightarrow> kmem t (loc f x) = 0)
    \<and> pmm_pages t = pmm_pages s
    \<and> t = s\<lparr>kmem := kmem t, pmm_bitmap := pmm_bitmap t, used_pages_count := used_pages_count t\<rparr>"
proof -
  have f: "f \<in> pmm_free_pages s" unfolding f_def using ne by (intro Min_in) simp_all
  note fb = free_page_bounds [OF wf f]
  have "unat (n + 2) = unat n + 2" using n by (simp add: unat_word_ariths)
  then have r: "round_alloc_size (n + 2) = 4096" using n by (intro round_alloc_size_page) simp_all
  obtain b where b: "pmm_alloc s 1 = Inr (page_addr f, s\<lparr>pmm_bitmap := b, used_pages_count := used_pages_count s + 1\<rparr>)"
      "bitmap_cap b = bitmap_cap (pmm_bitmap s)" "bitmap_ones b = insert f (pmm_used s)"
    using pmm_alloc_one [OF wf ne] unfolding f_def by blast
  define t where "t = s\<lparr>pmm_bitmap := b, used_pages_count := used_pages_count s + 1,
    kmem := store16 (memset (kmem s) (page_addr f) 0 4096) (loc f 0) 1\<rparr>"
  note taken = pmm_wf_take [OF wf f b(2,3)]
  have t: "pmm_wf t" "pmm_free_pages t = pmm_free_pages s - {f}" "pmm_pages t = pmm_pages s"
    using taken by (simp_all add: t_def pmm_wf_def pmm_inv_def pmm_counter_ok_def pmm_used_def pmm_free_pages_def pmm_pages_def)
  have "malloc s n = Some (Inr (loc f 0 + 2 + HEAP_START_ADDR, t))"
    unfolding malloc_def sizeof_malloc_metadata_t_def r using b(1) loc_nonzero [OF fb(2,1), of 0]
    by (simp add: pmm_allocz_def t_def page_addr_loc set_metadata_size_def)
  moreover have "off_pages {f} (kmem s) (kmem t)"
    unfolding t_def using fb(1) by (auto intro!: off_pages_intros)
  moreover have "metadata_size (kmem t) (loc f 0) = 1"
    by (simp add: t_def metadata_size_def access_defs load_store_same)
  moreover have "kmem t (loc f x) = 0" if "2 \<le> x" "x < 4096" for x
  proof -
    have "loc f x - loc f 0 = of_nat x" by (simp add: loc_def)
    then show ?thesis using that by (simp add: t_def access_defs store_word_def page_addr_loc memset_closed unat_of_nat)
  qed
  moreover have "t = s\<lparr>kmem := kmem t, pmm_bitmap := pmm_bitmap t, used_pages_count := used_pages_count t\<rparr>" by (simp add: t_def)
  ultimately show ?thesis using t by blast
qed

lemma free_page_block:
  fixes t :: "'a heap_state_scheme"
  assumes "pmm_wf t" "0 < f" "f < pmm_pages t" "f \<notin> pmm_free_pages t" "metadata_size (kmem t) (loc f 0) = 1"
  shows "\<exists>u. free t (loc f 0 + 2 + HEAP_START_ADDR) = Some (Inr u) \<and> pmm_wf u \<and> pmm_free_pages u = insert f (pmm_free_pages t)
    \<and> kmem u = kmem t \<and> slab_caches u = slab_caches t"
proof -
  have inv: "pmm_inv t" using assms(1) by (simp add: pmm_wf_def)
  have f: "f < 2 ^ 31" using inv assms(3) by (simp add: pmm_inv_def)
  have caps: "bitmap_cap (pmm_bitmap t) \<le> 2 ^ 31" "unat (loc f 0) div 4096 + unat (1 :: u64) \<le> bitmap_cap (pmm_bitmap t)"
    using inv assms(3) f by (auto simp: pmm_inv_def unat_loc)
  have used: "f \<in> pmm_used t" using assms(3,4) by (simp add: pmm_free_pages_def)
  obtain b where b: "pmm_free t (loc f 0) 1 = Inr (t\<lparr>pmm_bitmap := b, used_pages_count := used_pages_count t - 1\<rparr>)"
      "bitmap_cap b = bitmap_cap (pmm_bitmap t)" "bitmap_ones b = pmm_used t - {f}"
    using pmm_free_range [OF caps] f by (auto simp: atLeastLessThanSuc unat_loc)
  note given = pmm_wf_give [OF assms(1-3) used b(2,3)]
  have "kaddr (loc f 2 + HEAP_START_ADDR) \<noteq> kaddr 0" using kaddr_heap [OF f, of 2] loc_nonzero [OF assms(2) f, of 2] by (simp add: kaddr_low)
  then have "loc f 2 + HEAP_START_ADDR \<noteq> 0" by metis
  moreover have "loc f 2 = loc f 0 + 2" by (simp add: loc_def)
  ultimately have "free t (loc f 0 + 2 + HEAP_START_ADDR) = Some (pmm_free t (loc f 0) 1)"
    using loc_page_aligned [OF f, of 0] assms(5) by (simp add: free_def sizeof_malloc_metadata_t_def Let_def del: loc_add)
  then show ?thesis using b(1) given by simp
qed

section \<open>Properties\<close>

text \<open>C39. A request of more than 510 and at most 4094 bytes gets a page of its own: the pointer leads to 4094 bytes of
  zeros in a frame that was free, the caches stay as they are, and \<open>free\<close> makes exactly this frame available again.\<close>

theorem malloc_page_roundtrip:
  fixes s :: "'a heap_state_scheme"
  assumes "heap_inv s H" and "\<forall>i<6. pool_pages (H ! i) \<inter> pmm_free_pages s = {}"
    and "pmm_wf s" and "pmm_free_pages s \<noteq> {}" and "510 < unat n" and "unat n \<le> 4094"
  shows "\<exists>f t u. malloc s n = Some (Inr (page_addr f + 2 + HEAP_START_ADDR, t)) \<and> f \<in> pmm_free_pages s \<and> heap_inv t H
    \<and> pmm_wf t \<and> pmm_free_pages t = pmm_free_pages s - {f}
    \<and> (\<forall>x<4094. kmem t (kaddr (page_addr f + 2 + HEAP_START_ADDR + of_nat x)) = 0)
    \<and> free t (page_addr f + 2 + HEAP_START_ADDR) = Some (Inr u) \<and> heap_inv u H \<and> pmm_wf u \<and> pmm_free_pages u = pmm_free_pages s"
proof -
  define f where "f = Min (pmm_free_pages s)"
  have fin: "f \<in> pmm_free_pages s" unfolding f_def using assms(4) by (intro Min_in) simp_all
  note fb = free_page_bounds [OF assms(3) fin]
  obtain t where t: "malloc s n = Some (Inr (loc f 0 + 2 + HEAP_START_ADDR, t))" "pmm_wf t" "pmm_free_pages t = pmm_free_pages s - {f}"
      "off_pages {f} (kmem s) (kmem t)" "metadata_size (kmem t) (loc f 0) = 1" "\<And>x. 2 \<le> x \<Longrightarrow> x < 4096 \<Longrightarrow> kmem t (loc f x) = 0"
      "pmm_pages t = pmm_pages s" "t = s\<lparr>kmem := kmem t, pmm_bitmap := pmm_bitmap t, used_pages_count := used_pages_count t\<rparr>"
    using malloc_page [OF assms(3-6)] unfolding f_def by blast
  have pool: "pool_inv (kmem t) (slab_caches s ! i) (16 * 2 ^ i) (H ! i)" if "i < 6" for i
    using assms(1,2) that fin by (intro pool_inv_off_pages [OF _ t(4)]) (auto simp: heap_inv_def)
  have caches: "slab_caches t = slab_caches s" by (subst t(8)) simp
  obtain u where u: "free t (loc f 0 + 2 + HEAP_START_ADDR) = Some (Inr u)" "pmm_wf u" "pmm_free_pages u = insert f (pmm_free_pages t)"
      "kmem u = kmem t" "slab_caches u = slab_caches t"
    using free_page_block [OF t(2) fb(2) _ _ t(5)] fb(3) t(3,7) by auto
  have "heap_inv t H" "heap_inv u H" using assms(1) pool caches u(4,5) by (simp_all add: heap_inv_def)
  moreover have "kmem t (kaddr (loc f 0 + 2 + HEAP_START_ADDR + of_nat x)) = 0" if "x < 4094" for x
  proof -
    have eq: "loc f 0 + 2 + HEAP_START_ADDR + of_nat x = loc f (2 + x) + HEAP_START_ADDR" by (simp add: loc_def)
    show ?thesis unfolding eq using kaddr_heap [OF fb(1), of "2 + x"] t(6) [of "2 + x"] that by simp
  qed
  moreover have "pmm_free_pages u = pmm_free_pages s" using u(3) t(3) fin by auto
  ultimately show ?thesis using t(1-3) u(1,2) fin unfolding page_addr_loc by blast
qed

theorem malloc_page_roundtrip_witness:
  "\<exists>s f t u. malloc_heap_init (\<lambda>_. 0) example_heap_machine = Inr s \<and> malloc s 1000 = Some (Inr (page_addr f + 2 + HEAP_START_ADDR, t))
    \<and> free t (page_addr f + 2 + HEAP_START_ADDR) = Some (Inr u) \<and> pmm_free_pages u = pmm_free_pages s"
proof -
  obtain s H where s: "malloc_heap_init (\<lambda>_. 0) example_heap_machine = Inr s" "heap_inv s H" "pmm_wf s"
      "\<forall>i<6. pool_pages (H ! i) \<inter> pmm_free_pages s = {}" "card (pmm_free_pages s) + 12 = card (pmm_free_pages example_heap_machine)"
    using example_heap by blast
  have "pmm_free_pages s \<noteq> {}" using s(5) unfolding example_heap_frames(2) by auto
  from malloc_page_roundtrip [OF s(2,4,3) this, of 1000] s(1) show ?thesis by auto
qed

end
