(* ===== verification/SMP_Init.thy ===== *)
theory SMP_Init
  imports SMP_Start Kernel_Boot Page_Blocks
begin

text \<open>
  The whole of \<open>smp_init\<close>: the call on the tag of the bootloader and the heap, then the loop with the
  other processors.
\<close>

section \<open>The array of the processors\<close>

text \<open>
  What \<open>smp_init\<close> is called with: the tag of the bootloader, away from the pages \<open>Y\<close>, with one entry for the calling
  processor \<open>b\<close>, and the other processors waiting.
\<close>

definition smp_called :: "nat \<Rightarrow> nat \<Rightarrow> u64 \<Rightarrow> u64 \<Rightarrow> nat set \<Rightarrow> smp_state \<Rightarrow> bool" where
  "smp_called n b stivale2_struct tag Y s \<longleftrightarrow> b < n \<and> stivale2_get_tag (smp_mem s) stivale2_struct STIVALE2_STRUCT_TAG_SMP_ID = Some tag
     \<and> in_place tag (40 + 32 * n) \<and> region_off tag (40 + 32 * n) Y \<and> smp_tag_cpu_count (smp_mem s) tag = of_nat n
     \<and> (\<forall>i<n. (smp_info_lapic_id (smp_mem s) (smp_info_at tag (of_nat i)) = smp_tag_bsp_lapic_id (smp_mem s) tag) = (i = b)
         \<and> smp_info_goto_address (smp_mem s) (smp_info_at tag (of_nat i)) = 0)
     \<and> (\<forall>c<n. c \<noteq> b \<longrightarrow> pcs s c = Parked) \<and> lock (smp_lock s) = 0 \<and> cpus_online s = 0 \<and> length (entries (gdt (tables s))) = 5"

lemma smp_begin_ready:
  fixes l :: u64
  assumes called: "smp_called n b st tag (X \<union> {f..<z}) s" and bounds: "n < 2 ^ 32" "f + 2 * n \<le> z" "ap \<noteq> 0"
    and malloc: "malloc (sys s) (of_nat n * 120) = Some (Inr (l, x))"
    and x: "x = (sys s)\<lparr>kmem := kmem x, pmm_bitmap := pmm_bitmap x, used_pages_count := used_pages_count x\<rparr>" "pmm_wf x"
      "pmm_free_pages x = {f..<z}" "off_pages X (smp_mem s) (kmem x)"
    and l: "in_place l (120 * n)" "\<And>j. j < 120 * n \<Longrightarrow> unat (kaddr l + of_nat j) div 4096 \<in> X" "X \<inter> {f..<z} = {}"
  shows "\<exists>t g. smp_begin b st s = Some (Inr (tag, t)) \<and> smp_ready g t \<and> the_tag g = tag \<and> ncpu g = n \<and> bsp g = b \<and> ap_addr g = ap
    \<and> (\<forall>c<n. lapic_ids g c = smp_info_lapic_id (smp_mem s) (smp_info_at tag (of_nat c))) \<and> frame0 g = f"
proof -
  have c: "b < n" "stivale2_get_tag (smp_mem s) st STIVALE2_STRUCT_TAG_SMP_ID = Some tag" "in_place tag (40 + 32 * n)"
      "region_off tag (40 + 32 * n) (X \<union> {f..<z})" "smp_tag_cpu_count (smp_mem s) tag = of_nat n"
      "\<And>j. j < n \<Longrightarrow> (smp_info_lapic_id (smp_mem s) (smp_info_at tag (of_nat j)) = smp_tag_bsp_lapic_id (smp_mem s) tag) = (j = b)"
      "\<And>j. j < n \<Longrightarrow> smp_info_goto_address (smp_mem s) (smp_info_at tag (of_nat j)) = 0"
      "\<And>j. j < n \<Longrightarrow> j \<noteq> b \<Longrightarrow> pcs s j = Parked" "lock (smp_lock s) = 0" "cpus_online s = 0" "length (entries (gdt (tables s))) = 5"
    using called unfolding smp_called_def by simp_all
  have apart: "smp_apart tag l n" unfolding smp_apart_def
    using c(1) l(2) by (intro conjI c(3) l(1) pages_separate [OF c(3) l(1) c(4)]) auto
  note views = off_tag_views [OF apart region_off_mono [OF c(4)] x(4), simplified]
  define g where "g = \<lparr>the_tag = tag, the_locals = l, ncpu = n, bsp = b, frame0 = f, frame_end = z, ap_addr = ap,
     lapic_ids = (\<lambda>j. smp_info_lapic_id (smp_mem s) (smp_info_at tag (of_nat j))), the_root = root_page_table (sys s),
     the_gdtr = gdtr (tables s), the_idtr = idtr (tables s), the_lapic = lapic_address (sys s)\<rparr>"
  define t where "t = goto b (For_Head 0) (s\<lparr>sys := x, cpu_locals := l\<rparr>)"
  have id: "smp_tag_bsp_lapic_id (smp_mem s) tag = smp_info_lapic_id (smp_mem s) (smp_info_at tag (of_nat b))" using c(6) [OF c(1)] by simp
  have "region_off l (120 * n) {f..<z}" unfolding region_off_def using l(2,3) by blast
  moreover have "region_off tag (40 + 32 * n) {f..<z}" by (rule region_off_mono [OF c(4)]) simp
  ultimately have ok: "setup_ok g" using apart c(1) bounds c(6) [unfolded id] by (simp add: setup_ok_def g_def)
  have same: "root_page_table x = root_page_table (sys s)" "lapic_address x = lapic_address (sys s)" by (subst x(1), simp)+
  have "setup_kept g t" using views c(5,11) id same
    by (simp add: setup_kept_def g_def t_def head_view_def) (simp add: entry_view_def Let_def)
  moreover have "smp_info_goto_address (kmem x) (smp_info_at tag (of_nat j)) = 0" if "j < n" for j
    using views(2) [OF that] c(7) [OF that] by (simp add: entry_view_def Let_def)
  ultimately have "smp_ready g t" using ok c(8-10) x(2,3) by (simp add: smp_ready_def g_def t_def)
  moreover have "smp_begin b st s = Some (Inr (tag, t))" using malloc c(2,5) by (simp add: smp_begin_def t_def)
  ultimately show ?thesis by (intro exI [of _ t] exI [of _ g]) (simp add: g_def)
qed

text \<open>
  The array of up to four processors is a buffer of a slab cache, that of up to 34 processors a page of its own. \<open>f\<close> is the
  first frame for the stacks.
\<close>

definition array_pages :: "nat \<Rightarrow> pool list \<Rightarrow> nat \<Rightarrow> nat set" where
  "array_pages n H f = (if n \<le> 4 then pool_pages (H ! block_index (120 * n + 2)) else {f - 1})"

definition smp_callable :: "nat \<Rightarrow> nat \<Rightarrow> u64 \<Rightarrow> pool list \<Rightarrow> nat \<Rightarrow> nat \<Rightarrow> u64 \<Rightarrow> smp_state \<Rightarrow> bool" where
  "smp_callable n b stivale2_struct H f z tag s \<longleftrightarrow> smp_called n b stivale2_struct tag (array_pages n H f \<union> {f..<z}) s
     \<and> heap_inv (sys s) H \<and> pmm_wf (sys s) \<and> f + 2 * n \<le> z \<and> n \<le> 34
     \<and> (if n \<le> 4 then pmm_free_pages (sys s) = {f..<z} \<and> array_pages n H f \<inter> {f..<z} = {}
            \<and> pool_alloc (snd (snd (H ! block_index (120 * n + 2)))) \<noteq> None
          else pmm_free_pages (sys s) = {f - 1..<z} \<and> 0 < f)"

lemma smp_array_allocated:
  assumes "smp_callable n b st H f z tag s"
  shows "\<exists>l x. malloc (sys s) (of_nat n * 120) = Some (Inr (l, x))
    \<and> x = (sys s)\<lparr>kmem := kmem x, pmm_bitmap := pmm_bitmap x, used_pages_count := used_pages_count x\<rparr> \<and> pmm_wf x
    \<and> pmm_free_pages x = {f..<z} \<and> off_pages (array_pages n H f) (smp_mem s) (kmem x) \<and> in_place l (120 * n)
    \<and> (\<forall>j<120 * n. unat (kaddr l + of_nat j) div 4096 \<in> array_pages n H f) \<and> array_pages n H f \<inter> {f..<z} = {}"
proof -
  have call: "0 < n" "n \<le> 34" "heap_inv (sys s) H" "pmm_wf (sys s)" "f + 2 * n \<le> z"
    using assms by (simp_all add: smp_callable_def smp_called_def)
  have sz: "unat (of_nat n * 120 :: u64) = 120 * n" using call(2) by (simp add: unat_word_ariths unat_of_nat)
  show ?thesis
  proof (cases "n \<le> 4")
    case True
    define i where "i = block_index (120 * n + 2)"
    have small: "i = block_index (unat (of_nat n * 120 :: u64) + 2)" "unat (of_nat n * 120 :: u64) \<le> 510" unfolding sz i_def using True by simp_all
    obtain c mx ss p ss' where P: "H ! i = (c, mx, ss)" "pool_alloc ss = Some (p, ss')"
      using assms True by (cases "H ! i") (auto simp: smp_callable_def i_def)
    have pages: "array_pages n H f = pool_pages (H ! i)" using True by (simp add: array_pages_def i_def)
    obtain m where m: "malloc (sys s) (of_nat n * 120) = Some (Inr (p + 2 + HEAP_START_ADDR, (sys s)\<lparr>kmem := m\<rparr>))"
        "\<And>a. unat a div 4096 \<notin> pool_pages (H ! i) \<Longrightarrow> m a = smp_mem s a"
      using malloc_small [OF call(3) small(2,1) P] by blast
    have i6: "i < 6" using malloc_small_bounds [OF small(2)] small(1) by simp
    obtain r k where p: "p = loc r k" "k + 16 * 2 ^ i \<le> 4056" "r < 2 ^ 31" "r \<in> pool_pages (H ! i)" by (rule pool_alloc_buf [OF call(3) i6 P])
    have "k + 2 + 120 * n < 4096" using block_index_fits [of "120 * n + 2"] p(2) by (simp add: i_def)
    note blk = block_region [OF p(1) this p(3)]
    have "off_pages (pool_pages (H ! i)) (smp_mem s) m" using m(2) by (simp add: off_pages_def)
    moreover have free: "pmm_free_pages (sys s) = {f..<z}" "array_pages n H f \<inter> {f..<z} = {}" using assms True by (simp_all add: smp_callable_def)
    moreover have "pmm_wf ((sys s)\<lparr>kmem := m\<rparr>)" "pmm_free_pages ((sys s)\<lparr>kmem := m\<rparr>) = pmm_free_pages (sys s)"
      using call(4) by (simp_all add: pmm_wf_def pmm_inv_def pmm_counter_ok_def pmm_used_def pmm_free_pages_def pmm_pages_def)
    ultimately show ?thesis using m(1) blk(2,3) p(4) unfolding pages
      by (intro exI [of _ "p + 2 + HEAP_START_ADDR"] exI [of _ "(sys s)\<lparr>kmem := m\<rparr>"]) (auto simp: less_imp_le)
  next
    case False
    have free: "pmm_free_pages (sys s) = {f - 1..<z}" "0 < f" using assms False by (simp_all add: smp_callable_def)
    have ne: "pmm_free_pages (sys s) \<noteq> {}" and min: "Min (pmm_free_pages (sys s)) = f - 1"
      unfolding free(1) using free(2) call(5) by (simp, intro Min_eqI) auto
    have fb: "f - 1 < 2 ^ 31" using free_page_bounds(1) [OF call(4), of "f - 1"] free call(5) by simp
    have size: "510 < unat (of_nat n * 120 :: u64)" "unat (of_nat n * 120 :: u64) \<le> 4094" unfolding sz using False call(2) by simp_all
    obtain x where x: "malloc (sys s) (of_nat n * 120) = Some (Inr (loc (f - 1) 0 + 2 + HEAP_START_ADDR, x))" "pmm_wf x"
        "pmm_free_pages x = pmm_free_pages (sys s) - {f - 1}" "off_pages {f - 1} (smp_mem s) (kmem x)"
        "x = (sys s)\<lparr>kmem := kmem x, pmm_bitmap := pmm_bitmap x, used_pages_count := used_pages_count x\<rparr>"
      using malloc_page [OF call(4) ne size] unfolding min by blast
    have "0 + 2 + 120 * n < 4096" using call(2) by simp
    note blk = block_region [OF HOL.refl this fb]
    have "pmm_free_pages x = {f..<z}" unfolding x(3) free(1) using free(2) call(5) by auto
    moreover have "array_pages n H f = {f - 1}" using False by (simp add: array_pages_def)
    ultimately show ?thesis using x(1,2,4,5) blk(2,3) free(2) by (intro exI conjI) (auto simp: less_imp_le)
  qed
qed

lemma smp_callable_begin:
  assumes "smp_callable n b st H f z tag s" and "ap \<noteq> 0"
  shows "\<exists>t g. smp_begin b st s = Some (Inr (tag, t)) \<and> smp_ready g t \<and> the_tag g = tag \<and> ncpu g = n \<and> bsp g = b \<and> ap_addr g = ap
    \<and> (\<forall>c<n. lapic_ids g c = smp_info_lapic_id (smp_mem s) (smp_info_at tag (of_nat c))) \<and> frame0 g = f"
proof -
  have "smp_called n b st tag (array_pages n H f \<union> {f..<z}) s" "n < 2 ^ 32" "f + 2 * n \<le> z" using assms(1) by (simp_all add: smp_callable_def)
  note call = this assms(2)
  obtain l x where "malloc (sys s) (of_nat n * 120) = Some (Inr (l, x))"
      "x = (sys s)\<lparr>kmem := kmem x, pmm_bitmap := pmm_bitmap x, used_pages_count := used_pages_count x\<rparr>" "pmm_wf x"
      "pmm_free_pages x = {f..<z}" "off_pages (array_pages n H f) (smp_mem s) (kmem x)" "in_place l (120 * n)"
      "\<And>j. j < 120 * n \<Longrightarrow> unat (kaddr l + of_nat j) div 4096 \<in> array_pages n H f" "array_pages n H f \<inter> {f..<z} = {}"
    using smp_array_allocated [OF assms(1)] by blast
  then show ?thesis by (rule smp_begin_ready [OF call])
qed

section \<open>An example machine\<close>

text \<open>Bitmaps with the first pages in use.\<close>

lemma mask_bitmap_ones:
  "bitmap_ones \<lparr>bm_map = replicate k 255 @ mask r # replicate n 0, bm_size = z\<rparr> = {..<8 * k + r}" if "r \<le> 8"
proof -
  have full: "bit (255 :: u8) j" if "j < 8" for j
  proof -
    have "(255 :: u8) = mask 8" by (simp add: mask_eq_exp_minus_1)
    then show ?thesis using that by (simp only: bit_mask_iff) simp
  qed
  have "i \<in> bitmap_ones \<lparr>bm_map = replicate k 255 @ mask r # replicate n 0, bm_size = z\<rparr> \<longleftrightarrow> i < 8 * k + r" for i
  proof -
    consider "i div 8 < k" | "i div 8 = k" | "k < i div 8" by linarith
    then show ?thesis
    proof cases
      case 1
      then show ?thesis using full [of "i mod 8"] by (auto simp: bitmap_ones_def bitmap_cap_def nth_append)
    next
      case 2
      define j where "j = i mod 8"
      have i: "i = 8 * k + j" "j < 8" using 2 mult_div_mod_eq [of 8 i] by (simp_all add: j_def)
      show ?thesis unfolding i(1) using i(2) that by (auto simp: bitmap_ones_def bitmap_cap_def nth_append bit_mask_iff)
    next
      case 3
      then have "\<not> i < 8 * k + r" using that by linarith
      then show ?thesis using 3 by (auto simp: bitmap_ones_def bitmap_cap_def nth_append nth_Cons')
    qed
  qed
  then show ?thesis by blast
qed

lemma example_frames:
  assumes "pmm_used (s :: 'a pmm_state_scheme) = {..<k}" "unat (used_pages_count s) = k" "0 < k" "k \<le> pmm_pages s"
    "pmm_pages s \<le> bitmap_cap (pmm_bitmap s)" "bitmap_cap (pmm_bitmap s) \<le> 2 ^ 31"
  shows "pmm_wf s" "pmm_free_pages s = {k..<pmm_pages s}"
proof -
  show free: "pmm_free_pages s = {k..<pmm_pages s}" unfolding pmm_free_pages_def assms(1) by auto
  have "{..<k} \<inter> {..<pmm_pages s} = {..<k}" using assms(4) by auto
  then show "pmm_wf s" using assms unfolding pmm_wf_def pmm_inv_def pmm_counter_ok_def free by simp
qed

text \<open>
  The tag for two processors lies in page 1. The heap takes its pages from the first sixteen; then memory
  above them becomes available.
\<close>

definition example_tag_memory :: memory where
  "example_tag_memory = store32 (store64 (store64 (store64 (\<lambda>_. 0) 0x1080 0x1200) 0x1200 STIVALE2_STRUCT_TAG_SMP_ID) 0x1220 2) 0x124C 1"

definition example_small_machine :: apic_state where
  "example_small_machine = example_smp_sys\<lparr>kmem := example_tag_memory, highest_page_top := 0x10000,
     pmm_bitmap := \<lparr>bm_map = replicate 0 255 @ mask 2 # replicate 1 0, bm_size = 2\<rparr>\<rparr>"

definition example_grown :: "apic_state \<Rightarrow> smp_state" where
  "example_grown x = example_smp\<lparr>sys := x\<lparr>highest_page_top := 0x1000000000, used_pages_count := 16,
     pmm_bitmap := \<lparr>bm_map = replicate 1 255 @ mask 8 # replicate 0x1FFFFE 0, bm_size = 0x200000\<rparr>\<rparr>\<rparr>"

lemma example_small_machine_frames: "pmm_wf example_small_machine" "pmm_free_pages example_small_machine = {2..<16}"
proof -
  have "pmm_used example_small_machine = {..<2}"
    unfolding pmm_used_def example_small_machine_def using mask_bitmap_ones [of 2 0 1] by simp
  moreover have pages: "pmm_pages example_small_machine = 16" by (simp add: pmm_pages_def example_small_machine_def)
  moreover have "unat (used_pages_count example_small_machine) = 2" "bitmap_cap (pmm_bitmap example_small_machine) = 16"
    by (simp_all add: example_small_machine_def example_smp_sys_def example_heap_machine_def example_machine_def bitmap_cap_def
        vmm_state.defs heap_state.defs acpi_state.defs apic_state.defs)
  ultimately show "pmm_wf example_small_machine" "pmm_free_pages example_small_machine = {2..<16}"
    using example_frames [of example_small_machine 2] by simp_all
qed

lemma example_grown_frames: "pmm_wf (sys (example_grown x))" "pmm_free_pages (sys (example_grown x)) = {16..<2 ^ 24}"
proof -
  have "pmm_used (sys (example_grown x)) = {..<16}"
    unfolding pmm_used_def example_grown_def using mask_bitmap_ones [of 8 1 "0x1FFFFE"] by simp
  moreover have "pmm_pages (sys (example_grown x)) = 2 ^ 24" "unat (used_pages_count (sys (example_grown x))) = 16"
      "bitmap_cap (pmm_bitmap (sys (example_grown x))) = 2 ^ 24"
    by (simp_all add: pmm_pages_def example_grown_def bitmap_cap_def)
  ultimately show "pmm_wf (sys (example_grown x))" "pmm_free_pages (sys (example_grown x)) = {16..<2 ^ 24}"
    using example_frames [of "sys (example_grown x)" 16] by simp_all
qed

lemma example_tag_apart: "smp_apart 0x1200 0x1800 2"
  using low_region_place [of "0x1200" 104] low_region_place [of "0x1800" 240] by (simp add: smp_apart_def kaddr_low separate_def)

lemma example_tag_views:
  shows "head_view example_tag_memory 0x1200 = (2, 0)"
    and "i < 2 \<Longrightarrow> entry_view example_tag_memory 0x1200 i = (of_nat i, 0, 0, 0)"
    and "load64 example_tag_memory 0x1080 = 0x1200" "load64 example_tag_memory 0x1200 = STIVALE2_STRUCT_TAG_SMP_ID"
proof -
  note reads = example_tag_memory_def kaddr_low access_defs load_store_same load_store_separate separate_def load_word_zero
  show "head_view example_tag_memory 0x1200 = (2, 0)" unfolding head_view_eq [OF example_tag_apart] by (simp add: reads)
  show "load64 example_tag_memory 0x1080 = 0x1200" "load64 example_tag_memory 0x1200 = STIVALE2_STRUCT_TAG_SMP_ID" by (simp_all add: reads)
  assume "i < 2"
  then consider "i = 0" | "i = 1" by linarith
  then show "entry_view example_tag_memory 0x1200 i = (of_nat i, 0, 0, 0)"
    unfolding entry_view_eq [OF example_tag_apart \<open>i < 2\<close>] by cases (simp_all add: reads)
qed

lemma example_callable:
  "\<exists>x H. malloc_heap_init (\<lambda>_. 0) example_small_machine = Inr x \<and> smp_callable 2 0 0x1000 H 16 (2 ^ 24) 0x1200 (example_grown x)"
proof -
  have card: "12 \<le> card (pmm_free_pages example_small_machine)" unfolding example_small_machine_frames(2) by simp
  obtain x H where x: "malloc_heap_init (\<lambda>_. 0) example_small_machine = Inr x" "heap_inv x H"
      "\<forall>i<6. \<exists>c q. H ! i = fresh_pool c q (16 * 2 ^ i) \<and> {c, q} \<subseteq> pmm_free_pages example_small_machine"
    using malloc_heap_init_ok [OF example_small_machine_frames(1) card] by blast
  let ?s = "example_grown x"
  have mem: "smp_mem ?s = kmem x" by (simp add: example_grown_def)
  have off: "off_pages {2..<16} example_tag_memory (kmem x)"
    using malloc_heap_init_frame(1) [OF x(1) example_small_machine_frames(1) card] unfolding example_small_machine_frames(2)
    by (simp add: example_small_machine_def)
  have i: "block_index (120 * 2 + 2) = 4" by (rule block_index_eqI) simp_all
  obtain c q where P: "H ! 4 = fresh_pool c q 256" "{c, q} \<subseteq> {2..<16}"
    using x(3) [rule_format, of 4] unfolding example_small_machine_frames(2) by auto
  have pages: "pool_pages (H ! 4) = {c, q}" unfolding P(1) by (simp add: fresh_pool_def pool_pages_def)
  have keep: "load64 (kmem x) (kaddr 0x1000 + of_nat y) = load64 example_tag_memory (kaddr 0x1000 + of_nat y)" if "y + 8 \<le> 4096" for y
    unfolding load64_def by (rule region_load [OF low_region_off [of "0x1000" 4096] off that]) simp_all
  have reads: "load64 (kmem x) 0x1080 = 0x1200" "load64 (kmem x) 0x1200 = STIVALE2_STRUCT_TAG_SMP_ID"
    using keep [of "0x80"] keep [of "0x200"] example_tag_views(3,4) by (simp_all add: kaddr_low)
  have tag: "stivale2_get_tag (kmem x) 0x1000 STIVALE2_STRUCT_TAG_SMP_ID = Some 0x1200"
    unfolding stivale2_get_tag_def using reads
    by (subst get_tag_loop.simps) (simp add: stivale2_struct_tags_def tag_identifier_def kload64_def kaddr_low)
  have views: "head_view (kmem x) 0x1200 = (2, 0)" "\<And>i. i < 2 \<Longrightarrow> entry_view (kmem x) 0x1200 i = (of_nat i, 0, 0, 0)"
    using off_tag_views [OF example_tag_apart _ off] low_region_off [of "0x1200" 104 16] example_tag_views(1,2) by simp_all
  have head: "smp_tag_cpu_count (kmem x) 0x1200 = of_nat 2" "smp_tag_bsp_lapic_id (kmem x) 0x1200 = 0" using views(1) by (simp_all add: head_view_def)
  have entry: "smp_info_lapic_id (kmem x) (smp_info_at 0x1200 (of_nat i)) = of_nat i" "smp_info_goto_address (kmem x) (smp_info_at 0x1200 (of_nat i)) = 0"
    if "i < 2" for i using views(2) [OF that] by (simp_all add: entry_view_def Let_def)
  have "((of_nat i :: u32) = 0) = (i = 0)" if "i < 2" for i using that by (auto simp: less_2_cases_iff)
  then have ids: "\<forall>i<2. (smp_info_lapic_id (kmem x) (smp_info_at 0x1200 (of_nat i)) = smp_tag_bsp_lapic_id (kmem x) 0x1200) = (i = 0)
      \<and> smp_info_goto_address (kmem x) (smp_info_at 0x1200 (of_nat i)) = 0" using entry head(2) by simp
  have free: "region_off 0x1200 (40 + 32 * 2) ({16..<2 ^ 24} \<union> {c, q})" "{c, q} \<inter> {16..<2 ^ 24} = {}"
    by (rule region_off_mono [OF low_region_off [of "0x1200" "40 + 32 * 2" "2 ^ 24"]]) (use P(2) in auto)
  have heap: "heap_inv (sys ?s) H" using x(2) by (simp add: heap_inv_def example_grown_def)
  have pop: "pool_alloc (snd (snd (H ! 4))) \<noteq> None" unfolding P(1) using fresh_pool_alloc [of 256 c q] by auto
  have place: "in_place 0x1200 (40 + 32 * 2)" by (rule smp_apartD(1) [OF example_tag_apart])
  have rest: "\<forall>c<2. c \<noteq> 0 \<longrightarrow> pcs ?s c = Parked" "lock (smp_lock ?s) = 0" "cpus_online ?s = 0" "length (entries (gdt (tables ?s))) = 5"
    by (simp_all add: example_grown_def example_smp_def example_tables_def)
  have "array_pages 2 H 16 = {c, q}" using i pages by (simp add: array_pages_def)
  then have "smp_called 2 0 0x1000 0x1200 (array_pages 2 H 16 \<union> {16..<2 ^ 24}) ?s"
    unfolding smp_called_def mem using free(1) by (intro conjI tag place head ids rest) (simp_all add: Un_commute)
  then have "smp_callable 2 0 0x1000 H 16 (2 ^ 24) 0x1200 ?s"
    unfolding smp_callable_def using heap pop free(2) i \<open>array_pages 2 H 16 = {c, q}\<close> example_grown_frames by simp
  then show ?thesis using x(1) by blast
qed

section \<open>Properties\<close>

text \<open>C9. Called on the tag of the bootloader with up to 34 processors, a well-formed heap and the free frames
  in one interval that is long enough for the stacks, \<open>smp_init\<close> allocates its array and comes to its loop; from there no run of the processors fails,
  and every run can be continued until \<open>smp_init\<close> returns. Then all processors are counted, and each has
  loaded the task state segment of its own array element, which holds its number, its local APIC identifier
  and its own stack.\<close>

theorem smp_init_returns:
  assumes "smp_callable n b stivale2_struct H f z tag s" and "ap_init_addr \<noteq> 0"
  shows "\<exists>t. smp_begin b stivale2_struct s = Some (Inr (tag, t)) \<and> (\<forall>r. smp_reach dev tag ap_init_addr n t r \<longrightarrow>
    (\<exists>u w. r = Inr u \<and> smp_reach dev tag ap_init_addr n u (Inr w) \<and> pcs w b = Returned \<and> cpus_online w = of_nat n
      \<and> (\<forall>c<n. let element = cpu_local_at (cpu_locals w) (of_nat c) in
           reg_tr (cpus w c) = 0x28 \<and> reg_tss_base (cpus w c) = cpu_local_tss element \<and> cpu_local_number (smp_mem w) element = of_nat c
           \<and> cpu_local_lapic_id (smp_mem w) element = smp_info_lapic_id (smp_mem s) (smp_info_at tag (of_nat c))
           \<and> cpu_local_rsp0 (smp_mem w) element = PHYS_TO_HIGHER_HALF_DATA (page_addr (f + 2 * c) + CPU_LOCALS_STACK_SIZE))))"
proof -
  obtain t g where t: "smp_begin b stivale2_struct s = Some (Inr (tag, t))" "smp_ready g t"
      and g: "the_tag g = tag" "ncpu g = n" "bsp g = b" "ap_addr g = ap_init_addr" "frame0 g = f"
        "\<forall>c<n. lapic_ids g c = smp_info_lapic_id (smp_mem s) (smp_info_at tag (of_nat c))"
    using smp_callable_begin [OF assms] by blast
  have ok: "setup_ok g" using t(2) by (simp add: smp_ready_def)
  let ?up = "\<lambda>w c. let element = cpu_local_at (cpu_locals w) (of_nat c) in
           reg_tr (cpus w c) = 0x28 \<and> reg_tss_base (cpus w c) = cpu_local_tss element \<and> cpu_local_number (smp_mem w) element = of_nat c
           \<and> cpu_local_lapic_id (smp_mem w) element = smp_info_lapic_id (smp_mem s) (smp_info_at tag (of_nat c))
           \<and> cpu_local_rsp0 (smp_mem w) element = PHYS_TO_HIGHER_HALF_DATA (page_addr (f + 2 * c) + CPU_LOCALS_STACK_SIZE)"
  let ?reach = "smp_reach dev (the_tag g) (ap_addr g) (ncpu g)"
  have "\<exists>u w. r = Inr u \<and> ?reach u (Inr w) \<and> pcs w b = Returned \<and> cpus_online w = of_nat n \<and> (\<forall>c<n. ?up w c)" if run: "?reach t r" for r
  proof -
    obtain u where u: "r = Inr u" using smp_reach_up [OF t(2) run] by blast
    obtain w where w: "?reach u (Inr w)" "pcs w (bsp g) = Returned" using smp_init_can_return [OF t(2)] run u by blast
    have tw: "?reach t (Inr w)" using smp_reach_trans run w(1) unfolding u by blast
    have "cpu_locals w = the_locals g" using smp_reach_inv [OF tw ok smp_ready_inv [OF t(2)]] by (simp add: smp_inv_def setup_kept_def)
    then have "cpus_online w = of_nat n \<and> (\<forall>c<n. ?up w c)"
      using smp_reach_up [OF t(2) tw] w(2) g by (simp add: local_view_def tss_of_def stack_of_def Let_def)
    then show ?thesis using u w g(3) by blast
  qed
  then show ?thesis using t(1) unfolding g by blast
qed

theorem smp_init_returns_witness:
  "\<exists>x t w. malloc_heap_init (\<lambda>_. 0) example_small_machine = Inr x \<and> smp_begin 0 0x1000 (example_grown x) = Some (Inr (0x1200, t))
    \<and> smp_reach (\<lambda>_ _. 0) 0x1200 0xFFFFFFFF80002000 2 t (Inr w) \<and> pcs w 0 = Returned \<and> cpus_online w = 2
    \<and> cpu_local_rsp0 (smp_mem w) (cpu_local_at (cpu_locals w) 1) = PHYS_TO_HIGHER_HALF_DATA (page_addr 18 + CPU_LOCALS_STACK_SIZE)"
proof -
  obtain x H where x: "malloc_heap_init (\<lambda>_. 0) example_small_machine = Inr x" "smp_callable 2 0 0x1000 H 16 (2 ^ 24) 0x1200 (example_grown x)"
    using example_callable by blast
  have ap: "(0xFFFFFFFF80002000 :: u64) \<noteq> 0" by simp
  from smp_init_returns [OF x(2) ap, of "\<lambda>_ _. 0"] obtain t w where t: "smp_begin 0 0x1000 (example_grown x) = Some (Inr (0x1200, t))"
    "smp_reach (\<lambda>_ _. 0) 0x1200 0xFFFFFFFF80002000 2 t (Inr w)" "pcs w 0 = Returned" "cpus_online w = of_nat 2"
    and up: "\<And>c. c < 2 \<Longrightarrow> cpu_local_rsp0 (smp_mem w) (cpu_local_at (cpu_locals w) (of_nat c)) =
      PHYS_TO_HIGHER_HALF_DATA (page_addr (16 + 2 * c) + CPU_LOCALS_STACK_SIZE)"
    unfolding Let_def using smp_reach.start by blast
  from up [of 1] t x(1) show ?thesis by auto
qed

end
