(* ===== verification/Vendor_String.thy ===== *)
theory Vendor_String
  imports APIC Printf_Correct Regions
begin

text \<open>
  \<open>cpu_get_vendor_id_string\<close> of \<open>hardware/cpu.h\<close>: the \<open>cpuid\<close> instruction, a block of the heap, and
  \<open>snprintf\<close> into it.
\<close>

section \<open>Formatting into kernel memory\<close>

text \<open>
  \<open>_out_buffer\<close> through the pointers of the kernel. The device part of the state is physical memory; what the formatter
  reads is that memory behind kernel pointers, so a write shows at every pointer to the same byte.
\<close>

definition kernel_view :: "memory \<Rightarrow> memory" where
  "kernel_view m = (\<lambda>v. m (kaddr v))"

definition out_kernel :: "memory out_fct_type" where
  "out_kernel character buffer idx maxlen s =
     (if idx < maxlen
      then \<lparr>omem = (\<lambda>v. if kaddr v = kaddr (buffer + idx) then of_char character else omem s v),
            odev = (odev s)(kaddr (buffer + idx) := of_char character)\<rparr>
      else s)"

definition snprintf_kernel :: "u64 \<Rightarrow> u64 \<Rightarrow> string \<Rightarrow> va_list \<Rightarrow> memory \<Rightarrow> (int \<times> memory) result option" where
  "snprintf_kernel buffer maxlen format va m =
     map_option (\<lambda>r. rbind r (\<lambda>(ret, s). Inr (ret, odev s)))
       (vsnprintf_internal out_kernel buffer maxlen format va \<lparr>omem = kernel_view m, odev = m\<rparr>)"

section \<open>The vendor\<close>

abbreviation (input) CPUID_GET_VENDOR_STRING :: u32 where "CPUID_GET_VENDOR_STRING \<equiv> 0"

text \<open>\<open>cpuid_registers_t\<close> in memory, where the local variable of the function lies.\<close>

definition store_registers :: "u64 \<Rightarrow> cpuid_registers_t \<Rightarrow> memory \<Rightarrow> memory" where
  "store_registers p r m =
     (let m = store32 m (kaddr p) (leaf r); m = store32 m (kaddr (p + 4)) (subleaf r);
          m = store32 m (kaddr (p + 8)) (eax r); m = store32 m (kaddr (p + 12)) (ebx r);
          m = store32 m (kaddr (p + 16)) (ecx r)
      in store32 m (kaddr (p + 20)) (edx r))"

definition cpu_get_vendor_id_string ::
  "cpuid_instr \<Rightarrow> u64 \<Rightarrow> 'a heap_state_scheme \<Rightarrow> (u64 \<times> 'a heap_state_scheme) result option" where
  "cpu_get_vendor_id_string instr regs s =
     (let (_, r) = cpuid instr \<lparr>leaf = CPUID_GET_VENDOR_STRING, subleaf = 0, eax = 0, ebx = 0, ecx = 0, edx = 0\<rparr>
      in obind (malloc (s\<lparr>kmem := store_registers regs r (kmem s)\<rparr>) 13) (\<lambda>(vendor_string, s).
         obind (snprintf_kernel vendor_string 13 ''%.4s%.4s%.4s'' [regs + 12, regs + 20, regs + 16] (kmem s)) (\<lambda>(_, m).
           Some (Inr (vendor_string, s\<lparr>kmem := m\<rparr>)))))"

section \<open>The text in memory\<close>

interpretation kernel_sink: printf_sink out_kernel buffer maxlen "{a. \<forall>i. unat i < limit \<longrightarrow> kaddr a \<noteq> kaddr (buffer + i)}"
    "\<lambda>idx. unat idx < limit \<or> maxlen \<le> idx" for buffer maxlen limit
  by unfold_locales (auto simp: out_kernel_def)

lemma out_kernel_chars:
  assumes "in_place buffer n" "unat idx + length t \<le> n"
  shows "odev (snd (out_chars out_kernel buffer maxlen t (idx, s)))
    = omem (snd (out_chars out_buffer (kaddr buffer) maxlen t (idx, \<lparr>omem = odev s, odev = ()\<rparr>)))"
  using assms(2)
proof (induction t arbitrary: idx s)
  case (Cons c t)
  have n: "n < 2 ^ 64" using assms(1) by (simp add: in_place_def)
  have "unat (idx + 1) = Suc (unat idx)" using Cons.prems n by (intro unat_add_of_nat [of idx 1, simplified]) simp
  moreover have "kaddr (buffer + idx) = kaddr buffer + idx"
    using in_place_addr(1) [OF assms(1), of "unat idx"] Cons.prems by simp
  ultimately show ?case using Cons.IH [of "idx + 1"] Cons.prems by (simp add: out_kernel_def out_buffer_def)
qed simp

lemma snprintf_kernel_text:
  assumes "buffer \<noteq> 0" "vformat (kernel_view m) format va = Some (Inr t)" "in_place buffer (Suc (length t))" "length t < unat maxlen"
    and "\<forall>p\<in>set va. reads_kept {a. \<forall>i. unat i < length t \<longrightarrow> kaddr a \<noteq> kaddr (buffer + i)} (kernel_view m) p"
  shows "\<exists>ret. snprintf_kernel buffer maxlen format va m = Some (Inr (ret, \<lambda>a.
    (let i = unat (a - kaddr buffer) in if i < length t then of_char (t ! i) else if i = length t then 0 else m a)))"
proof -
  let ?s = "\<lparr>omem = kernel_view m, odev = m\<rparr>" and ?n = "of_nat (length t) :: u64"
  have lt: "length t < 2 ^ 64" using assms(3) by (simp add: in_place_def)
  have n: "unat ?n = length t" using lt by (simp add: unat_of_nat)
  have loop: "vsnprintf_loop out_kernel buffer maxlen format va 0 ?s = Some (Inr (out_chars out_kernel buffer maxlen t (0, ?s)))"
    by (rule kernel_sink.vsnprintf_loop_text [OF _ assms(5) _ assms(2)])
      (use lt in \<open>simp_all add: run_ok_def unat_of_nat agrees_def\<close>)
  obtain u where u: "out_chars out_kernel buffer maxlen t (0, ?s) = (?n, u)"
    using fst_out_chars [of out_kernel buffer maxlen t "(0, ?s)"] by (metis add_0 fst_conv prod.collapse)
  have "odev u = omem (snd (out_chars out_buffer (kaddr buffer) maxlen t (0, \<lparr>omem = m, odev = ()\<rparr>)))"
    using out_kernel_chars [OF assms(3), of 0 t maxlen ?s] u by simp
  then have ou: "odev u a = (if unat (a - kaddr buffer) < length t then of_char (t ! unat (a - kaddr buffer)) else m a)" for a
    using out_buffer_chars [of 0 t "kaddr buffer" maxlen "\<lparr>omem = m, odev = ()\<rparr>"] lt assms(4) by (auto simp: word_less_nat_alt)
  have lc: "?n < maxlen" using n assms(4) by (simp add: word_less_nat_alt)
  have at: "a = kaddr (buffer + ?n) \<longleftrightarrow> unat (a - kaddr buffer) = length t" for a
    using in_place_addr(1) [OF assms(3), of "length t"] word_diff_eq_of_nat [OF lt, of a "kaddr buffer"] by simp
  have "odev (out_kernel CHR 0x00 buffer ?n maxlen u) = (\<lambda>a.
    (let i = unat (a - kaddr buffer) in if i < length t then of_char (t ! i) else if i = length t then 0 else m a))"
    using lc at ou by (auto simp: out_kernel_def fun_eq_iff Let_def)
  then show ?thesis using assms(1) loop u lc by (simp add: snprintf_kernel_def vsnprintf_internal_def)
qed

text \<open>The bytes of a register, least significant first; the format takes four of them at a time.\<close>

definition word_bytes :: "u32 \<Rightarrow> u8 list" where
  "word_bytes w = map (\<lambda>j. ucast (drop_bit (8 * j) w)) [0..<4]"

lemma length_word_bytes [simp]: "length (word_bytes w) = 4"
  by (simp add: word_bytes_def)

lemma bytes_at_4: "bytes_at m p 4 = [m p, m (p + 1), m (p + 2), m (p + 3)]"
  by (simp add: bytes_at_def upt_rec)

lemma string_chars_4:
  assumes "0 \<notin> set (bytes_at m p 4)"
  shows "string_chars m FLAGS_PRECISION 4 p = Some (map (\<lambda>b. char_of (unat b)) (bytes_at m p 4))"
  using assms unfolding bytes_at_4
  by (subst string_chars.simps, subst string_chars.simps, subst string_chars.simps, subst string_chars.simps, subst string_chars.simps)
    (auto simp: flag_def add.assoc)

lemma vformat_vendor:
  assumes "0 \<notin> set (bytes_at m p 4 @ bytes_at m q 4 @ bytes_at m r 4)"
  shows "vformat m ''%.4s%.4s%.4s'' [p, q, r] = Some (Inr (map (\<lambda>b. char_of (unat b)) (bytes_at m p 4 @ bytes_at m q 4 @ bytes_at m r 4)))"
  using assms
  by (simp add: parse_directive_def parse_width_def parse_precision_def parse_length_def is_digit_def atoi_def
      specifier_text_def integer_specifier_def string_chars_4 padded_def flag_def)

lemma store_registers_bytes:
  assumes "in_place p 24"
  shows "store_registers p r m a = (let k = unat (a - kaddr p) in
    if k < 24 then (word_bytes (leaf r) @ word_bytes (subleaf r) @ word_bytes (eax r) @ word_bytes (ebx r) @ word_bytes (ecx r) @ word_bytes (edx r)) ! k
    else m a)"
proof -
  define d where "d = a - kaddr p"
  have addr: "kaddr (p + 4) = kaddr p + 4" "kaddr (p + 8) = kaddr p + 8" "kaddr (p + 12) = kaddr p + 12" "kaddr (p + 16) = kaddr p + 16"
      "kaddr (p + 20) = kaddr p + 20"
    using in_place_addr(1) [OF assms, of 4] in_place_addr(1) [OF assms, of 8] in_place_addr(1) [OF assms, of 12]
      in_place_addr(1) [OF assms, of 16] in_place_addr(1) [OF assms, of 20] by simp_all
  have a: "a - (kaddr p + c) = d - c" for c by (simp add: d_def)
  have st: "store32 m' (kaddr p + of_nat c) w a = (if c \<le> unat d \<and> unat d < c + 4 then word_bytes w ! (unat d - c) else m' a)" if "c \<le> 20" for m' c w
  proof -
    have "unat (d - of_nat c) = (if c \<le> unat d then unat d - c else 2 ^ 64 + unat d - c)"
      using that by (auto simp: unat_sub_if_size unat_of_nat word_size word_le_nat_alt)
    then show ?thesis using that by (auto simp: store32_def store_word_def a word_bytes_def)
  qed
  show ?thesis
    unfolding store_registers_def addr Let_def d_def [symmetric]
    using st [of 0] st [of 4] st [of 8] st [of 12] st [of 16] st [of 20] by (auto simp: nth_append)
qed

lemma kernel_view_bytes:
  assumes "in_place p n" "x + k \<le> n"
  shows "bytes_at (kernel_view m) (p + of_nat x) k = bytes_at m (kaddr p + of_nat x) k"
  unfolding bytes_at_def kernel_view_def
proof (rule map_cong [OF refl])
  fix i assume "i \<in> set [0..<k]"
  then have "kaddr (p + of_nat (x + i)) = kaddr p + of_nat (x + i)" using in_place_addr(1) [OF assms(1), of "x + i"] assms(2) by simp
  then show "m (kaddr (p + of_nat x + of_nat i)) = m (kaddr p + of_nat x + of_nat i)" by (simp add: add.assoc)
qed

lemma registers_stored:
  assumes "in_place p 24"
  shows "bytes_at (kernel_view (store_registers p r m)) (p + 12) 4 = word_bytes (ebx r)"
    "bytes_at (kernel_view (store_registers p r m)) (p + 16) 4 = word_bytes (ecx r)"
    "bytes_at (kernel_view (store_registers p r m)) (p + 20) 4 = word_bytes (edx r)"
proof -
  let ?bs = "word_bytes (leaf r) @ word_bytes (subleaf r) @ word_bytes (eax r) @ word_bytes (ebx r) @ word_bytes (ecx r) @ word_bytes (edx r)"
  have byte: "store_registers p r m (kaddr p + of_nat x + of_nat i) = ?bs ! (x + i)" if "x \<le> 20" "i < 4" for x i
  proof -
    have "unat (of_nat (x + i) :: u64) = x + i" "x + i < 24" using that by (simp_all add: unat_of_nat take_bit_nat_eq_self del: of_nat_add)
    then show ?thesis using store_registers_bytes [OF assms, of r m "kaddr p + of_nat (x + i)"] by (simp add: add.assoc Let_def)
  qed
  have at: "bytes_at (kernel_view (store_registers p r m)) (p + of_nat x) 4 = map (\<lambda>i. ?bs ! (x + i)) [0..<4]" if "x \<le> 20" for x
    unfolding kernel_view_bytes [OF assms, of x 4, simplified, OF that] unfolding bytes_at_def by (intro map_cong refl byte that) simp
  have four: "map (\<lambda>i. xs ! i) [0..<4] = xs" if "length xs = 4" for xs :: "u8 list" using map_nth [of xs] that by simp
  show "bytes_at (kernel_view (store_registers p r m)) (p + 12) 4 = word_bytes (ebx r)"
    "bytes_at (kernel_view (store_registers p r m)) (p + 16) 4 = word_bytes (ecx r)"
    "bytes_at (kernel_view (store_registers p r m)) (p + 20) 4 = word_bytes (edx r)"
    using at [of 12] at [of 16] at [of 20] four [of "word_bytes _"] by (simp_all add: nth_append upt_rec)
qed

text \<open>The heap does not see writes outside its pages.\<close>

lemma heap_inv_outside:
  assumes "heap_inv s H" "\<And>a i. i < 6 \<Longrightarrow> unat a div 4096 \<in> pool_pages (H ! i) \<Longrightarrow> m a = kmem s a"
  shows "heap_inv (s\<lparr>kmem := m\<rparr>) H"
proof -
  let ?X = "{unat a div 4096 |a. m a \<noteq> kmem s a}"
  have "pool_inv m (slab_caches s ! i) (16 * 2 ^ i) (H ! i)" if "i < 6" for i
  proof (rule pool_inv_off_pages [of "kmem s" _ _ _ ?X])
    show "pool_inv (kmem s) (slab_caches s ! i) (16 * 2 ^ i) (H ! i)" using assms(1) that by (simp add: heap_inv_def)
    show "off_pages ?X (kmem s) m" by (auto simp: off_pages_def)
    show "?X \<inter> pool_pages (H ! i) = {}" using assms(2) [OF that] by auto
  qed
  then show ?thesis using assms(1) by (simp add: heap_inv_def)
qed

lemma reads_kept_region:
  assumes "in_place q n" "region_off q n X" "kernel_view m (q + of_nat z) = 0" "z < n" "x \<le> z"
    and "\<And>i. unat i < w \<Longrightarrow> unat (kaddr (l + i)) div 4096 \<in> X"
  shows "reads_kept {a. \<forall>i. unat i < w \<longrightarrow> kaddr a \<noteq> kaddr (l + i)} (kernel_view m) (q + of_nat x)"
  unfolding reads_kept_def
proof (intro allI impI)
  fix j assume j: "\<forall>i<j. kernel_view m (q + of_nat x + of_nat i) \<noteq> 0"
  have "q + of_nat x + of_nat (z - x) = q + of_nat z" using assms(5) by (simp add: add.assoc of_nat_diff)
  then have "\<not> z - x < j" using j assms(3) by metis
  then have "x + j \<le> z" using assms(5) by linarith
  then have "unat (kaddr (q + of_nat (x + j))) div 4096 \<notin> X"
    using assms(1,2,4) in_place_addr(1) [OF assms(1), of "x + j"] unfolding region_off_def by (simp del: of_nat_add)
  then show "q + of_nat x + of_nat j \<in> {a. \<forall>i. unat i < w \<longrightarrow> kaddr a \<noteq> kaddr (l + i)}" using assms(6) by (auto simp: add.assoc)
qed

lemma unat_mod_256: "unat (b :: u8) mod 256 = unat b"
  using unsigned_less [where 'a = nat, of b] by simp

lemma text_bytes:
  assumes "in_place l (Suc (length t))"
  shows "bytes_at (kernel_view (\<lambda>a. let i = unat (a - kaddr l) in
      if i < length t then of_char (map (\<lambda>b. char_of (unat b)) t ! i) else if i = length t then 0 else m a)) l (Suc (length t)) = t @ [0]"
proof (rule nth_equalityI)
  fix i assume "i < length (bytes_at (kernel_view (\<lambda>a. let i = unat (a - kaddr l) in
      if i < length t then of_char (map (\<lambda>b. char_of (unat b)) t ! i) else if i = length t then 0 else m a)) l (Suc (length t)))"
  then have i: "i < Suc (length t)" by (simp add: bytes_at_def)
  then have "unat (of_nat i :: u64) = i" using assms by (simp add: unat_of_nat in_place_def take_bit_nat_eq_self)
  moreover have "kaddr (l + of_nat i) = kaddr l + of_nat i" using in_place_addr(1) [OF assms, of i] i by simp
  moreover have "of_char (char_of (unat b)) = b" for b :: u8
    by (subst of_nat_of_char [symmetric]) (simp add: of_char_of unat_mod_256)
  ultimately show "bytes_at (kernel_view (\<lambda>a. let i = unat (a - kaddr l) in
      if i < length t then of_char (map (\<lambda>b. char_of (unat b)) t ! i) else if i = length t then 0 else m a)) l (Suc (length t)) ! i = (t @ [0]) ! i"
    using i by (simp add: bytes_at_def kernel_view_def Let_def nth_append del: upt_Suc)
qed (simp add: bytes_at_def)

lemma vendor_registers:
  fixes r :: cpuid_registers_t and s :: "'a heap_state_scheme"
  assumes heap: "heap_inv s H" and regs: "in_place regs (25 + k)" "region_off regs (25 + k) (\<Union>i<6. pool_pages (H ! i))"
      "kernel_view (kmem s) (regs + of_nat (24 + k)) = 0"
  defines "m1 \<equiv> store_registers regs r (kmem s)"
  shows "heap_inv (s\<lparr>kmem := m1\<rparr>) H"
    and "\<lbrakk>\<And>a. unat a div 4096 \<notin> pool_pages (H ! 0) \<Longrightarrow> m2 a = m1 a\<rbrakk> \<Longrightarrow>
      bytes_at (kernel_view m2) (regs + 12) 4 = word_bytes (ebx r) \<and> bytes_at (kernel_view m2) (regs + 16) 4 = word_bytes (ecx r)
      \<and> bytes_at (kernel_view m2) (regs + 20) 4 = word_bytes (edx r) \<and> kernel_view m2 (regs + of_nat (24 + k)) = 0"
proof -
  have p24: "in_place regs 24" using regs(1) by (simp add: in_place_def)
  have m1: "m1 a = kmem s a" if "\<not> unat (a - kaddr regs) < 24" for a using store_registers_bytes [OF p24, of r "kmem s" a] that by (simp add: m1_def)
  have out: "unat a div 4096 \<notin> pool_pages (H ! i)" if "i < 6" "unat (a - kaddr regs) < 25 + k" for a i
  proof -
    have "kaddr regs + of_nat (unat (a - kaddr regs)) = a" by simp
    then show ?thesis using regs(2) that unfolding region_off_def by (metis UN_I lessThan_iff)
  qed
  show "heap_inv (s\<lparr>kmem := m1\<rparr>) H" by (rule heap_inv_outside [OF heap]) (use m1 out in force)
  assume m2: "\<And>a. unat a div 4096 \<notin> pool_pages (H ! 0) \<Longrightarrow> m2 a = m1 a"
  have view: "kernel_view m2 (regs + of_nat x) = kernel_view m1 (regs + of_nat x)" if "x < 25 + k" for x
    using regs(2) that m2 in_place_addr(1) [OF regs(1), of x] by (auto simp: kernel_view_def region_off_def)
  have same: "bytes_at (kernel_view m2) (regs + of_nat x) 4 = bytes_at (kernel_view m1) (regs + of_nat x) 4" if "x \<le> 20" for x
    unfolding bytes_at_def using view [of "x + _"] that by (simp add: add.assoc)
  have u: "unat (of_nat (24 + k) :: u64) = 24 + k" using regs(1) by (simp add: in_place_def unat_of_nat take_bit_nat_eq_self del: of_nat_add)
  have "kernel_view m1 (regs + of_nat (24 + k)) = 0"
    using u in_place_addr(1) [OF regs(1), of "24 + k"] regs(3) by (simp add: kernel_view_def m1 del: of_nat_add)
  then have "kernel_view m2 (regs + of_nat (24 + k)) = 0" using view [of "24 + k"] by simp
  moreover have "bytes_at (kernel_view m2) (regs + 12) 4 = word_bytes (ebx r)" "bytes_at (kernel_view m2) (regs + 16) 4 = word_bytes (ecx r)"
    "bytes_at (kernel_view m2) (regs + 20) 4 = word_bytes (edx r)"
    using same [of 12] same [of 16] same [of 20] registers_stored [OF p24, of r "kmem s"] by (simp_all add: m1_def)
  ultimately show "bytes_at (kernel_view m2) (regs + 12) 4 = word_bytes (ebx r) \<and> bytes_at (kernel_view m2) (regs + 16) 4 = word_bytes (ecx r)
      \<and> bytes_at (kernel_view m2) (regs + 20) 4 = word_bytes (edx r) \<and> kernel_view m2 (regs + of_nat (24 + k)) = 0" by simp
qed

section \<open>Properties\<close>

text \<open>C38. \<open>cpu_get_vendor_id_string\<close> returns a block of the heap that holds the twelve bytes of \<open>ebx\<close>, \<open>edx\<close> and \<open>ecx\<close>,
  in this order, and a null character; the heap stays well formed. The registers lie outside the heap, and the
  bytes that follow them on the stack have a null character before they reach it.\<close>

theorem vendor_id_string_stored:
  assumes heap: "heap_inv s H" "H ! 0 = (c, mx, ss)" "pool_alloc ss = Some (p, ss')"
    and vendor: "instr 0 0 = (max_leaf, b, c', d)" "0 \<notin> set (word_bytes b @ word_bytes d @ word_bytes c')"
    and regs: "in_place regs (25 + k)" "region_off regs (25 + k) (\<Union>i<6. pool_pages (H ! i))"
      "kernel_view (kmem s) (regs + of_nat (24 + k)) = 0"
  shows "\<exists>t. cpu_get_vendor_id_string instr regs s = Some (Inr (p + 2 + HEAP_START_ADDR, t))
    \<and> bytes_at (kernel_view (kmem t)) (p + 2 + HEAP_START_ADDR) 13 = word_bytes b @ word_bytes d @ word_bytes c' @ [0]
    \<and> heap_inv t (H[0 := (c, mx, ss')])"
proof -
  define r where "r = \<lparr>leaf = 0, subleaf = 0, eax = max_leaf, ebx = b, ecx = c', edx = d\<rparr>"
  define m1 where "m1 = store_registers regs r (kmem s)"
  let ?l = "p + 2 + HEAP_START_ADDR" and ?t = "word_bytes b @ word_bytes d @ word_bytes c'"
  have r: "cpuid instr \<lparr>leaf = CPUID_GET_VENDOR_STRING, subleaf = 0, eax = 0, ebx = 0, ecx = 0, edx = 0\<rparr> = (True, r)"
    by (simp add: cpuid_def vendor(1) r_def)
  note stored = vendor_registers [OF heap(1) regs, where r = r, folded m1_def]
  note heap1 = stored(1)
  have bi: "(0 :: nat) = block_index (unat (13 :: u64) + 2)" by (rule sym, rule block_index_eqI) simp_all
  obtain m2 where m2: "malloc (s\<lparr>kmem := m1\<rparr>) 13 = Some (Inr (?l, s\<lparr>kmem := m2\<rparr>))" "heap_inv (s\<lparr>kmem := m2\<rparr>) (H[0 := (c, mx, ss')])"
      "\<And>a. unat a div 4096 \<notin> pool_pages (H ! 0) \<Longrightarrow> m2 a = m1 a"
    using malloc_small [OF heap1 _ bi heap(2,3)] by auto
  have six: "(0 :: nat) < 6" by simp
  obtain q n where q0: "p = loc q n" "n + 16 * 2 ^ 0 \<le> 4056" "q < 2 ^ 31" "q \<in> pool_pages (H ! 0)" "q \<in> fst ` set ss'" "p \<in> bufs (16 * 2 ^ 0) q"
      "p \<notin> set (free_bufs ss')" by (rule pool_alloc_buf [OF heap1 six heap(2,3)])
  note q = q0 [simplified power_0 mult_1_right]
  have "n + 2 + 13 < 4096" using q(2) by simp
  note blk = block_region [OF q(1) this q(3)]
  have kl: "kaddr ?l = p + 2" using blk(1) q(1) by (simp add: loc_def)
  have bytes: "bytes_at (kernel_view m2) (regs + 12) 4 = word_bytes b" "bytes_at (kernel_view m2) (regs + 16) 4 = word_bytes c'"
      "bytes_at (kernel_view m2) (regs + 20) 4 = word_bytes d" and zero: "kernel_view m2 (regs + of_nat (24 + k)) = 0"
    using stored(2) [of m2] m2(3) by (simp_all add: r_def)
  have fmt: "vformat (kernel_view m2) ''%.4s%.4s%.4s'' [regs + 12, regs + 20, regs + 16] = Some (Inr (map (\<lambda>b. char_of (unat b)) ?t))"
    using vformat_vendor [of "kernel_view m2" "regs + 12" "regs + 20" "regs + 16"] vendor(2) unfolding bytes by blast
  have kept: "\<forall>a\<in>set [regs + 12, regs + 20, regs + 16].
      reads_kept {a. \<forall>i. unat i < length ?t \<longrightarrow> kaddr a \<noteq> kaddr (?l + i)} (kernel_view m2) a"
  proof -
    have page: "unat (kaddr (?l + i)) div 4096 \<in> pool_pages (H ! 0)" if "unat i < length ?t" for i
      using blk(3) [of "unat i"] in_place_addr(1) [OF blk(2), of "unat i"] that q(4) by simp
    have off: "region_off regs (25 + k) (pool_pages (H ! 0))" by (rule region_off_mono [OF regs(2)]) (use six in blast)
    have "reads_kept {a. \<forall>i. unat i < length ?t \<longrightarrow> kaddr a \<noteq> kaddr (?l + i)} (kernel_view m2) (regs + of_nat x)" if "x \<le> 20" for x
      using that by (intro reads_kept_region [OF regs(1) off zero _ _ page]) simp_all
    from this [of 12] this [of 16] this [of 20] show ?thesis by simp
  qed
  have place: "in_place ?l (Suc (length ?t))" and len: "length ?t < unat (13 :: u64)" using blk(2) by simp_all
  obtain ret where out: "snprintf_kernel ?l 13 ''%.4s%.4s%.4s'' [regs + 12, regs + 20, regs + 16] m2 = Some (Inr (ret, \<lambda>a.
      (let i = unat (a - kaddr ?l) in if i < length ?t then of_char (map (\<lambda>b. char_of (unat b)) ?t ! i) else if i = length ?t then 0 else m2 a)))"
    (is "_ = Some (Inr (ret, ?m))")
    using snprintf_kernel_text [OF heap_pointer_nonzero [OF q(6) _ q(3)] fmt, unfolded length_map, OF _ place len kept] by auto
  have "heap_inv (s\<lparr>kmem := m2\<rparr>\<lparr>kmem := ?m\<rparr>) (H[0 := (c, mx, ss')])"
  proof (rule heap_inv_buffer_write [OF m2(2) six])
    show "H[0 := (c, mx, ss')] ! 0 = (c, mx, ss')" using heap(1) by (simp add: heap_inv_def)
    show "?m a = kmem (s\<lparr>kmem := m2\<rparr>) a" if a: "\<not> unat (a - p) < 16 * 2 ^ 0" for a
    proof -
      have "unat (a - p - 2) = unat (a - p) - 2" using a by (simp add: unat_sub_if_size word_size)
      then have "14 \<le> unat (a - kaddr ?l)" using a unfolding kl by (simp add: diff_diff_add)
      then show ?thesis by (simp add: Let_def)
    qed
  qed (use q in simp_all)
  moreover have "bytes_at (kernel_view ?m) ?l 13 = word_bytes b @ word_bytes d @ word_bytes c' @ [0]"
    using text_bytes [OF place, of m2] by simp
  moreover have "cpu_get_vendor_id_string instr regs s = Some (Inr (?l, s\<lparr>kmem := ?m\<rparr>))"
    unfolding cpu_get_vendor_id_string_def r using m2(1) out by (simp add: m1_def)
  ultimately show ?thesis by (intro exI [of _ "s\<lparr>kmem := ?m\<rparr>"]) simp
qed

theorem vendor_id_string_stored_witness:
  "\<exists>t l u. malloc_heap_init (\<lambda>_. 0) example_heap_machine = Inr t
    \<and> cpu_get_vendor_id_string (\<lambda>_ _. (13, 0x756E6547, 0x6C65746E, 0x49656E69)) 0x1000 t = Some (Inr (l, u))
    \<and> bytes_at (kernel_view (kmem u)) l 13 = map of_char ''GenuineIntel'' @ [0]"
proof -
  obtain t H where t: "malloc_heap_init (\<lambda>_. 0) example_heap_machine = Inr t" "heap_inv t H"
      "\<forall>i<6. \<exists>c q. H ! i = fresh_pool c q (16 * 2 ^ i) \<and> {c, q} \<subseteq> pmm_free_pages example_heap_machine" using example_heap by blast
  obtain c q where "H ! 0 = fresh_pool c q 16" using t(3) by fastforce
  moreover obtain ss' where "pool_alloc (snd (snd (fresh_pool c q 16))) = Some (loc q 16, ss')" using fresh_pool_alloc [of 16 c q] by auto
  ultimately obtain c mx ss p ss' where P: "H ! 0 = (c, mx, ss)" "pool_alloc ss = Some (p, ss')" by (metis prod.collapse)
  have off: "off_pages {2..<2 ^ 24} (\<lambda>_. 0) (kmem t)"
    using malloc_heap_init_frame(1) [OF t(1) example_heap_frames(1,3)]
    by (simp add: example_heap_frames(2)) (simp add: example_heap_machine_def example_machine_def vmm_state.defs)
  then have zero: "kernel_view (kmem t) (0x1000 + of_nat (24 + 0)) = 0" by (simp add: kernel_view_def kaddr_low off_pages_def)
  have "pool_pages (H ! i) \<subseteq> {2..<2 ^ 24}" if "i < 6" for i
    using t(3) that unfolding example_heap_frames(2) by (auto simp: fresh_pool_def pool_pages_def)
  then have regs: "region_off 0x1000 (25 + 0) (\<Union>i<6. pool_pages (H ! i))"
    by (intro region_off_mono [OF low_region_off [of "0x1000" "25 + 0" "2 ^ 24"]]) auto
  have place: "in_place 0x1000 (25 + 0)" by (rule low_region_place) simp_all
  have bytes: "word_bytes 0x756E6547 @ word_bytes 0x49656E69 @ word_bytes 0x6C65746E = map of_char ''GenuineIntel''"
    by (simp add: word_bytes_def upt_rec)
  have "0 \<notin> set (word_bytes 0x756E6547 @ word_bytes 0x49656E69 @ word_bytes 0x6C65746E)" unfolding bytes by simp
  from vendor_id_string_stored [where instr = "\<lambda>_ _. (13, 0x756E6547, 0x6C65746E, 0x49656E69)", OF t(2) P refl this place regs zero]
  show ?thesis using t(1) bytes by force
qed

end
