(* ===== verification/Spec2Isabelle.thy ===== *)
theory Spec2Isabelle
  imports IOAPIC_Routing Kernel_Boot Interrupts SMP_Init Vendor_String
begin

text \<open>
  A verification development for the kernel apoptOS (\<open>src/src/kernel\<close>): a 64-bit kernel in C that a
  stivale2 bootloader starts, with a frame allocator, page tables, a slab heap, formatted output to a
  serial port, segment and interrupt descriptors, and drivers for the interrupt controllers and the
  event timer.

  \<^bold>\<open>The program and how its parts interact.\<close> \<open>kernel.c\<close> reads the tags of the bootloader and initialises the
  parts one after the other. \<open>memory/physical/pmm.c\<close> hands out page frames from a bitmap over the
  memory map; \<open>memory/virtual/vmm.c\<close> builds four-level page tables in such frames, for three windows
  (direct map, heap, kernel image) onto physical memory; \<open>memory/dynamic/slab.c\<close> cuts frames into
  buffers of one size; \<open>libk/malloc/malloc.c\<close> serves small requests from six slab caches and large
  ones from the frames. \<open>tables/gdt.c\<close>, \<open>tables/idt.c\<close> and \<open>tables/isr.c\<close> set up and take interrupts, which
  \<open>hardware/pic\<close> or \<open>hardware/apic\<close> route. All of them report through \<open>libk/serial\<close>, which formats with
  \<open>libk/printf/printf.c\<close> under a lock of \<open>libk/lock/spinlock.h\<close>.

  \<^bold>\<open>How C is modelled.\<close> Integers are words of their width. Physical memory is a function from 64-bit
  addresses to bytes (\<open>Kernel_Memory\<close>); structures in it are read and written by accessors at the
  offsets of their fields, so that aliasing and overruns are visible. \<open>kaddr\<close> gives the byte that the
  kernel means by a pointer into one of its windows; \<open>Page_Tables\<close> proves that the tables of
  \<open>vmm_init\<close> translate the windows that way. The globals of a file are a record, and the records
  extend each other in the order the components use each other. A panic or a failed assertion is an
  error value (\<open>kerror\<close>, \<open>'a result = kerror + 'a\<close>). A loop that need not end is a partial function into
  \<open>option\<close>, \<open>None\<close> for a run that does not return; every property about such code states that it
  returns. Everything else is a total function whose recursion follows the loop of the source; no
  definition takes fuel or a bound that the source does not have. Log and debug lines are left out of the components that only report with them; the
  functions they call are modelled in \<open>Serial\<close>. What is not in the sources is a parameter: the device
  behind the ports and behind the memory-mapped registers, the \<open>cpuid\<close> instruction, and the addresses
  the linker chooses. Documented hardware (page walk, descriptor formats, 8259, 16550, 82093) is given
  as definitions next to the programs that drive it, for the properties only.

  \<^bold>\<open>The theories.\<close>
  \<^item> \<open>Kernel_Prelude\<close>, \<open>Kernel_Memory\<close>: words, errors, byte memory; \<open>memory/mem.h\<close>, \<open>libk/testing/assert.h\<close>.
  \<^item> \<open>Kernel_String\<close>: \<open>libk/string/string.c\<close>, with closed forms of the byte loops; \<open>memcmp\<close> is the order of byte lists. \<open>Bitmap\<close>: \<open>bitmap.c\<close>.
  \<^item> \<open>PMM\<close>: \<open>pmm.c\<close>. First fit, distinctness of pages, release, the pages free after \<open>pmm_init\<close>, and
    where requests of more than one page go wrong.
  \<^item> \<open>VMM\<close>: \<open>vmm.c\<close> and \<open>enable_pat\<close>. \<open>Page_Tables\<close>: what the tables mean to the hardware walk; mapping,
    unmapping and ranges, the number of frames they take, and the windows after \<open>vmm_init\<close>.
  \<^item> \<open>Slab\<close>: \<open>slab.c\<close>. \<open>Slab_Pool\<close>: a cache refines a pool of disjoint buffers (locale \<open>buffer_cache\<close>).
  \<^item> \<open>Malloc\<close>: \<open>malloc.c\<close>. \<open>Realloc\<close>: blocks moved between caches. \<open>Realloc_Test\<close>: the test in \<open>kernel.c\<close>.
    \<open>Page_Blocks\<close>: blocks that take a page of their own.
    \<open>Regions\<close>: regions behind kernel pointers and their separation, shared by the theories below.
  \<^item> \<open>Printf\<close>: \<open>printf.c\<close>. \<open>Printf_Text\<close>, \<open>Printf_Correct\<close>: the text of a format as a function, refined by
    the buffer output; digits read back; nothing written outside the buffer by a call that completes; a call
    completes when its format has no unfinished directive and its arguments fit the grammar of the directives.
  \<^item> \<open>Spinlock\<close>: \<open>spinlock.h\<close> as a function and as instructions of many processors with interrupts:
    mutual exclusion, freedom from deadlock on infinite fair runs whose locked sections end, and the deadlock
    with a handler; the locale \<open>interrupt_lock\<close> is what the
    code under a lock relies on.
  \<^item> \<open>Port_IO\<close>, \<open>Devices\<close>: \<open>utility/utils.h\<close>, \<open>hardware/pic\<close>, the serial port, and what the accesses do
    to the devices. \<open>Serial\<close>: \<open>debug.c\<close> and \<open>log.c\<close>, whose messages arrive whole when they fit the static
    buffer of 5120 bytes; a longer one is an access out of bounds.
  \<^item> \<open>Descriptor_Tables\<close>: \<open>gdt.c\<close> and \<open>idt.c\<close>, with the delivery of an interrupt through both tables.
    \<open>Interrupts\<close>: \<open>isr.c\<close> and the register macros of the stubs.
  \<^item> \<open>Boot_Protocol\<close>: \<open>boot/stivale2.h\<close>, \<open>boot/stivale2_boot.c\<close>. \<open>ACPI\<close>: \<open>hardware/acpi\<close>, the search for a
    table and the scan of the MADT.
  \<^item> \<open>APIC\<close>: \<open>hardware/apic/apic.c\<close>, \<open>hardware/hpet/hpet.c\<close>, \<open>cpuid\<close>. \<open>IOAPIC_Routing\<close>: the redirection
    tables the accesses program, and how long a wait lasts.
  \<^item> \<open>Kernel_Boot\<close>: \<open>kinit_all\<close> of \<open>kernel.c\<close>: the kernel comes up with the invariants of all its parts.
  \<^item> \<open>SMP\<close>: \<open>proc/smp/smp.c\<close>, \<open>enable_sse\<close>, one program per processor and any interleaving of their statements.
    \<open>SMP_Memory\<close>, \<open>SMP_Start\<close>: the invariant; every processor comes up on its own stack and task state
    segment although all share one segment descriptor, and \<open>smp_init\<close> can always go on to its end. \<open>SMP_Init\<close>:
    the same from the call of \<open>smp_init\<close> on, with the tag of the bootloader, the heap and the frames; the bound of
    34 processors keeps the array within one page.
  \<^item> \<open>Vendor_String\<close>: \<open>cpu_get_vendor_id_string\<close> of \<open>hardware/cpu.h\<close>, which combines \<open>cpuid\<close>, the heap and \<open>snprintf\<close>.

  \<^bold>\<open>Simplifications.\<close> The bitmap of \<open>pmm.c\<close> is an object of its own beside physical memory, and \<open>vmm_init\<close> reads the
  memory map once, at its start: both are exact when the structures of the bootloader lie outside usable
  memory, which the boot protocol promises. Memory is total, so a string without a terminator is read on to the next
  null byte; an index outside an array is an error value. A format that ends inside a directive is the error
  \<open>Out_Of_Bounds\<close> at the point where the code starts to read behind the string. In \<open>SMP\<close> the lock is taken in one
  step, and interrupts and log calls are left out of the programs; the free frames are assumed to form one
  interval there, because \<open>pmm_alloc\<close> checks only the first page of a request for several (\<open>PMM\<close>).

  \<^bold>\<open>Not modelled.\<close> The assembler files beyond the register macros, floating-point conversions of \<open>printf.c\<close> (compiled out by
  the build), the tags of \<open>stivale2.h\<close> that the kernel never asks for, and \<open>scheduler.c\<close> and \<open>vector.c\<close>,
  which are empty.
\<close>

end
